(* ===== verification/Prelude.thy ===== *)
theory Prelude
  imports Main "HOL-Library.Word"
begin

text \<open>
  Shared vocabulary of the development: the machine types of the C code, the outcome
  type of a C call, C integer conversions, little-endian encodings of integers, C
  strings, and the two list operations every file access of the program comes down to
  (reading a fslice, overwriting a fslice). The lemmas about them are collected in
  \<open>slice_simps\<close>, \<open>enc_simps\<close> and \<open>c_simps\<close> and carry most component proofs.
\<close>

section \<open>Types and lemma collections\<close>

type_synonym byte = "8 word"
type_synonym u32 = "32 word"
type_synonym u64 = "64 word"

named_theorems slice_simps \<open>reading and overwriting slices of byte lists\<close>
named_theorems enc_simps \<open>little-endian encodings\<close>
named_theorems c_simps \<open>C integer conversions and outcomes\<close>

section \<open>Outcomes of C calls\<close>

text \<open>
  A C function returns a value, runs into undefined behaviour, or never returns (a loop
  over corrupt data). \<open>Ret\<close> carries the returned value together with the new state.
\<close>

datatype 'a outcome = Ret 'a | UB | Diverge

primrec c_bind :: "'a outcome \<Rightarrow> ('a \<Rightarrow> 'b outcome) \<Rightarrow> 'b outcome" where
  "c_bind (Ret x) k = k x"
| "c_bind UB k = UB"
| "c_bind Diverge k = Diverge"

lemma c_bind_Ret_iff [c_simps]: "c_bind m k = Ret y \<longleftrightarrow> (\<exists>x. m = Ret x \<and> k x = Ret y)"
  by (cases m) auto

lemma c_bind_assoc: "c_bind (c_bind m k) l = c_bind m (\<lambda>x. c_bind (k x) l)"
  by (cases m) auto

definition of_option :: "'a option \<Rightarrow> 'a outcome" where
  "of_option x = (case x of Some y \<Rightarrow> Ret y | None \<Rightarrow> Diverge)"

lemma of_option_simps [simp]: "of_option (Some y) = Ret y" "of_option None = Diverge"
  by (simp_all add: of_option_def)

section \<open>C integer conversions\<close>

text \<open>
  \<open>c_int\<close> is the conversion to a 32-bit signed \<open>int\<close> (two's complement, as on the
  x86-64 Linux target), \<open>c_u32\<close> and \<open>c_u64\<close> the conversions to unsigned words.
\<close>

definition c_int :: "int \<Rightarrow> int" where
  "c_int x = sint (word_of_int x :: u32)"

definition c_u32 :: "int \<Rightarrow> u32" where
  "c_u32 x = word_of_int x"

definition c_u64 :: "int \<Rightarrow> u64" where
  "c_u64 x = word_of_int x"

lemma c_int_id [c_simps]: "- (2 ^ 31) \<le> x \<Longrightarrow> x < 2 ^ 31 \<Longrightarrow> c_int x = x"
  by (simp add: c_int_def int_word_sint)

lemma unat_c_u32 [c_simps]: "0 \<le> x \<Longrightarrow> x < 2 ^ 32 \<Longrightarrow> unat (c_u32 x) = nat x"
  by (simp add: c_u32_def unat_eq_nat_uint uint_word_of_int)

lemma unat_c_u64 [c_simps]: "0 \<le> x \<Longrightarrow> x < 2 ^ 64 \<Longrightarrow> unat (c_u64 x) = nat x"
  by (simp add: c_u64_def unat_eq_nat_uint uint_word_of_int)

lemma unat_lt8: "unat (x :: byte) < 256"
  using unsigned_less [of x, where 'a = nat] by simp

lemma unat_lt32: "unat (x :: u32) < 4294967296"
  using unsigned_less [of x, where 'a = nat] by simp

lemma unat_lt64: "unat (x :: u64) < 18446744073709551616"
  using unsigned_less [of x, where 'a = nat] by simp

lemma unat_add_nat:
  assumes "unat (x :: u32) + k < 4294967296"
  shows "unat (x + word_of_nat k) = unat x + k"
proof -
  have "x + word_of_nat k = word_of_nat (unat x + k)"
    by simp
  then show ?thesis
    using assms by (simp only: unat_of_nat) simp
qed

lemma unat_mod256:
  "unat ((x :: u64) mod 256) = unat x mod 256" "unat ((y :: u32) mod 256) = unat y mod 256"
proof -
  have "unat (256 :: u64) = 256" "unat (256 :: u32) = 256"
    by simp_all
  then show "unat (x mod 256) = unat x mod 256" "unat (y mod 256) = unat y mod 256"
    by (simp_all only: unat_mod)
qed

lemma sint_small:
  assumes "unat (x :: u32) < 2147483648"
  shows "sint x = int (unat x)"
proof -
  have u: "uint x < 2147483648"
    unfolding uint_nat using assms by linarith
  then have "take_bit 31 (uint x) = uint x" 
    by (simp add: take_bit_int_eq_self_iff)
  moreover have "\<not> bit (uint x) 31"
    using u by (simp add: bit_iff_odd)
  ultimately have "signed_take_bit 31 (uint x) = uint x"
    by (simp add: signed_take_bit_eq_if_positive)
  then show ?thesis
    by (simp add: sint_uint)
qed

section \<open>Slices of byte lists\<close>

definition fslice :: "'a list \<Rightarrow> nat \<Rightarrow> nat \<Rightarrow> 'a list" where
  "fslice xs off n = take n (drop off xs)"

text \<open>
  Writing past the end of a file fills the gap with zero bytes, as POSIX files do.
\<close>

definition write_at :: "nat \<Rightarrow> byte list \<Rightarrow> byte list \<Rightarrow> byte list" where
  "write_at off ys xs =
     take off xs @ replicate (off - length xs) 0 @ ys @ drop (off + length ys) xs"

lemma length_fslice [slice_simps]: "off + n \<le> length xs \<Longrightarrow> length (fslice xs off n) = n"
  by (simp add: fslice_def)

lemma length_fslice_le: "length (fslice xs off n) \<le> n"
  by (simp add: fslice_def)

lemma fslice_0 [simp]: "fslice xs off 0 = []"
  by (simp add: fslice_def)

lemma fslice_at_end [simp]: "length xs \<le> off \<Longrightarrow> fslice xs off n = []"
  by (simp add: fslice_def)

lemma fslice_append1 [slice_simps]: "off + n \<le> length xs \<Longrightarrow> fslice (xs @ ys) off n = fslice xs off n"
  by (simp add: fslice_def)

lemma fslice_append2 [slice_simps]:
  "length xs \<le> off \<Longrightarrow> fslice (xs @ ys) off n = fslice ys (off - length xs) n"
  by (simp add: fslice_def)

lemma fslice_Cons [slice_simps]: "0 < off \<Longrightarrow> fslice (x # xs) off n = fslice xs (off - 1) n"
  by (cases off) (simp_all add: fslice_def)

lemma fslice_Cons_0 [slice_simps]: "0 < n \<Longrightarrow> fslice (x # xs) 0 n = x # fslice xs 0 (n - 1)"
  by (cases n) (simp_all add: fslice_def)

lemma fslice_all [slice_simps]: "length xs \<le> n \<Longrightarrow> fslice xs 0 n = xs"
  by (simp add: fslice_def)

lemma fslice_fslice [slice_simps]:
  "k + m \<le> n \<Longrightarrow> fslice (fslice xs off n) k m = fslice xs (off + k) m"
  by (simp add: fslice_def drop_take drop_drop add.commute min_def)

lemma fslice_eq_sub:
  assumes "fslice xs off (length ys) = ys" and "k + m \<le> length ys"
  shows "fslice xs (off + k) m = fslice ys k m"
proof -
  have "fslice xs (off + k) m = fslice (fslice xs off (length ys)) k m"
    using assms(2) by (simp add: fslice_fslice)
  then show ?thesis using assms(1) by simp
qed

lemma length_write_at: "length (write_at off ys xs) = max (length xs) (off + length ys)"
  by (auto simp: write_at_def)

lemma length_write_at_in [slice_simps]:
  "off + length ys \<le> length xs \<Longrightarrow> length (write_at off ys xs) = length xs"
  by (simp add: length_write_at)

lemma write_at_end: "write_at (length xs) ys xs = xs @ ys"
  by (simp add: write_at_def)

lemma fslice_write_at_same [slice_simps]:
  "off \<le> length xs \<Longrightarrow> n = length ys \<Longrightarrow> fslice (write_at off ys xs) off n = ys"
  by (simp add: write_at_def fslice_def)

lemma fslice_write_at_before [slice_simps]:
  "off \<le> length xs \<Longrightarrow> a + n \<le> off \<Longrightarrow> fslice (write_at off ys xs) a n = fslice xs a n"
  by (auto simp: write_at_def fslice_def drop_take min_def)

lemma fslice_write_at_after [slice_simps]:
  assumes "off + length ys \<le> length xs" and "off + length ys \<le> a"
  shows "fslice (write_at off ys xs) a n = fslice xs a n"
proof -
  have "drop a (write_at off ys xs) = drop a xs"
    using assms by (simp add: write_at_def drop_drop)
  then show ?thesis by (simp add: fslice_def)
qed

lemma write_at_append [slice_simps]:
  "off + length ys \<le> length xs \<Longrightarrow> write_at off ys (xs @ zs) = write_at off ys xs @ zs"
  by (simp add: write_at_def)

lemma length_concat_replicate [simp]: "length (concat (replicate n e)) = n * length e"
  by (induction n) auto

lemma fslice_replicate [slice_simps]:
  "k + m \<le> n \<Longrightarrow> fslice (replicate n x) k m = replicate m x"
  by (simp add: fslice_def min_def)

lemma fslice_concat_replicate [slice_simps]:
  "k < n \<Longrightarrow> fslice (concat (replicate n e)) (k * length e) (length e) = e"
proof (induction n arbitrary: k)
  case 0
  then show ?case by simp
next
  case (Suc n)
  then show ?case
    by (cases k) (simp_all add: fslice_def)
qed

section \<open>Little-endian encodings\<close>

primrec le_bytes :: "nat \<Rightarrow> nat \<Rightarrow> byte list" where
  "le_bytes 0 n = []"
| "le_bytes (Suc k) n = word_of_nat n # le_bytes k (n div 256)"

primrec le_nat :: "byte list \<Rightarrow> nat" where
  "le_nat [] = 0"
| "le_nat (b # bs) = unat b + 256 * le_nat bs"

lemma length_le_bytes [simp]: "length (le_bytes k n) = k"
  by (induction k arbitrary: n) auto

lemma le_nat_bound: "le_nat bs < 256 ^ length bs"
proof (induction bs)
  case Nil
  then show ?case by simp
next
  case (Cons b bs)
  have "unat b < 256"
    using unat_lt8 [of b] by simp
  with Cons have "unat b + 256 * le_nat bs < 256 * 256 ^ length bs"
    by linarith
  then show ?case by simp
qed

lemma le_nat_le_bytes [enc_simps]: "le_nat (le_bytes k n) = n mod 256 ^ k"
proof (induction k arbitrary: n)
  case 0
  then show ?case by simp
next
  case (Suc k)
  have "n mod 256 + 256 * (n div 256 mod 256 ^ k) = n mod (256 * 256 ^ k)"
    by (simp add: mod_mult2_eq add.commute)
  with Suc show ?case by (simp add: unat_of_nat)
qed

lemma le_bytes_le_nat [enc_simps]: "length bs = k \<Longrightarrow> le_bytes k (le_nat bs) = bs"
proof (induction bs arbitrary: k)
  case Nil
  then show ?case by simp
next
  case (Cons b bs)
  have b: "unat b < 256"
    using unat_lt8 [of b] by simp
  then have "(unat b + 256 * le_nat bs) div 256 = le_nat bs"
    by simp
  moreover have "(word_of_nat (unat b + 256 * le_nat bs) :: byte) = b"
  proof (rule word_unat_eq_iff [THEN iffD2])
    have "unat (word_of_nat (unat b + 256 * le_nat bs) :: byte)
        = (unat b + 256 * le_nat bs) mod 2 ^ LENGTH(8)"
      by (rule unat_of_nat)
    then show "unat (word_of_nat (unat b + 256 * le_nat bs) :: byte) = unat b"
      using b by simp
  qed
  ultimately show ?case using Cons by auto
qed

lemma le_bytes_inj:
  assumes "le_bytes k m = le_bytes k n" and "m < 256 ^ k" and "n < 256 ^ k"
  shows "m = n"
proof -
  have "le_nat (le_bytes k m) = le_nat (le_bytes k n)"
    using assms(1) by simp
  then show ?thesis using assms(2,3) by (simp add: le_nat_le_bytes)
qed

lemma le_bytes_mod: "le_bytes k (n mod 256 ^ k) = le_bytes k n"
  by (rule le_bytes_le_nat [of "le_bytes k n" k, unfolded le_nat_le_bytes]) simp

lemma le_bytes_u8: "le_bytes (Suc 0) (unat (v :: u64)) = [ucast v]"
  by (simp add: word_unat_eq_iff unsigned_ucast_eq unat_of_nat take_bit_eq_mod)

lemma le_bytes_ucast32: "le_bytes 4 (unat (ucast (v :: u64) :: u32)) = le_bytes 4 (unat v)"
proof -
  have "unat (ucast v :: u32) = unat v mod 256 ^ 4"
    by (simp add: unsigned_ucast_eq take_bit_eq_mod)
  then show ?thesis by (simp only: le_bytes_mod)
qed

lemma le_nat_le_bytes32 [enc_simps]: "le_nat (le_bytes 4 (unat (x :: u32))) = unat x"
  using unat_lt32 [of x] by (simp add: le_nat_le_bytes)

lemma le_nat_le_bytes64 [enc_simps]: "le_nat (le_bytes 8 (unat (x :: u64))) = unat x"
  using unat_lt64 [of x] by (simp add: le_nat_le_bytes)

lemma le_nat_le_bytes_lt [enc_simps]: "n < 256 ^ k \<Longrightarrow> le_nat (le_bytes k n) = n"
  by (simp add: le_nat_le_bytes)

section \<open>C strings\<close>

text \<open>
  A buffer is a byte list; the string it holds ends before its first NUL byte.
  \<open>bytes_of\<close> turns a literal into bytes. \<open>strcmp_eq\<close> of two buffers that both hold a
  NUL compares the strings; a buffer without NUL makes \<open>strcmp\<close> run past its end.
\<close>

definition c_str :: "byte list \<Rightarrow> byte list" where
  "c_str bs = takeWhile (\<lambda>b. b \<noteq> 0) bs"

definition has_nul :: "byte list \<Rightarrow> bool" where
  "has_nul bs \<longleftrightarrow> 0 \<in> set bs"

definition bytes_of :: "string \<Rightarrow> byte list" where
  "bytes_of s = map of_char s"

definition strcmp_eq :: "byte list \<Rightarrow> byte list \<Rightarrow> bool outcome" where
  "strcmp_eq a b = (if has_nul a \<and> has_nul b then Ret (c_str a = c_str b) else UB)"

lemma c_str_append_nul [simp]: "0 \<notin> set s \<Longrightarrow> c_str (s @ 0 # t) = s"
  by (simp add: c_str_def takeWhile_append takeWhile_eq_all_conv)

lemma c_str_no_nul: "0 \<notin> set (c_str s)"
  by (auto simp: c_str_def dest: set_takeWhileD)

section \<open>Counting\<close>

text \<open>How many elements of a list have a property, as the processes of a system at a certain point.\<close>

definition cnt :: "('a \<Rightarrow> bool) \<Rightarrow> 'a list \<Rightarrow> int" where
  "cnt P ps = int (length (filter P ps))"

lemma cnt_update [simp]:
  "i < length ps \<Longrightarrow> cnt P (ps[i := p]) = cnt P ps - of_bool (P (ps ! i)) + of_bool (P p)"
proof (induction ps arbitrary: i)
  case (Cons q ps)
  then show ?case
    by (cases i) (auto simp: cnt_def)
qed simp

lemma cnt_pos: "i < length ps \<Longrightarrow> P (ps ! i) \<Longrightarrow> 1 \<le> cnt P ps"
proof -
  assume "i < length ps" "P (ps ! i)"
  then have "ps ! i \<in> set (filter P ps)"
    by simp
  then have "filter P ps \<noteq> []"
    by (metis empty_iff list.set(1))
  then show ?thesis
    by (cases "filter P ps") (simp_all add: cnt_def)
qed

lemma cnt_ge [simp]: "0 \<le> cnt P ps"
  by (simp add: cnt_def)

lemma cnt_replicate [simp]: "cnt P (replicate n p) = (if P p then int n else 0)"
  by (simp add: cnt_def)

lemma cnt_two:
  assumes "i < length ps" "j < length ps" "i \<noteq> j" "P (ps ! i)" "P (ps ! j)"
  shows "2 \<le> cnt P ps"
proof -
  have "card {i, j} \<le> card {k. k < length ps \<and> P (ps ! k)}"
    using assms by (intro card_mono) auto
  then show ?thesis
    using assms(3) by (simp add: cnt_def length_filter_conv_card)
qed

section \<open>Printing numbers\<close>

text \<open>\<open>%u\<close> and \<open>%d\<close> of \<open>snprintf\<close>.\<close>

fun dec_digits :: "nat \<Rightarrow> byte list" where
  "dec_digits n = (if n < 10 then [word_of_nat (48 + n)] else dec_digits (n div 10) @ [word_of_nat (48 + n mod 10)])"

declare dec_digits.simps [simp del]

definition print_d :: "int \<Rightarrow> byte list" where
  "print_d i = (if i < 0 then 45 # dec_digits (nat (- i)) else dec_digits (nat i))"

end
