(* ===== verification/Posix_File.thy ===== *)
theory Posix_File
  imports Prelude
begin

text \<open>
  The part of the POSIX file interface the program relies on: one open file description
  over a regular file, with its position and its \<open>O_APPEND\<close> flag, \<open>pread\<close>,
  \<open>pwrite\<close>, \<open>write\<close>, \<open>lseek\<close>, \<open>ftruncate\<close> and the advisory record locks of
  \<open>fcntl\<close>. \<open>file_limit\<close> is the size the file can grow to (disk or quota): writes
  beyond it are short, as POSIX prescribes, so that the error branches of the code are
  reachable. \<open>setlkw_ok\<close> and \<open>setlk_ok\<close> say whether \<open>F_SETLKW\<close> and \<open>F_SETLK\<close>
  succeed. \<open>stack_junk\<close> is the content of an uninitialised \<open>uint32_t\<close> variable.
\<close>

record fdesc =
  fdno :: int
  bytes :: "byte list"
  fpos :: nat
  o_append :: bool
  file_limit :: nat
  setlkw_ok :: bool
  setlk_ok :: bool
  stack_junk :: u32

text \<open>\<open>pread\<close>: \<open>None\<close> is the result -1, a short list is a read that met the end of the file.\<close>

definition pread :: "fdesc \<Rightarrow> int \<Rightarrow> int \<Rightarrow> byte list option" where
  "pread f count off =
     (if count < 0 \<or> off < 0 then None else Some (fslice (bytes f) (nat off) (nat count)))"

text \<open>
  The guard \<open>if(n != pread(fd, buf, n, off))\<close> around a read: the \<open>n\<close> bytes, or \<open>None\<close>
  when fewer could be read.
\<close>

definition pread_exact :: "fdesc \<Rightarrow> int \<Rightarrow> int \<Rightarrow> byte list option" where
  "pread_exact f n off =
     (case pread f n off of
        None \<Rightarrow> None
      | Some bs \<Rightarrow> if int (length bs) = n then Some bs else None)"

definition write_room :: "fdesc \<Rightarrow> byte list \<Rightarrow> nat \<Rightarrow> byte list option" where
  "write_room f bs off =
     (if bs \<noteq> [] \<and> file_limit f \<le> off then None else Some (take (file_limit f - off) bs))"

text \<open>
  \<open>pread(fd, &var, sizeof(uint32_t), off)\<close> into a variable with the content \<open>init\<close>: the
  returned count and the new content. A short read overwrites the low bytes only.
\<close>

definition pread_u32 :: "fdesc \<Rightarrow> int \<Rightarrow> u32 \<Rightarrow> int \<times> u32" where
  "pread_u32 f off init =
     (case pread f 4 off of
        None \<Rightarrow> (-1, init)
      | Some bs \<Rightarrow>
          (int (length bs), word_of_nat (le_nat (bs @ drop (length bs) (le_bytes 4 (unat init))))))"

text \<open>
  On Linux a \<open>pwrite\<close> through a descriptor in \<open>O_APPEND\<close> mode appends, whatever the
  offset; this is why the program drops \<open>O_APPEND\<close> around its header updates.
\<close>

definition pwrite :: "fdesc \<Rightarrow> byte list \<Rightarrow> int \<Rightarrow> int \<times> fdesc" where
  "pwrite f bs off =
     (if off < 0 then (-1, f)
      else let at = (if o_append f then length (bytes f) else nat off)
           in case write_room f bs at of
                None \<Rightarrow> (-1, f)
              | Some ws \<Rightarrow> (int (length ws), f\<lparr>bytes := write_at at ws (bytes f)\<rparr>))"

definition write_fd :: "fdesc \<Rightarrow> byte list \<Rightarrow> int \<times> fdesc" where
  "write_fd f bs =
     (let at = (if o_append f then length (bytes f) else fpos f)
      in case write_room f bs at of
           None \<Rightarrow> (-1, f)
         | Some ws \<Rightarrow>
             (int (length ws), f\<lparr>bytes := write_at at ws (bytes f), fpos := at + length ws\<rparr>))"

definition lseek_cur :: "fdesc \<Rightarrow> int" where
  "lseek_cur f = int (fpos f)"

definition ftruncate0 :: "fdesc \<Rightarrow> fdesc" where
  "ftruncate0 f = f\<lparr>bytes := []\<rparr>"

lemma pread_in:
  "0 \<le> off \<Longrightarrow> 0 \<le> n \<Longrightarrow> pread f n off = Some (fslice (bytes f) (nat off) (nat n))"
  by (simp add: pread_def)

lemma pread_u32_in:
  assumes "nat off + 4 \<le> length (bytes f)" "0 \<le> off"
  shows "pread_u32 f off init = (4, word_of_nat (le_nat (fslice (bytes f) (nat off) 4)))"
  using assms by (simp add: pread_u32_def pread_def length_fslice)

lemma pread_u32_eof:
  assumes "length (bytes f) \<le> nat off" "0 \<le> off"
  shows "pread_u32 f off init = (0, init)"
  using assms by (simp add: pread_u32_def pread_def le_nat_le_bytes32)

lemma pwrite_ok:
  assumes "\<not> o_append f" and "0 \<le> off" and "nat off + length bs \<le> file_limit f" and "bs \<noteq> []"
  shows "pwrite f bs off = (int (length bs), f\<lparr>bytes := write_at (nat off) bs (bytes f)\<rparr>)"
proof -
  have "\<not> file_limit f \<le> nat off"
    using assms(3,4) by (cases bs) auto
  with assms show ?thesis by (simp add: pwrite_def write_room_def Let_def)
qed

lemma write_fd_append_ok:
  assumes "o_append f" and "length (bytes f) + length bs \<le> file_limit f" and "bs \<noteq> []"
  shows "write_fd f bs =
    (int (length bs),
     f\<lparr>bytes := bytes f @ bs, fpos := length (bytes f) + length bs\<rparr>)"
proof -
  have "\<not> file_limit f \<le> length (bytes f)"
    using assms(2,3) by (cases bs) auto
  with assms show ?thesis by (simp add: write_fd_def write_room_def Let_def write_at_end)
qed

text \<open>A concrete descriptor over given file contents, used by the closed examples.\<close>

definition demo_fd :: "byte list \<Rightarrow> fdesc" where
  "demo_fd bs =
     \<lparr>fdno = 3, bytes = bs, fpos = 0, o_append = True, file_limit = 1000000,
      setlkw_ok = True, setlk_ok = True, stack_junk = 0\<rparr>"

lemma demo_fd_simps [simp]:
  "fdno (demo_fd bs) = 3" "bytes (demo_fd bs) = bs" "o_append (demo_fd bs)"
  "file_limit (demo_fd bs) = 1000000" "setlkw_ok (demo_fd bs)" "setlk_ok (demo_fd bs)"
  "fpos (demo_fd bs) = 0" "stack_junk (demo_fd bs) = 0"
  by (simp_all add: demo_fd_def)

end
