(* ===== verification/Db_Types.thy ===== *)
theory Db_Types
  imports Posix_File
begin

text \<open>
  The constants and record types of \<open>include/db_types.h\<close>: the layout of the snapshot
  header (magic, version, id, state, active writers, record count, first entry position,
  256 lock bytes, 256 bucket heads, 256 bucket tails), the limits, and the two kinds of
  entries. Header fields are numbered as the macros number them; the pseudo field numbers
  \<open>BUCKET + b\<close>, \<open>BUCKET_HEAD + b\<close> and \<open>BUCKET_TAIL + b\<close> name the cells of bucket \<open>b\<close>.
\<close>

section \<open>Limits\<close>

abbreviation (input) MAX_ENTRY_SIZE :: "'a::numeral" where "MAX_ENTRY_SIZE \<equiv> 8192"
abbreviation (input) PATH_MAX :: "'a::numeral" where "PATH_MAX \<equiv> 4096"
abbreviation (input) TYPE_LEN_MAX :: "'a::numeral" where "TYPE_LEN_MAX \<equiv> 16"
abbreviation (input) CHECKSUM_LEN :: "'a::numeral" where "CHECKSUM_LEN \<equiv> 8"
abbreviation (input) LEN_CMDLINE_MAX :: "'a::numeral" where "LEN_CMDLINE_MAX \<equiv> 1024"
abbreviation (input) LEN_NAME_MAX :: "'a::numeral" where "LEN_NAME_MAX \<equiv> 256"
abbreviation (input) LEN_STAT_MAX :: "'a::numeral" where "LEN_STAT_MAX \<equiv> 512"

section \<open>Entry layout\<close>

abbreviation (input) IDX_PATH_LEN_OFFSET :: "'a::numeral" where "IDX_PATH_LEN_OFFSET \<equiv> 4"
abbreviation (input) IDX_ABS_PATH_OFFSET :: "'a::numeral" where "IDX_ABS_PATH_OFFSET \<equiv> 8"
abbreviation (input) PROC_PID_OFFSET :: "'a::numeral" where "PROC_PID_OFFSET \<equiv> 4"
abbreviation (input) PROC_PPID_OFFSET :: "'a::numeral" where "PROC_PPID_OFFSET \<equiv> 8"
abbreviation (input) PROC_STATE_OFFSET :: "'a::numeral" where "PROC_STATE_OFFSET \<equiv> 12"
abbreviation (input) PROC_COMM_SIZE_OFFSET :: "'a::numeral" where "PROC_COMM_SIZE_OFFSET \<equiv> 13"

section \<open>Header fields and offsets\<close>

abbreviation (input) VERSION_VALUE :: "'a::numeral" where "VERSION_VALUE \<equiv> 100"
abbreviation (input) BUCKET_COUNT :: "'a::numeral" where "BUCKET_COUNT \<equiv> 256"
abbreviation (input) STATE_OPEN :: "'a::numeral" where "STATE_OPEN \<equiv> 79"
abbreviation (input) STATE_SEALED :: "'a::numeral" where "STATE_SEALED \<equiv> 83"
abbreviation (input) FILEOPS_MAGIC_ID :: "'a::zero" where "FILEOPS_MAGIC_ID \<equiv> 0"
abbreviation (input) PROC_MAGIC_ID :: "'a::one" where "PROC_MAGIC_ID \<equiv> 1"

abbreviation (input) MAGIC :: int where "MAGIC \<equiv> 0"
abbreviation (input) VERSION :: int where "VERSION \<equiv> 1"
abbreviation (input) SNAPSHOT_ID :: int where "SNAPSHOT_ID \<equiv> 2"
abbreviation (input) STATE :: int where "STATE \<equiv> 3"
abbreviation (input) ACTIVE_WRITERS :: int where "ACTIVE_WRITERS \<equiv> 4"
abbreviation (input) RECORD_COUNT :: int where "RECORD_COUNT \<equiv> 5"
abbreviation (input) FIRST_ENTRY_POS :: int where "FIRST_ENTRY_POS \<equiv> 6"
abbreviation (input) BUCKET :: int where "BUCKET \<equiv> 7"
abbreviation (input) BUCKET_HEAD :: int where "BUCKET_HEAD \<equiv> 263"
abbreviation (input) BUCKET_TAIL :: int where "BUCKET_TAIL \<equiv> 519"
abbreviation (input) FIELD_HEADER_COUNT :: int where "FIELD_HEADER_COUNT \<equiv> 775"

abbreviation (input) BUCKET_OFFSET :: "'a::numeral" where "BUCKET_OFFSET \<equiv> 25"
abbreviation (input) BUCKET_HEAD_OFFSET :: "'a::numeral" where "BUCKET_HEAD_OFFSET \<equiv> 281"
abbreviation (input) BUCKET_TAIL_OFFSET :: "'a::numeral" where "BUCKET_TAIL_OFFSET \<equiv> 1305"
abbreviation (input) HEADER_SIZE :: "'a::numeral" where "HEADER_SIZE \<equiv> 2329"
abbreviation (input) EMPTY_BUCKET :: "'a::numeral" where "EMPTY_BUCKET \<equiv> 4294967295"

abbreviation (input) NEXT_IS_REGULAR :: int where "NEXT_IS_REGULAR \<equiv> 0"
abbreviation (input) NEXT_IS_BUCKET :: int where "NEXT_IS_BUCKET \<equiv> 1"

lemma header_layout:
  "BUCKET_HEAD = BUCKET + BUCKET_COUNT" "BUCKET_TAIL = BUCKET + 2 * BUCKET_COUNT"
  "FIELD_HEADER_COUNT = BUCKET_TAIL + BUCKET_COUNT"
  "BUCKET_HEAD_OFFSET = BUCKET_OFFSET + 1 * (BUCKET_COUNT :: int)"
  "BUCKET_TAIL_OFFSET = BUCKET_HEAD_OFFSET + 4 * (BUCKET_COUNT :: int)"
  "HEADER_SIZE = BUCKET_TAIL_OFFSET + 4 * (BUCKET_COUNT :: int)"
  by simp_all

section \<open>Entries\<close>

text \<open>
  Pointer fields are modelled by the bytes of the buffer they point to; its length is the
  allocated size.
\<close>

record db_fileops_entry =
  f_entry_size :: u32
  f_path_len :: u32
  f_absolute_path :: "byte list"
  f_type :: "byte list"
  f_checksum :: u64
  f_size_bytes :: u64
  f_mtime :: u32
  f_hash :: u64
  f_dev :: u32
  f_inode :: u32
  f_next_entry_bucket :: u32

record db_proc_entry =
  p_entry_size :: u32
  p_pid :: u32
  p_ppid :: u32
  p_state :: byte
  p_comm_size :: u32
  p_comm :: "byte list"
  p_cmdline_size :: u32
  p_cmdline :: "byte list"
  p_rss_src_size :: u32
  p_rss_src :: "byte list"
  p_rss :: u64
  p_cpu_time :: u64
  p_next_entry_bucket :: u32

end
