(* ===== verification/Db_Header.thy ===== *)
theory Db_Header
  imports Db_Types
begin

text \<open>
  Access to the snapshot header, from \<open>src/db_utils.c\<close>: \<open>get_header_field\<close>,
  \<open>set_header_field\<close> and \<open>initialize_snapshot\<close>. The header is addressed by field
  numbers; \<open>hdr_off\<close> and \<open>hdr_width\<close> give the byte range each number stands for, and
  the lemmas show that the C code reads and writes exactly that range.
\<close>

section \<open>The code\<close>

text \<open>One \<open>case\<close> of the C switch: read \<open>n\<close> bytes at \<open>off\<close> or fail with -1.\<close>

definition hdr_read :: "fdesc \<Rightarrow> int \<Rightarrow> int \<Rightarrow> int" where
  "hdr_read f n off =
     (case pread f n off of
        None \<Rightarrow> -1
      | Some bs \<Rightarrow> if int (length bs) \<noteq> n then -1 else int (le_nat bs))"

definition hdr_read_magic :: "fdesc \<Rightarrow> int" where
  "hdr_read_magic f =
     (case pread f 4 0 of
        None \<Rightarrow> -1
      | Some bs \<Rightarrow>
          if length bs \<noteq> 4 then -1
          else if c_str (bs @ [0]) = bytes_of ''IDX1'' then FILEOPS_MAGIC_ID
          else if c_str (bs @ [0]) = bytes_of ''PRC1'' then PROC_MAGIC_ID
          else -1)"

text \<open>
  The function clears \<open>O_APPEND\<close> and restores it before it returns; \<open>pread\<close> does not
  depend on the flag, so a read leaves the descriptor as it was.
\<close>

definition get_header_field :: "fdesc \<Rightarrow> int \<Rightarrow> int" where
  "get_header_field f field =
     (if fdno f = -1 then -1
      else if field < 0 \<or> FIELD_HEADER_COUNT \<le> field then -1
      else if field = MAGIC then hdr_read_magic f
      else if field = VERSION then hdr_read f 4 4
      else if field = SNAPSHOT_ID then hdr_read f 4 8
      else if field = STATE then hdr_read f 1 12
      else if field = ACTIVE_WRITERS then hdr_read f 4 13
      else if field = RECORD_COUNT then hdr_read f 4 17
      else if field = FIRST_ENTRY_POS then hdr_read f 4 21
      else if BUCKET \<le> field \<and> field < BUCKET + BUCKET_COUNT
        then hdr_read f 1 (BUCKET_OFFSET + (field - BUCKET))
      else if BUCKET_HEAD \<le> field \<and> field < FIELD_HEADER_COUNT
        then hdr_read f 4 (BUCKET_HEAD_OFFSET + 4 * (field - BUCKET_HEAD))
      else -1)"

definition hdr_write :: "fdesc \<Rightarrow> byte list \<Rightarrow> int \<Rightarrow> int \<times> fdesc" where
  "hdr_write f bs off =
     (let (n, g) = pwrite f bs off in (if n \<noteq> int (length bs) then -1 else 0, g))"

text \<open>
  The switch of \<open>set_header_field\<close>. With an unknown magic the code reports the error but
  goes on to \<open>pwrite\<close> through an uninitialised pointer.
\<close>

definition set_header_switch :: "fdesc \<Rightarrow> int \<Rightarrow> u64 \<Rightarrow> (int \<times> fdesc) outcome" where
  "set_header_switch f field v =
     (let val8 = [ucast v :: byte]; val32 = le_bytes 4 (unat (ucast v :: u32))
      in if field = MAGIC then
           (if v = FILEOPS_MAGIC_ID then Ret (hdr_write f (bytes_of ''IDX1'') 0)
            else if v = PROC_MAGIC_ID then Ret (hdr_write f (bytes_of ''PRC1'') 0)
            else UB)
         else if field = VERSION then Ret (hdr_write f val32 4)
         else if field = SNAPSHOT_ID then Ret (hdr_write f val32 8)
         else if field = STATE then
           (if (ucast v :: byte) \<noteq> STATE_OPEN \<and> (ucast v :: byte) \<noteq> STATE_SEALED then Ret (-1, f)
            else Ret (hdr_write f val8 12))
         else if field = ACTIVE_WRITERS then Ret (hdr_write f val32 13)
         else if field = RECORD_COUNT then Ret (hdr_write f val32 17)
         else if field = FIRST_ENTRY_POS then Ret (hdr_write f val32 21)
         else if BUCKET \<le> field \<and> field < BUCKET_HEAD
           then Ret (hdr_write f val8 (BUCKET_OFFSET + (field - BUCKET)))
         else if BUCKET_HEAD \<le> field \<and> field < FIELD_HEADER_COUNT
           then Ret (hdr_write f val32 (BUCKET_HEAD_OFFSET + 4 * (field - BUCKET_HEAD)))
         else Ret (-1, f))"

definition set_header_field :: "fdesc \<Rightarrow> int \<Rightarrow> u64 \<Rightarrow> (int \<times> fdesc) outcome" where
  "set_header_field f field v =
     (if fdno f = -1 then Ret (-1, f)
      else if field < 0 \<or> FIELD_HEADER_COUNT \<le> field then Ret (-1, f)
      else c_bind (set_header_switch (f\<lparr>o_append := False\<rparr>) field v)
             (\<lambda>(r, g). Ret (r, g\<lparr>o_append := o_append f\<rparr>)))"

text \<open>The field numbers of \<open>for(int bucket = a; bucket < b; bucket++)\<close>.\<close>

definition for_range :: "int \<Rightarrow> int \<Rightarrow> int list" where
  "for_range a b = [a..b - 1]"

text \<open>The three initialisation loops set one value in a range of fields, stopping on an error.\<close>

fun set_header_range :: "fdesc \<Rightarrow> int list \<Rightarrow> u64 \<Rightarrow> (int \<times> fdesc) outcome" where
  "set_header_range f [] v = Ret (0, f)"
| "set_header_range f (fld # flds) v =
     c_bind (set_header_field f fld v)
       (\<lambda>(r, g). if r \<noteq> 0 then Ret (-1, g) else set_header_range g flds v)"

definition initialize_snapshot :: "fdesc \<Rightarrow> int \<Rightarrow> int \<Rightarrow> (int \<times> fdesc) outcome" where
  "initialize_snapshot f magic now =
     c_bind (set_header_field f MAGIC (c_u64 magic)) (\<lambda>(r0, f).
     if r0 \<noteq> 0 then Ret (-1, f) else
     c_bind (set_header_field f VERSION VERSION_VALUE) (\<lambda>(r1, f).
     c_bind (set_header_field f SNAPSHOT_ID (c_u64 now)) (\<lambda>(r2, f).
     c_bind (set_header_field f STATE STATE_OPEN) (\<lambda>(r3, f).
     c_bind (set_header_field f ACTIVE_WRITERS 1) (\<lambda>(r4, f).
     c_bind (set_header_field f RECORD_COUNT 0) (\<lambda>(r5, f).
     c_bind (set_header_field f FIRST_ENTRY_POS HEADER_SIZE) (\<lambda>(r6, f).
     if r1 \<noteq> 0 \<or> r2 \<noteq> 0 \<or> r3 \<noteq> 0 \<or> r4 \<noteq> 0 \<or> r5 \<noteq> 0 \<or> r6 \<noteq> 0 then Ret (-1, f) else
     c_bind (set_header_range f (for_range BUCKET BUCKET_HEAD) 66) (\<lambda>(r, f).
     if r \<noteq> 0 then Ret (-1, f) else
     c_bind (set_header_range f (for_range BUCKET_HEAD BUCKET_TAIL) EMPTY_BUCKET) (\<lambda>(r, f).
     if r \<noteq> 0 then Ret (-1, f) else
     c_bind (set_header_range f (for_range BUCKET_TAIL FIELD_HEADER_COUNT) EMPTY_BUCKET) (\<lambda>(r, f).
     if r \<noteq> 0 then Ret (-1, f) else Ret (0, f)))))))))))"

section \<open>Which bytes a field is\<close>

definition hdr_off :: "int \<Rightarrow> nat" where
  "hdr_off i =
     (if i = 0 then 0 else if i = 1 then 4 else if i = 2 then 8 else if i = 3 then 12
      else if i = 4 then 13 else if i = 5 then 17 else if i = 6 then 21
      else if i < 263 then nat (18 + i) else nat (4 * i - 771))"

definition hdr_width :: "int \<Rightarrow> nat" where
  "hdr_width i = (if i = 3 \<or> (7 \<le> i \<and> i < 263) then 1 else 4)"

definition hdr_valid :: "int \<Rightarrow> bool" where
  "hdr_valid i \<longleftrightarrow> 0 \<le> i \<and> i < 775"

lemma hdr_width_pos: "0 < hdr_width i"
  by (simp add: hdr_width_def)

lemma hdr_in_header: "hdr_valid i \<Longrightarrow> hdr_off i + hdr_width i \<le> 2329"
  by (auto simp: hdr_valid_def hdr_off_def hdr_width_def)

lemma hdr_disjoint:
  assumes "hdr_valid i" "hdr_valid j" "i < j"
  shows "hdr_off i + hdr_width i \<le> hdr_off j"
proof -
  consider "j < 7" | "i < 7" "7 \<le> j" | "7 \<le> i" "i < 263" "j < 263" | "7 \<le> i" "i < 263" "263 \<le> j"
    | "263 \<le> i"
    using assms(3) by linarith
  then show ?thesis
  proof cases
    case 1
    then have "i \<in> {0..<7}" "j \<in> {0..<7}"
      using assms by (auto simp: hdr_valid_def)
    then show ?thesis
      using assms(3) by (auto simp: hdr_off_def hdr_width_def)
  next
    case 2
    then have "hdr_off i + hdr_width i \<le> 25"
      using assms(1) by (auto simp: hdr_valid_def hdr_off_def hdr_width_def)
    with 2 show ?thesis
      by (auto simp: hdr_off_def)
  qed (use assms(3) in \<open>auto simp: hdr_off_def hdr_width_def\<close>)
qed

lemma hdr_head: "0 \<le> b \<Longrightarrow> b < 256 \<Longrightarrow> hdr_off (263 + b) = nat (281 + 4 * b) \<and> hdr_width (263 + b) = 4"
  by (auto simp: hdr_off_def hdr_width_def)

lemma hdr_tail: "0 \<le> b \<Longrightarrow> b < 256 \<Longrightarrow> hdr_off (519 + b) = nat (1305 + 4 * b) \<and> hdr_width (519 + b) = 4"
  by (auto simp: hdr_off_def hdr_width_def)

text \<open>The value of a header field as a byte range of the file.\<close>

definition hdr_val :: "byte list \<Rightarrow> int \<Rightarrow> nat" where
  "hdr_val bs i = le_nat (fslice bs (hdr_off i) (hdr_width i))"

lemma get_header_field_eq:
  assumes "fdno f \<noteq> -1" and "hdr_valid i" and "i \<noteq> MAGIC" and "2329 \<le> length (bytes f)"
  shows "get_header_field f i = int (hdr_val (bytes f) i)"
proof -
  have "get_header_field f i = hdr_read f (int (hdr_width i)) (int (hdr_off i))"
    using assms(1-3)
    by (auto simp: get_header_field_def hdr_off_def hdr_width_def hdr_valid_def)
  moreover have "hdr_off i + hdr_width i \<le> length (bytes f)"
    using hdr_in_header [OF assms(2)] assms(4) by simp
  ultimately show ?thesis
    by (simp add: hdr_read_def pread_in hdr_val_def length_fslice)
qed

lemma hdr_write_ok:
  assumes "\<not> o_append f" and "off + length bs \<le> file_limit f" and "bs \<noteq> []"
  shows "hdr_write f bs (int off) = (0, f\<lparr>bytes := write_at off bs (bytes f)\<rparr>)"
  using pwrite_ok [of f "int off" bs] assms by (simp add: hdr_write_def)

definition hdr_storable :: "int \<Rightarrow> u64 \<Rightarrow> bool" where
  "hdr_storable i v \<longleftrightarrow>
     (i = MAGIC \<longrightarrow> v = 0 \<or> v = 1) \<and>
     (i = STATE \<longrightarrow> (ucast v :: byte) = STATE_OPEN \<or> (ucast v :: byte) = STATE_SEALED)"

definition hdr_enc :: "int \<Rightarrow> u64 \<Rightarrow> byte list" where
  "hdr_enc i v =
     (if i = MAGIC then (if v = 0 then bytes_of ''IDX1'' else bytes_of ''PRC1'')
      else le_bytes (hdr_width i) (unat v))"

lemma length_hdr_enc: "length (hdr_enc i v) = hdr_width i"
  by (simp add: hdr_enc_def hdr_width_def bytes_of_def)

lemma set_header_switch_ok:
  assumes "hdr_valid i" and "hdr_storable i v"
  shows "set_header_switch f i v = Ret (hdr_write f (hdr_enc i v) (int (hdr_off i)))"
proof -
  consider "i = 0" | "i = 3" | "i = 1 \<or> i = 2 \<or> i = 4 \<or> i = 5 \<or> i = 6"
    | "7 \<le> i" "i < 263" | "263 \<le> i" "i < 775"
    using assms(1) unfolding hdr_valid_def by linarith
  then show ?thesis
  proof cases
    case 1
    then show ?thesis
      using assms(2) by (auto simp: set_header_switch_def hdr_storable_def hdr_enc_def hdr_off_def)
  next
    case 2
    with assms(2) consider "(ucast v :: byte) = 79" | "(ucast v :: byte) = 83"
      by (auto simp: hdr_storable_def)
    then show ?thesis
      by cases
        (use 2 in \<open>simp_all add: set_header_switch_def hdr_enc_def hdr_off_def hdr_width_def le_bytes_u8\<close>)
  next
    case 3
    then show ?thesis
      by (elim disjE)
        (simp_all add: set_header_switch_def hdr_enc_def hdr_off_def hdr_width_def le_bytes_ucast32)
  next
    case 4
    then show ?thesis
      by (simp add: set_header_switch_def hdr_enc_def hdr_off_def hdr_width_def le_bytes_u8)
  next
    case 5
    then have "281 + 4 * (i - 263) = int (nat (4 * i - 771))"
      by simp
    with 5 show ?thesis
      by (simp add: set_header_switch_def hdr_enc_def hdr_off_def hdr_width_def le_bytes_ucast32)
  qed
qed
lemma set_header_field_ok:
  assumes "fdno f \<noteq> -1" and "hdr_valid i" and "hdr_storable i v"
    and "hdr_off i + hdr_width i \<le> file_limit f"
  shows "set_header_field f i v =
    Ret (0, f\<lparr>bytes := write_at (hdr_off i) (hdr_enc i v) (bytes f)\<rparr>)"
proof -
  have ne: "hdr_enc i v \<noteq> []"
    using hdr_width_pos [of i] length_hdr_enc [of i v] by auto
  have "hdr_write (f\<lparr>o_append := False\<rparr>) (hdr_enc i v) (int (hdr_off i)) =
      (0, f\<lparr>o_append := False, bytes := write_at (hdr_off i) (hdr_enc i v) (bytes f)\<rparr>)"
    using assms(4) by (subst hdr_write_ok) (simp_all add: length_hdr_enc ne)
  then show ?thesis
    using assms(1-3) by (simp add: set_header_field_def set_header_switch_ok hdr_valid_def)
qed

section \<open>Updating one field\<close>

text \<open>
  Two different fields never overlap, so an update is visible in its own field and in no
  other byte of the file.
\<close>

lemma hdr_val_write_other:
  assumes "hdr_valid i" "hdr_valid j" "i \<noteq> j" "2329 \<le> length bs" "length ys = hdr_width i"
  shows "fslice (write_at (hdr_off i) ys bs) (hdr_off j) (hdr_width j) =
         fslice bs (hdr_off j) (hdr_width j)"
proof (cases "i < j")
  case True
  with assms hdr_disjoint [of i j] hdr_in_header [of i] show ?thesis
    by (intro fslice_write_at_after) auto
next
  case False
  with assms have "hdr_off j + hdr_width j \<le> hdr_off i"
    using hdr_disjoint [of j i] by simp
  moreover have "hdr_off i \<le> length bs"
    using hdr_in_header [of i] assms(1,4) by simp
  ultimately show ?thesis
    by (rule fslice_write_at_before [rotated])
qed

lemma hdr_val_write_same:
  assumes "hdr_valid i" "2329 \<le> length bs" "length ys = hdr_width i"
  shows "fslice (write_at (hdr_off i) ys bs) (hdr_off i) (hdr_width i) = ys"
  using assms hdr_in_header [of i] by (intro fslice_write_at_same) auto

lemma hdr_magic_cong:
  assumes "fslice (bytes f) 0 4 = fslice (bytes g) 0 4"
  shows "hdr_read_magic f = hdr_read_magic g"
  using assms by (simp add: hdr_read_magic_def pread_def)

lemma get_header_field_cong:
  assumes "fdno f = fdno g" "hdr_valid i" "2329 \<le> length (bytes f)" "2329 \<le> length (bytes g)"
    and "fslice (bytes f) (hdr_off i) (hdr_width i) = fslice (bytes g) (hdr_off i) (hdr_width i)"
  shows "get_header_field f i = get_header_field g i"
proof (cases "i = MAGIC \<or> fdno f = -1")
  case True
  then show ?thesis
    using assms hdr_magic_cong [of f g]
    by (auto simp: get_header_field_def hdr_off_def hdr_width_def)
next
  case False
  with assms show ?thesis
    by (simp add: get_header_field_eq hdr_val_def)
qed

definition hdr_stored :: "int \<Rightarrow> u64 \<Rightarrow> int" where
  "hdr_stored i v = (if i = MAGIC then int (unat v) else int (unat v mod 256 ^ hdr_width i))"

lemma get_header_field_enc:
  assumes "fdno f \<noteq> -1" "hdr_valid i" "hdr_storable i v" "2329 \<le> length (bytes f)"
    and "fslice (bytes f) (hdr_off i) (hdr_width i) = hdr_enc i v"
  shows "get_header_field f i = hdr_stored i v"
proof (cases "i = MAGIC")
  case True
  moreover have "fslice (bytes f) 0 4 = hdr_enc 0 v"
    using assms(5) True by (simp add: hdr_off_def hdr_width_def)
  ultimately show ?thesis
    using assms(1,3,4)
    by (auto simp: get_header_field_def hdr_read_magic_def pread_def hdr_enc_def hdr_storable_def
        hdr_stored_def bytes_of_def c_str_def)
next
  case False
  then show ?thesis
    using assms by (simp add: get_header_field_eq hdr_val_def hdr_enc_def hdr_stored_def le_nat_le_bytes)
qed

section \<open>Initialising the header\<close>

fun contiguous :: "nat \<Rightarrow> int list \<Rightarrow> bool" where
  "contiguous p [] = True"
| "contiguous p (i # is) = (hdr_off i = p \<and> contiguous (p + hdr_width i) is)"

lemma contiguous_upto:
  assumes "\<And>i. a \<le> i \<Longrightarrow> i < b \<Longrightarrow> hdr_off i + hdr_width i = hdr_off (i + 1)"
  shows "contiguous (hdr_off a) [a..b]"
  using assms
proof (induction a b rule: upto.induct)
  case (1 a b)
  show ?case
  proof (cases "a \<le> b")
    case True
    have "contiguous (hdr_off (a + 1)) [a + 1..b]"
      using 1 True by auto
    moreover have "a < b \<Longrightarrow> hdr_off a + hdr_width a = hdr_off (a + 1)"
      using 1(2) by simp
    ultimately show ?thesis
      using True by (cases "a = b") (auto simp: upto_rec1)
  qed simp
qed

lemma set_header_range_ok:
  assumes "fdno f \<noteq> -1" "2329 \<le> file_limit f" "contiguous (length (bytes f)) is"
    and "\<And>i. i \<in> set is \<Longrightarrow> hdr_valid i \<and> i \<noteq> MAGIC \<and> i \<noteq> STATE \<and> hdr_enc i v = e"
  shows "set_header_range f is v =
    Ret (0, f\<lparr>bytes := bytes f @ concat (replicate (length is) e)\<rparr>)"
  using assms
proof (induction "is" arbitrary: f)
  case Nil
  then show ?case by simp
next
  case (Cons i "is")
  let ?g = "f\<lparr>bytes := bytes f @ e\<rparr>"
  have i: "hdr_valid i" "hdr_storable i v" "hdr_enc i v = e" "hdr_off i = length (bytes f)"
    using Cons.prems(3) Cons.prems(4) [of i] by (auto simp: hdr_storable_def)
  have "set_header_field f i v = Ret (0, ?g)"
    using set_header_field_ok [OF Cons.prems(1) i(1,2)] hdr_in_header [OF i(1)] Cons.prems(2) i(3,4)
    by (simp add: write_at_end)
  moreover have "length e = hdr_width i"
    using length_hdr_enc [of i v] i(3) by simp
  then have "set_header_range ?g is v =
      Ret (0, ?g\<lparr>bytes := bytes ?g @ concat (replicate (length is) e)\<rparr>)"
    using Cons.prems by (intro Cons.IH) (auto simp: i(4))
  ultimately show ?case by simp
qed

lemma contiguous_for_range:
  assumes "\<And>i. a \<le> i \<Longrightarrow> i < b - 1 \<Longrightarrow> hdr_off i + hdr_width i = hdr_off (i + 1)"
  shows "contiguous (hdr_off a) (for_range a b)"
  unfolding for_range_def using assms by (rule contiguous_upto)

lemma set_for_range: "set (for_range a b) = {a..<b}"
  by (auto simp: for_range_def)

lemma length_for_range: "length (for_range a b) = nat (b - a)"
  by (simp add: for_range_def)

definition init_header :: "u64 \<Rightarrow> u64 \<Rightarrow> byte list" where
  "init_header magic now =
     hdr_enc MAGIC magic @ le_bytes 4 100 @ le_bytes 4 (unat now) @ [79] @ le_bytes 4 1 @
     le_bytes 4 0 @ le_bytes 4 2329 @ replicate 256 66 @
     concat (replicate 256 (le_bytes 4 EMPTY_BUCKET)) @ concat (replicate 256 (le_bytes 4 EMPTY_BUCKET))"

lemma set_header_next:
  assumes "fdno f \<noteq> -1" "hdr_valid i" "hdr_storable i v" "2329 \<le> file_limit f"
    and "hdr_off i = length (bytes f)"
  shows "set_header_field f i v = Ret (0, f\<lparr>bytes := bytes f @ hdr_enc i v\<rparr>)"
  using set_header_field_ok [OF assms(1-3)] hdr_in_header [OF assms(2)] assms(4,5)
  by (simp add: write_at_end)

lemma set_header_ranges:
  assumes "fdno f \<noteq> -1" "2329 \<le> file_limit f"
  shows "length (bytes f) = 25 \<Longrightarrow> set_header_range f (for_range 7 263) 66 =
      Ret (0, f\<lparr>bytes := bytes f @ replicate 256 66\<rparr>)"
    and "length (bytes f) = 281 \<Longrightarrow> set_header_range f (for_range 263 519) EMPTY_BUCKET =
      Ret (0, f\<lparr>bytes := bytes f @ concat (replicate 256 (le_bytes 4 EMPTY_BUCKET))\<rparr>)"
    and "length (bytes f) = 1305 \<Longrightarrow> set_header_range f (for_range 519 775) EMPTY_BUCKET =
      Ret (0, f\<lparr>bytes := bytes f @ concat (replicate 256 (le_bytes 4 EMPTY_BUCKET))\<rparr>)"
proof -
  have "contiguous (hdr_off 7) (for_range 7 263)" "contiguous (hdr_off 263) (for_range 263 519)"
    "contiguous (hdr_off 519) (for_range 519 775)"
    by (rule contiguous_for_range; simp add: hdr_off_def hdr_width_def)+
  then have c: "contiguous 25 (for_range 7 263)" "contiguous 281 (for_range 263 519)"
    "contiguous 1305 (for_range 519 775)"
    by (simp_all add: hdr_off_def)
  note range_ok = set_header_range_ok [OF assms] and simps = set_for_range length_for_range
    hdr_valid_def hdr_enc_def hdr_width_def le_bytes_u8
  show "set_header_range f (for_range 7 263) 66 =
      Ret (0, f\<lparr>bytes := bytes f @ replicate 256 66\<rparr>)" if "length (bytes f) = 25"
    using range_ok [of "for_range 7 263" 66 "[66]"] c(1) that by (simp add: simps)
  show "set_header_range f (for_range 263 519) EMPTY_BUCKET =
      Ret (0, f\<lparr>bytes := bytes f @ concat (replicate 256 (le_bytes 4 EMPTY_BUCKET))\<rparr>)"
    if "length (bytes f) = 281"
    using range_ok [of "for_range 263 519" EMPTY_BUCKET "le_bytes 4 EMPTY_BUCKET"] c(2) that
    by (simp add: simps)
  show "set_header_range f (for_range 519 775) EMPTY_BUCKET =
      Ret (0, f\<lparr>bytes := bytes f @ concat (replicate 256 (le_bytes 4 EMPTY_BUCKET))\<rparr>)"
    if "length (bytes f) = 1305"
    using range_ok [of "for_range 519 775" EMPTY_BUCKET "le_bytes 4 EMPTY_BUCKET"] c(3) that
    by (simp add: simps)
qed

lemma initialize_snapshot_ok:
  assumes "fdno f \<noteq> -1" "bytes f = []" "2329 \<le> file_limit f" "magic = 0 \<or> magic = 1"
  shows "initialize_snapshot f magic now =
    Ret (0, f\<lparr>bytes := init_header (c_u64 magic) (c_u64 now)\<rparr>)"
proof -
  have m: "hdr_storable 0 (c_u64 magic)"
    using assms(4) by (auto simp: hdr_storable_def c_u64_def)
  have v: "hdr_valid 0" "hdr_valid 1" "hdr_valid 2" "hdr_valid 3" "hdr_valid 4" "hdr_valid 5" "hdr_valid 6"
    by (simp_all add: hdr_valid_def)
  have st: "hdr_storable 1 w" "hdr_storable 2 w" "hdr_storable 3 79" "hdr_storable 4 w" "hdr_storable 5 w" "hdr_storable 6 w" for w
    by (simp_all add: hdr_storable_def)
  have e: "hdr_enc 1 100 = le_bytes 4 100" "hdr_enc 2 w = le_bytes 4 (unat w)" "hdr_enc 3 79 = [79]"
    "hdr_enc 4 1 = le_bytes 4 1" "hdr_enc 5 0 = le_bytes 4 0" "hdr_enc 6 2329 = le_bytes 4 2329" for w
    by (simp_all add: hdr_enc_def hdr_width_def)
  have o: "hdr_off 0 = 0" "hdr_off 1 = 4" "hdr_off 2 = 8" "hdr_off 3 = 12" "hdr_off 4 = 13" "hdr_off 5 = 17"
     "hdr_off 6 = 21" "length (hdr_enc 0 w) = 4" for w
    by (simp_all add: hdr_off_def length_hdr_enc hdr_width_def)
  show ?thesis
    unfolding initialize_snapshot_def
    by (simp add: set_header_next set_header_ranges assms(1-3) m v st e o init_header_def)
qed
text \<open>The value each field holds in a fresh header.\<close>

definition init_field :: "u64 \<Rightarrow> u64 \<Rightarrow> int \<Rightarrow> u64" where
  "init_field magic now i =
     (if i = MAGIC then magic else if i = VERSION then 100 else if i = SNAPSHOT_ID then now
      else if i = STATE then STATE_OPEN else if i = ACTIVE_WRITERS then 1
      else if i = RECORD_COUNT then 0 else if i = FIRST_ENTRY_POS then HEADER_SIZE
      else if i < BUCKET_HEAD then 66 else EMPTY_BUCKET)"

lemma length_init_header: "length (init_header m n) = 2329"
  by (simp add: init_header_def length_hdr_enc hdr_width_def)

lemma init_header_field:
  assumes "hdr_valid i"
  shows "fslice (init_header m n) (hdr_off i) (hdr_width i) = hdr_enc i (init_field m n i)"
proof -
  have l: "length (hdr_enc 0 m) = 4"
    by (simp add: length_hdr_enc hdr_width_def)
  have e: "j \<noteq> 0 \<Longrightarrow> hdr_enc j v = le_bytes (hdr_width j) (unat v)" for j v
    by (simp add: hdr_enc_def)
  note simps = init_header_def init_field_def hdr_off_def hdr_width_def e le_bytes_u8 slice_simps l
  consider "i \<in> {0,1,2,3,4,5,6}" | "7 \<le> i" "i < 263" | "263 \<le> i" "i < 519" | "519 \<le> i" "i < 775"
    using assms unfolding hdr_valid_def by (simp add: hdr_valid_def) arith
  then show ?thesis
  proof cases
    case 1
    then show ?thesis
      by (elim insertE emptyE) (simp_all add: simps)
  next
    case 2
    then have "nat (18 + i) - 25 + 1 \<le> 256"
      by simp
    with 2 show ?thesis
      by (simp add: simps)
  next
    case 3
    then have k: "nat (4 * i - 771) - 281 = nat (i - 263) * 4" "nat (i - 263) < 256"
      by auto
    have "fslice (concat (replicate 256 (le_bytes 4 EMPTY_BUCKET))) (nat (i - 263) * 4) 4 = le_bytes 4 EMPTY_BUCKET"
      using fslice_concat_replicate [OF k(2), of "le_bytes 4 EMPTY_BUCKET"] by simp
    with 3 k show ?thesis
      by (simp add: simps)
  next
    case 4
    then have k: "nat (4 * i - 771) - 1305 = nat (i - 519) * 4" "nat (i - 519) < 256"
      by auto
    have "fslice (concat (replicate 256 (le_bytes 4 EMPTY_BUCKET))) (nat (i - 519) * 4) 4 = le_bytes 4 EMPTY_BUCKET"
      using fslice_concat_replicate [OF k(2), of "le_bytes 4 EMPTY_BUCKET"] by simp
    with 4 k show ?thesis
      by (simp add: simps)
  qed
qed

section \<open>Setting one field\<close>

lemma set_header_field_facts:
  assumes "fdno f \<noteq> -1" "2329 \<le> length (bytes f)" "2329 \<le> file_limit f"
    and "hdr_valid i" "hdr_storable i v"
  shows "\<exists>g. set_header_field f i v = Ret (0, g) \<and>
    get_header_field g i = hdr_stored i v \<and>
    (\<forall>j. hdr_valid j \<and> j \<noteq> i \<longrightarrow> get_header_field g j = get_header_field f j) \<and>
    drop 2329 (bytes g) = drop 2329 (bytes f) \<and> length (bytes g) = length (bytes f) \<and>
    g = f\<lparr>bytes := bytes g\<rparr>"
proof (intro exI conjI)
  let ?g = "f\<lparr>bytes := write_at (hdr_off i) (hdr_enc i v) (bytes f)\<rparr>"
  note le = hdr_in_header [OF assms(4)] and len = length_hdr_enc [of i v]
  have l: "length (bytes ?g) = length (bytes f)"
    using le assms(2) by (simp add: length_write_at_in len)
  show "set_header_field f i v = Ret (0, ?g)"
    using set_header_field_ok [OF assms(1,4,5)] le assms(3) by simp
  show "get_header_field ?g i = hdr_stored i v"
    using assms by (intro get_header_field_enc) (simp_all add: hdr_val_write_same len l [simplified])
  show "\<forall>j. hdr_valid j \<and> j \<noteq> i \<longrightarrow> get_header_field ?g j = get_header_field f j"
    using assms by (intro allI impI get_header_field_cong)
      (auto simp: hdr_val_write_other len l [simplified])
  show "drop 2329 (bytes ?g) = drop 2329 (bytes f)"
    using le assms(2) len by (simp add: write_at_def drop_drop)
  show "length (bytes ?g) = length (bytes f)" by (rule l)
qed simp_all

lemma header_prefix:
  assumes "take n (bytes g) = take n (bytes f)" "2329 \<le> length (bytes g)" "2329 \<le> length (bytes f)"
    and "fdno g = fdno f" "hdr_valid i" "hdr_off i + hdr_width i \<le> n"
  shows "get_header_field g i = get_header_field f i"
proof -
  have "fslice (take n d) (hdr_off i) (hdr_width i) = fslice d (hdr_off i) (hdr_width i)" for d :: "byte list"
    using assms(6) by (simp add: fslice_def drop_take min_def)
  then have "fslice (bytes g) (hdr_off i) (hdr_width i) = fslice (bytes f) (hdr_off i) (hdr_width i)"
    using assms(1) by metis
  then show ?thesis
    using get_header_field_cong [OF assms(4,5,2,3)] by blast
qed

lemma init_header_get:
  assumes "fdno f \<noteq> -1" "bytes f = init_header m now" "m = 0 \<or> m = 1" "hdr_valid i"
  shows "get_header_field f i = hdr_stored i (init_field m now i)"
proof -
  have "hdr_storable i (init_field m now i)"
    using assms(3) by (auto simp: hdr_storable_def init_field_def)
  then show ?thesis
    using get_header_field_enc [OF assms(1,4)] assms(2) init_header_field [OF assms(4), of m now]
    by (simp add: length_init_header)
qed

section \<open>Properties\<close>

text \<open>
  C29. Setting a header field and reading it back gives the stored value (the low bytes that
  fit the field); every other header field, all bytes behind the header, the length of the
  file and everything else of the descriptor are unchanged.
\<close>

theorem set_header_field_correct:
  assumes "fdno f \<noteq> -1" "2329 \<le> length (bytes f)" "2329 \<le> file_limit f"
    and "hdr_valid i" "hdr_storable i v"
  shows "\<exists>g. set_header_field f i v = Ret (0, g) \<and>
    get_header_field g i = hdr_stored i v \<and>
    (\<forall>j. hdr_valid j \<and> j \<noteq> i \<longrightarrow> get_header_field g j = get_header_field f j) \<and>
    drop 2329 (bytes g) = drop 2329 (bytes f) \<and> length (bytes g) = length (bytes f) \<and>
    g = f\<lparr>bytes := bytes g\<rparr>"
  using set_header_field_facts [OF assms] .

theorem set_header_field_correct_witness:
  "\<exists>g. set_header_field (demo_fd (init_header 0 7)) RECORD_COUNT 5 = Ret (0, g) \<and>
    get_header_field g RECORD_COUNT = 5"
proof -
  have v: "hdr_valid 5" "hdr_storable 5 5" "hdr_stored 5 5 = 5"
    by (simp_all add: hdr_valid_def hdr_storable_def hdr_stored_def hdr_width_def)
  show ?thesis
    using set_header_field_correct [of "demo_fd (init_header 0 7)" 5 5] v
    by (auto simp: length_init_header)
qed

text \<open>
  C31. \<open>initialize_snapshot\<close> on an empty file succeeds and leaves a file of exactly
  \<open>HEADER_SIZE\<close> bytes whose fields hold the format's initial values: the magic, version
  100, the given time as id, state open, one active writer, no record, and empty buckets.
\<close>

theorem initialize_snapshot_correct:
  assumes "fdno f \<noteq> -1" "bytes f = []" "2329 \<le> file_limit f" "magic = 0 \<or> magic = 1"
  shows "\<exists>g. initialize_snapshot f magic now = Ret (0, g) \<and>
    length (bytes g) = HEADER_SIZE \<and> o_append g = o_append f \<and>
    (\<forall>i. hdr_valid i \<longrightarrow>
           get_header_field g i = hdr_stored i (init_field (c_u64 magic) (c_u64 now) i))"
proof (intro exI conjI)
  let ?m = "c_u64 magic" and ?n = "c_u64 now"
  let ?g = "f\<lparr>bytes := init_header ?m ?n\<rparr>"
  show "initialize_snapshot f magic now = Ret (0, ?g)"
    by (rule initialize_snapshot_ok [OF assms])
  have "hdr_storable i (init_field ?m ?n i)" for i
    using assms(4) by (auto simp: hdr_storable_def init_field_def c_u64_def)
  then show "\<forall>i. hdr_valid i \<longrightarrow> get_header_field ?g i = hdr_stored i (init_field ?m ?n i)"
    using assms(1)
    by (intro allI impI get_header_field_enc) (simp_all add: length_init_header init_header_field)
qed (simp_all add: length_init_header)

theorem initialize_snapshot_correct_witness:
  "\<exists>g. initialize_snapshot (demo_fd []) PROC_MAGIC_ID 1700000000 = Ret (0, g) \<and>
    length (bytes g) = HEADER_SIZE \<and> get_header_field g STATE = STATE_OPEN \<and>
    get_header_field g ACTIVE_WRITERS = 1"
proof -
  obtain g where g: "initialize_snapshot (demo_fd []) 1 1700000000 = Ret (0, g)"
      "length (bytes g) = HEADER_SIZE"
      "\<And>i. hdr_valid i \<Longrightarrow>
           get_header_field g i = hdr_stored i (init_field (c_u64 1) (c_u64 1700000000) i)"
    using initialize_snapshot_correct [of "demo_fd []" 1 1700000000] by auto
  have "get_header_field g 3 = 79" "get_header_field g 4 = 1"
    using g(3) [of 3] g(3) [of 4]
    by (simp_all add: hdr_valid_def hdr_stored_def init_field_def hdr_width_def)
  with g(1,2) show ?thesis by auto
qed

text \<open>
  Given a magic that is neither of the two known ones, \<open>set_header_field\<close> writes
  through an uninitialised pointer: the error branch of the switch does not leave the case.
\<close>

theorem set_header_field_bad_magic:
  assumes "fdno f \<noteq> -1" "v \<noteq> 0" "v \<noteq> 1"
  shows "set_header_field f MAGIC v = UB"
  using assms by (simp add: set_header_field_def set_header_switch_def Let_def)

theorem set_header_field_bad_magic_witness:
  "set_header_field (demo_fd []) MAGIC 2 = UB"
  by (rule set_header_field_bad_magic) simp_all

end
