(* ===== verification/Db_Store.thy ===== *)
theory Db_Store
  imports Db_Header
begin

text \<open>
  The record store of a snapshot database, from \<open>src/db_utils.c\<close>: \<open>next_entry\<close> walks
  the records in file order or along a bucket chain, \<open>write_to_db\<close> appends a record and
  links it into its bucket. \<open>dup_scan\<close> and \<open>append_locked\<close> are the chain loop and the
  critical section the two append functions share.
  \<open>layout\<close> says when a file is the image of a list of records; the lemmas show that
  the walk follows the chains and that \<open>write_to_db\<close> appends one record to the list.
\<close>

section \<open>The code\<close>

text \<open>
  \<open>entry_size\<close> is initialised to 0; \<open>next_entry_bucket_pos\<close> is not, so it starts with
  indeterminate bytes. An offset below 0 makes \<open>pread\<close> fail.
\<close>

definition next_entry :: "fdesc \<Rightarrow> u32 \<Rightarrow> int \<Rightarrow> u32" where
  "next_entry f entry_offset next_is_regular =
     (let offset = HEADER_SIZE + entry_offset;
          (bytes_read, entry_size) = pread_u32 f (uint offset) 0
      in if MAX_ENTRY_SIZE < entry_size then 1
         else if bytes_read = 0 then 0
         else if bytes_read \<noteq> 4 then 1
         else if next_is_regular = NEXT_IS_REGULAR then entry_size + entry_offset
         else if next_is_regular = NEXT_IS_BUCKET then
           (let (bytes_read, next_entry_bucket_pos) =
                  pread_u32 f (uint (offset + entry_size) - 4) (stack_junk f)
            in if next_entry_bucket_pos = 0 then 0
               else if bytes_read \<noteq> 4 then 1
               else next_entry_bucket_pos - HEADER_SIZE)
         else 1)"

text \<open>
  The last part of \<open>write_to_db\<close>: link the previous tail of the bucket to the new
  entry. Its two early returns leave \<open>O_APPEND\<close> switched off.
\<close>

definition link_previous :: "fdesc \<Rightarrow> int \<Rightarrow> int \<Rightarrow> int \<times> fdesc" where
  "link_previous f bucket_tail next_entry_pos =
     (let g = f\<lparr>o_append := False\<rparr>;
          (n, tail_size) = pread_u32 g bucket_tail (stack_junk f)
      in if n \<noteq> 4 then (-1, g)
         else let next_pos = c_u32 (bucket_tail + uint tail_size - 4);
                  (m, h) = pwrite g (le_bytes 4 (unat (c_u32 next_entry_pos))) (uint next_pos)
              in if m \<noteq> 4 then (-1, h) else (0, h\<lparr>o_append := o_append f\<rparr>))"

text \<open>
  \<open>write_to_db\<close>. The C function has no final \<open>return\<close>; no caller uses its result on
  that path, which is modelled as 0.
\<close>

definition write_to_db :: "fdesc \<Rightarrow> byte list \<Rightarrow> u32 \<Rightarrow> int \<Rightarrow> (int \<times> fdesc) outcome" where
  "write_to_db f buffer entry_size entry_bucket =
     (let (n, f) = write_fd f (take (unat entry_size) buffer) in
      if n \<noteq> uint entry_size then Ret (-1, f) else
      let next_entry_pos = lseek_cur f - uint entry_size;
          bucket_head = get_header_field f (BUCKET_HEAD + entry_bucket) in
      if bucket_head = -1 then Ret (-1, f) else
      c_bind (if bucket_head = EMPTY_BUCKET
              then set_header_field f (BUCKET_HEAD + entry_bucket) (c_u64 next_entry_pos)
              else Ret (0, f)) (\<lambda>(r, f).
      if r = -1 then Ret (-1, f) else
      let bucket_tail = get_header_field f (BUCKET_TAIL + entry_bucket) in
      if bucket_tail = -1 then Ret (-1, f) else
      c_bind (set_header_field f (BUCKET_TAIL + entry_bucket) (c_u64 next_entry_pos)) (\<lambda>(r, f).
      if r = -1 then Ret (-1, f)
      else if bucket_tail \<noteq> EMPTY_BUCKET then Ret (link_previous f bucket_tail next_entry_pos)
      else Ret (0, f))))"

text \<open>
  The duplicate search both append functions run over a bucket chain: -1 on an error, 1
  when an entry with the same key is found, 0 at the end of the chain. On a cyclic chain
  the loop of the code never ends.
\<close>

partial_function (option) dup_scan :: "(u32 \<Rightarrow> int) \<Rightarrow> (u32 \<Rightarrow> u32) \<Rightarrow> u32 \<Rightarrow> int option" where
  "dup_scan cmp nxt off =
     (if cmp off = -1 then Some (-1)
      else if cmp off = 0 then Some 1
      else if nxt off = 1 then Some (-1)
      else if nxt off \<noteq> 0 then dup_scan cmp nxt (nxt off)
      else Some 0)"

text \<open>
  The critical section both append functions share: lock the bucket, search its chain for
  the key, append when it is absent. An error return keeps the lock of the bucket.
\<close>

definition append_locked ::
  "fdesc \<Rightarrow> int \<Rightarrow> (u32 \<Rightarrow> int) \<Rightarrow> byte list \<Rightarrow> u32 \<Rightarrow> (int \<times> fdesc) outcome" where
  "append_locked f entry_bucket cmp buffer entry_size =
     (if \<not> setlkw_ok f then Ret (-1, f) else
      let entry_offset = get_header_field f (BUCKET_HEAD + entry_bucket) in
      if entry_offset = -1 then Ret (-1, f) else
      c_bind (if entry_offset = EMPTY_BUCKET then Ret 0
              else of_option (dup_scan cmp (\<lambda>off. next_entry f off NEXT_IS_BUCKET)
                                (c_u32 (entry_offset - HEADER_SIZE)))) (\<lambda>found_duplicate.
      if found_duplicate = -1 then Ret (-1, f) else
      c_bind (if found_duplicate = 0 then write_to_db f buffer entry_size entry_bucket
              else Ret (0, f)) (\<lambda>(_, f).
      Ret (found_duplicate, f))))"

section \<open>Records and their place in the file\<close>

text \<open>
  A record is its bucket and its bytes without the trailing link; \<open>rec_pos\<close> is where it
  starts, \<open>chain\<close> lists the indices of the records of a bucket in file order, and
  \<open>next_pos\<close> is the link value a record must hold.
\<close>

type_synonym raw = "nat \<times> byte list"

definition rec_len :: "raw \<Rightarrow> nat" where
  "rec_len r = length (snd r) + 4"

definition rec_pos :: "raw list \<Rightarrow> nat \<Rightarrow> nat" where
  "rec_pos rs i = HEADER_SIZE + sum_list (map rec_len (take i rs))"

definition chain :: "raw list \<Rightarrow> nat \<Rightarrow> nat list" where
  "chain rs b = filter (\<lambda>i. fst (rs ! i) = b) [0..<length rs]"

definition next_pos :: "raw list \<Rightarrow> nat \<Rightarrow> nat" where
  "next_pos rs i =
     (case filter (\<lambda>j. i < j) (chain rs (fst (rs ! i))) of [] \<Rightarrow> 0 | j # _ \<Rightarrow> rec_pos rs j)"

definition head_pos :: "raw list \<Rightarrow> nat \<Rightarrow> nat" where
  "head_pos rs b = (case chain rs b of [] \<Rightarrow> EMPTY_BUCKET | i # _ \<Rightarrow> rec_pos rs i)"

definition tail_pos :: "raw list \<Rightarrow> nat \<Rightarrow> nat" where
  "tail_pos rs b = (if chain rs b = [] then EMPTY_BUCKET else rec_pos rs (last (chain rs b)))"

definition raw_ok :: "raw \<Rightarrow> bool" where
  "raw_ok r \<longleftrightarrow> fst r < 256 \<and> 8 \<le> length (snd r) \<and> rec_len r \<le> 8192 \<and>
     fslice (snd r) 0 4 = le_bytes 4 (rec_len r)"

definition layout :: "byte list \<Rightarrow> raw list \<Rightarrow> bool" where
  "layout d rs \<longleftrightarrow>
     length d = rec_pos rs (length rs) \<and> length d < EMPTY_BUCKET \<and> list_all raw_ok rs \<and>
     (\<forall>i<length rs. fslice d (rec_pos rs i) (length (snd (rs ! i))) = snd (rs ! i)) \<and>
     (\<forall>i<length rs. le_nat (fslice d (rec_pos rs i + length (snd (rs ! i))) 4) = next_pos rs i) \<and>
     (\<forall>b<256. hdr_val d (263 + int b) = head_pos rs b) \<and>
     (\<forall>b<256. hdr_val d (519 + int b) = tail_pos rs b)"

section \<open>Layout lemmas\<close>

lemma rec_pos_Suc: "i < length rs \<Longrightarrow> rec_pos rs (Suc i) = rec_pos rs i + rec_len (rs ! i)"
  by (simp add: rec_pos_def take_Suc_conv_app_nth)

lemma rec_pos_mono: "i \<le> j \<Longrightarrow> rec_pos rs i \<le> rec_pos rs j"
proof (induction j)
  case (Suc j)
  then show ?case
    by (cases "i = Suc j"; cases "j < length rs") (auto simp: rec_pos_Suc, simp add: rec_pos_def)
qed simp

lemma rec_pos_ge: "HEADER_SIZE \<le> rec_pos rs i"
  by (simp add: rec_pos_def)

lemma rec_end_le:
  "i < length rs \<Longrightarrow> rec_pos rs i + length (snd (rs ! i)) + 4 \<le> rec_pos rs (length rs)"
  using rec_pos_mono [of "Suc i" "length rs" rs] by (simp add: rec_pos_Suc rec_len_def)

lemma rec_end_before:
  "i < j \<Longrightarrow> j \<le> length rs \<Longrightarrow> rec_pos rs i + length (snd (rs ! i)) + 4 \<le> rec_pos rs j"
  using rec_pos_mono [of "Suc i" j rs] by (simp add: rec_pos_Suc rec_len_def)

lemma rec_pos_snoc: "i \<le> length rs \<Longrightarrow> rec_pos (rs @ [r]) i = rec_pos rs i"
  by (simp add: rec_pos_def)

lemma rec_pos_snoc_end:
  "rec_pos (rs @ [r]) (Suc (length rs)) = rec_pos rs (length rs) + rec_len r"
  by (simp add: rec_pos_def)

lemma chain_snoc: "chain (rs @ [r]) b = chain rs b @ (if fst r = b then [length rs] else [])"
proof -
  have "filter (\<lambda>i. fst ((rs @ [r]) ! i) = b) [0..<length rs] = filter (\<lambda>i. fst (rs ! i) = b) [0..<length rs]"
    by (rule filter_cong) (auto simp: nth_append)
  then show ?thesis by (simp add: chain_def nth_append)
qed

lemma set_chain: "i \<in> set (chain rs b) \<longleftrightarrow> i < length rs \<and> fst (rs ! i) = b"
  by (auto simp: chain_def)

lemma sorted_chain: "sorted_wrt (<) (chain rs b)"
  by (simp add: chain_def sorted_wrt_filter strict_sorted_iff)

lemma next_pos_chain:
  assumes "chain rs b = xs @ i # ys"
  shows "next_pos rs i = (case ys of [] \<Rightarrow> 0 | j # _ \<Rightarrow> rec_pos rs j)"
proof -
  have "i \<in> set (chain rs b)"
    using assms by simp
  then have b: "fst (rs ! i) = b"
    by (simp add: set_chain)
  have "sorted_wrt (<) (xs @ i # ys)"
    using sorted_chain [of rs b] assms by simp
  then have "filter (\<lambda>j. i < j) xs = []" "filter (\<lambda>j. i < j) ys = ys"
    by (auto simp: sorted_wrt_append filter_empty_conv filter_id_conv)
  then have "filter (\<lambda>j. i < j) (chain rs b) = ys"
    using assms by simp
  then show ?thesis by (simp add: next_pos_def b)
qed

lemma next_pos_last:
  assumes "chain rs b \<noteq> []"
  shows "next_pos rs (last (chain rs b)) = 0"
  using next_pos_chain [of rs b "butlast (chain rs b)" "last (chain rs b)" "[]"] assms by simp

lemma next_pos_snoc_old:
  assumes "i < length rs"
  shows "next_pos (rs @ [r]) i =
    (if fst r = fst (rs ! i) \<and> i = last (chain rs (fst r)) then rec_pos rs (length rs)
     else next_pos rs i)"
proof -
  let ?b = "fst (rs ! i)"
  have i: "i \<in> set (chain rs ?b)"
    using assms by (simp add: set_chain)
  then obtain xs ys where c: "chain rs ?b = xs @ i # ys"
    by (meson split_list)
  have nth: "fst ((rs @ [r]) ! i) = ?b"
    using assms by (simp add: nth_append)
  have sub: "j \<in> set ys \<Longrightarrow> rec_pos (rs @ [r]) j = rec_pos rs j" for j
    using c set_chain [of j rs ?b] by (simp add: rec_pos_snoc)
  show ?thesis
  proof (cases "fst r = ?b")
    case True
    then have c': "chain (rs @ [r]) ?b = xs @ i # (ys @ [length rs])"
      by (simp add: chain_snoc c)
    have last: "i = last (chain rs ?b) \<longleftrightarrow> ys = []"
    proof
      assume l: "i = last (chain rs ?b)"
      show "ys = []"
      proof (rule ccontr)
        assume "ys \<noteq> []"
        then have "i \<in> set ys" using l c by simp
        then show False using sorted_chain [of rs ?b] c by (auto simp: sorted_wrt_append)
      qed
    qed (simp add: c)
    show ?thesis
      unfolding next_pos_chain [OF c'] next_pos_chain [OF c]
      using True last sub by (cases ys) (auto simp: rec_pos_snoc)
  next
    case False
    then have c': "chain (rs @ [r]) ?b = xs @ i # ys"
      by (simp add: chain_snoc c)
    show ?thesis
      unfolding next_pos_chain [OF c'] next_pos_chain [OF c]
      using False sub by (cases ys) (auto simp: rec_pos_snoc)
  qed
qed

lemma next_pos_snoc_new: "next_pos (rs @ [r]) (length rs) = 0"
  using next_pos_chain [of "rs @ [r]" "fst r" "chain rs (fst r)" "length rs" "[]"]
  by (simp add: chain_snoc)

lemma layoutD:
  assumes "layout d rs"
  shows "length d = rec_pos rs (length rs)" "length d < EMPTY_BUCKET" "2329 \<le> length d"
    and "i < length rs \<Longrightarrow> raw_ok (rs ! i)"
    and "i < length rs \<Longrightarrow> fslice d (rec_pos rs i) (length (snd (rs ! i))) = snd (rs ! i)"
    and "i < length rs \<Longrightarrow> le_nat (fslice d (rec_pos rs i + length (snd (rs ! i))) 4) = next_pos rs i"
    and "b < 256 \<Longrightarrow> hdr_val d (263 + int b) = head_pos rs b"
    and "b < 256 \<Longrightarrow> hdr_val d (519 + int b) = tail_pos rs b"
  using assms rec_pos_ge [of rs "length rs"] by (simp_all add: layout_def list_all_length)

lemma layout_entry_size:
  assumes "layout d rs" "i < length rs"
  shows "le_nat (fslice d (rec_pos rs i) 4) = rec_len (rs ! i)"
    and "rec_len (rs ! i) \<le> 8192" "12 \<le> rec_len (rs ! i)"
proof -
  note ok = layoutD(4) [OF assms, unfolded raw_ok_def]
  have "fslice d (rec_pos rs i + 0) 4 = fslice (snd (rs ! i)) 0 4"
    using ok layoutD(5) [OF assms] by (intro fslice_eq_sub) auto
  then show "le_nat (fslice d (rec_pos rs i) 4) = rec_len (rs ! i)"
    using ok by (simp add: le_nat_le_bytes_lt)
  show "rec_len (rs ! i) \<le> 8192" "12 \<le> rec_len (rs ! i)"
    using ok by (simp_all add: rec_len_def)
qed

definition rel_pos :: "raw list \<Rightarrow> nat \<Rightarrow> u32" where
  "rel_pos rs i = word_of_nat (rec_pos rs i - HEADER_SIZE)"

lemma rel_pos_abs:
  assumes "layout d rs" "i \<le> length rs"
  shows "unat (rel_pos rs i) = rec_pos rs i - 2329" "unat (2329 + rel_pos rs i) = rec_pos rs i"
    and "uint (2329 + rel_pos rs i) = int (rec_pos rs i)"
proof -
  have b: "rec_pos rs i < 4294967295"
    using layoutD(1,2) [OF assms(1)] rec_pos_mono [OF assms(2), of rs] by simp
  then show u: "unat (rel_pos rs i) = rec_pos rs i - 2329"
    by (simp add: rel_pos_def unat_of_nat)
  have "2329 + rel_pos rs i = word_of_nat (rec_pos rs i)"
    using rec_pos_ge [of rs i] by (simp add: rel_pos_def of_nat_diff)
  then show a: "unat (2329 + rel_pos rs i) = rec_pos rs i"
    using b by (simp add: unat_of_nat)
  then show "uint (2329 + rel_pos rs i) = int (rec_pos rs i)"
    by (simp add: uint_nat)
qed

lemma rel_pos_small:
  assumes "layout d rs" "0 < i" "i \<le> length rs"
  shows "rel_pos rs i \<noteq> 0" "rel_pos rs i \<noteq> 1"
proof -
  have "rec_pos rs 0 + 12 \<le> rec_pos rs i"
    using rec_end_before [of 0 i rs] assms(2,3) layoutD(4) [OF assms(1), of 0]
    by (cases "rs = []") (simp_all add: raw_ok_def)
  then have "12 \<le> unat (rel_pos rs i)"
    using rel_pos_abs(1) [OF assms(1,3)] rec_pos_ge [of rs 0] by simp
  then show "rel_pos rs i \<noteq> 0" "rel_pos rs i \<noteq> 1"
    by auto
qed

lemma next_entry_bucket:
  assumes "layout (bytes f) rs" "i < length rs"
  shows "next_entry f (rel_pos rs i) NEXT_IS_BUCKET =
    (if next_pos rs i = 0 then 0 else word_of_nat (next_pos rs i) - 2329)"
proof -
  note size = layout_entry_size [OF assms]
  note abs = rel_pos_abs [OF assms(1), of i]
  have fits: "rec_pos rs i + rec_len (rs ! i) \<le> length (bytes f)"
    using rec_end_le [OF assms(2)] layoutD(1) [OF assms(1)] by (simp add: rec_len_def)
  let ?sz = "word_of_nat (rec_len (rs ! i)) :: u32"
  have r1: "pread_u32 f (uint (2329 + rel_pos rs i)) 0 = (4, ?sz)"
    using abs assms(2) fits size by (simp add: pread_u32_in rec_len_def)
  have usz: "unat ?sz = rec_len (rs ! i)"
    using size(2) by (simp add: unat_of_nat)
  then have small: "\<not> 8192 < ?sz"
    using size(2) by (simp add: word_less_nat_alt)
  have "unat (2329 + rel_pos rs i + ?sz) = rec_pos rs i + rec_len (rs ! i)"
    using abs(2) assms(2) fits layoutD(2) [OF assms(1)] usz
    by (subst unat_word_ariths(1)) simp
  then have "uint (2329 + rel_pos rs i + ?sz) - 4 = int (rec_pos rs i + length (snd (rs ! i)))"
    by (simp add: uint_nat rec_len_def)
  then have r2: "pread_u32 f (uint (2329 + rel_pos rs i + ?sz) - 4) (stack_junk f) =
      (4, word_of_nat (next_pos rs i))"
    using fits layoutD(6) [OF assms] by (simp add: pread_u32_in rec_len_def nat_int_add)
  have "next_pos rs i < 2 ^ 32"
    using layoutD(6) [OF assms] le_nat_bound [of "fslice (bytes f) (rec_pos rs i + length (snd (rs ! i))) 4"]
      fits by (simp add: length_fslice rec_len_def)
  then have "(word_of_nat (next_pos rs i) :: u32) = 0 \<longleftrightarrow> next_pos rs i = 0"
    by (simp add: word_unat_eq_iff unat_of_nat)
  with r1 r2 small show ?thesis
    by (simp add: next_entry_def Let_def)
qed

lemma next_entry_regular:
  assumes "layout (bytes f) rs" "i < length rs"
  shows "next_entry f (rel_pos rs i) NEXT_IS_REGULAR = rel_pos rs (Suc i)"
proof -
  note size = layout_entry_size [OF assms]
  note abs = rel_pos_abs [OF assms(1), of i]
  have fits: "rec_pos rs i + rec_len (rs ! i) \<le> length (bytes f)"
    using rec_end_le [OF assms(2)] layoutD(1) [OF assms(1)] by (simp add: rec_len_def)
  let ?sz = "word_of_nat (rec_len (rs ! i)) :: u32"
  have r1: "pread_u32 f (uint (2329 + rel_pos rs i)) 0 = (4, ?sz)"
    using abs assms(2) fits size by (simp add: pread_u32_in rec_len_def)
  have "\<not> 8192 < ?sz"
    using size(2) by (simp add: word_less_nat_alt unat_of_nat)
  moreover have "?sz + rel_pos rs i = rel_pos rs (Suc i)"
    using rec_pos_ge [of rs i] assms(2) by (simp add: rel_pos_def rec_pos_Suc of_nat_diff)
  ultimately show ?thesis
    using r1 by (simp add: next_entry_def Let_def)
qed

lemma next_entry_eof:
  assumes "layout (bytes f) rs"
  shows "next_entry f (rel_pos rs (length rs)) k = 0"
proof -
  have "pread_u32 f (uint (2329 + rel_pos rs (length rs))) 0 = (0, 0)"
    using rel_pos_abs [OF assms, of "length rs"] layoutD(1) [OF assms] by (simp add: pread_u32_eof)
  then show ?thesis by (simp add: next_entry_def Let_def)
qed


text \<open>What \<open>write_to_db\<close> leaves in the file.\<close>

definition insert_bytes :: "byte list \<Rightarrow> raw list \<Rightarrow> nat \<Rightarrow> byte list \<Rightarrow> byte list" where
  "insert_bytes d rs b buf =
     (let p = le_bytes 4 (length d);
          d = d @ buf;
          d = (if chain rs b = [] then write_at (hdr_off (263 + int b)) p d else d);
          d = write_at (hdr_off (519 + int b)) p d
      in if chain rs b = [] then d
         else write_at (rec_pos rs (Suc (last (chain rs b))) - 4) p d)"

lemma last_chain:
  assumes "chain rs b \<noteq> []"
  shows "last (chain rs b) < length rs" "fst (rs ! last (chain rs b)) = b"
  using set_chain [of "last (chain rs b)" rs b] assms by simp_all

lemma fslice_insert_bytes:
  assumes "layout d rs" "b < 256"
    and "a + n \<le> length d + length buf"
    and "a + n \<le> hdr_off (263 + int b) \<or> hdr_off (263 + int b) + 4 \<le> a"
    and "a + n \<le> hdr_off (519 + int b) \<or> hdr_off (519 + int b) + 4 \<le> a"
    and "chain rs b \<noteq> [] \<Longrightarrow> a + n \<le> rec_pos rs (Suc (last (chain rs b))) - 4 \<or>
           rec_pos rs (Suc (last (chain rs b))) \<le> a"
  shows "fslice (insert_bytes d rs b buf) a n = fslice (d @ buf) a n"
proof -
  have h: "hdr_off (263 + int b) + 4 \<le> 2329" "hdr_off (519 + int b) + 4 \<le> 2329"
    using assms(2) by (simp_all add: hdr_off_def)
  have w: "fslice (write_at p ys xs) a n = fslice xs a n"
    if "p + 4 \<le> length xs" "length ys = 4" "a + n \<le> p \<or> p + 4 \<le> a" for p ys and xs :: "byte list"
    using that by (auto simp: fslice_write_at_before fslice_write_at_after)
  have t: "rec_pos rs (Suc (last (chain rs b))) \<le> length d" "12 \<le> rec_pos rs (Suc (last (chain rs b)))"
    if "chain rs b \<noteq> []"
    using that last_chain [OF that] rec_end_le [of "last (chain rs b)" rs] layoutD(1) [OF assms(1)]
      rec_pos_ge [of rs "Suc (last (chain rs b))"] by (simp_all add: rec_pos_Suc rec_len_def)
  note d = layoutD(1,3) [OF assms(1)]
  show ?thesis
  proof (cases "chain rs b = []")
    case True
    then show ?thesis
      using h d assms(3-5) by (simp add: insert_bytes_def Let_def w length_write_at_in)
  next
    case False
    then show ?thesis
      using h d t assms(3-6) by (simp add: insert_bytes_def Let_def w length_write_at_in)
  qed
qed


lemma length_insert_bytes:
  assumes "layout d rs" "b < 256"
  shows "length (insert_bytes d rs b buf) = length d + length buf"
proof -
  have h: "hdr_off (263 + int b) + 4 \<le> 2329" "hdr_off (519 + int b) + 4 \<le> 2329"
    using assms(2) by (simp_all add: hdr_off_def)
  have t: "rec_pos rs (Suc (last (chain rs b))) - 4 + 4 \<le> length d" if "chain rs b \<noteq> []"
    using that last_chain [OF that] rec_end_le [of "last (chain rs b)" rs] layoutD(1) [OF assms(1)]
    by (simp add: rec_pos_Suc rec_len_def)
  show ?thesis
    using h t layoutD(3) [OF assms(1)]
    by (cases "chain rs b = []") (simp_all add: insert_bytes_def Let_def length_write_at_in)
qed

lemma insert_bytes_head_tail:
  assumes "layout d rs" "b < 256"
  shows "hdr_val (insert_bytes d rs b buf) (263 + int b) =
      (if chain rs b = [] then length d else head_pos rs b)"
    and "hdr_val (insert_bytes d rs b buf) (519 + int b) = length d"
proof -
  let ?p = "le_bytes 4 (length d)"
  have h: "hdr_off (263 + int b) + 4 \<le> hdr_off (519 + int b)" "hdr_off (519 + int b) + 4 \<le> 2329"
    using assms(2) by (simp_all add: hdr_off_def)
  have wd: "hdr_width (263 + int b) = 4" "hdr_width (519 + int b) = 4"
    using assms(2) by (simp_all add: hdr_width_def)
  have p: "le_nat ?p = length d"
    using layoutD(2) [OF assms(1)] by (simp add: le_nat_le_bytes_lt)
  note d3 = layoutD(3) [OF assms(1)]
  have t: "2329 \<le> rec_pos rs (Suc (last (chain rs b))) - 4"
    "rec_pos rs (Suc (last (chain rs b))) \<le> length d" if "chain rs b \<noteq> []"
    using that last_chain [OF that] rec_end_le [of "last (chain rs b)" rs] layoutD(1) [OF assms(1)]
      rec_pos_ge [of rs "last (chain rs b)"]
    by (simp_all add: rec_pos_Suc rec_len_def)
  show "hdr_val (insert_bytes d rs b buf) (263 + int b) =
      (if chain rs b = [] then length d else head_pos rs b)"
  proof (cases "chain rs b = []")
    case True
    then show ?thesis
      using h d3 p
      by (simp add: insert_bytes_def Let_def hdr_val_def wd length_write_at_in
          fslice_write_at_before fslice_write_at_same)
  next
    case False
    then show ?thesis
      using h d3 t layoutD(7) [OF assms(1,2)]
      by (simp add: insert_bytes_def Let_def hdr_val_def wd length_write_at_in
          fslice_write_at_before fslice_append1)
  qed
  show "hdr_val (insert_bytes d rs b buf) (519 + int b) = length d"
    using h d3 p t
    by (cases "chain rs b = []") (simp_all add: insert_bytes_def Let_def hdr_val_def wd
        length_write_at_in fslice_write_at_before fslice_write_at_same)
qed

lemma insert_bytes_link:
  assumes "layout d rs" "b < 256" "chain rs b \<noteq> []"
  shows "le_nat (fslice (insert_bytes d rs b buf) (rec_pos rs (Suc (last (chain rs b))) - 4) 4) = length d"
proof -
  have h: "hdr_off (263 + int b) + 4 \<le> 2329" "hdr_off (519 + int b) + 4 \<le> 2329"
    using assms(2) by (simp_all add: hdr_off_def)
  have t: "rec_pos rs (Suc (last (chain rs b))) \<le> length d"
    using last_chain [OF assms(3)] rec_end_le [of "last (chain rs b)" rs] layoutD(1) [OF assms(1)]
    by (simp add: rec_pos_Suc rec_len_def)
  show ?thesis
    using h t layoutD(2,3) [OF assms(1)] assms(3)
    by (simp add: insert_bytes_def Let_def length_write_at_in fslice_write_at_same le_nat_le_bytes_lt)
qed

lemma hdr_head_tail_apart:
  assumes "b < 256" "c < 256" "c \<noteq> b"
  shows "hdr_off (263 + int c) + 4 \<le> hdr_off (263 + int b) \<or> hdr_off (263 + int b) + 4 \<le> hdr_off (263 + int c)"
    and "hdr_off (519 + int c) + 4 \<le> hdr_off (519 + int b) \<or> hdr_off (519 + int b) + 4 \<le> hdr_off (519 + int c)"
    and "hdr_off (263 + int b) + 4 \<le> hdr_off (519 + int c)" "hdr_off (519 + int b) + 4 \<le> 2329"
  using assms by (auto simp: hdr_off_def)

lemma insert_old_body:
  assumes l: "layout d rs" and b: "b < 256" and i: "i < length rs"
  shows "fslice (insert_bytes d rs b buf) (rec_pos rs i) (length (snd (rs ! i))) = snd (rs ! i)"
proof -
  note d = layoutD(1,3) [OF l]
  have h: "hdr_off (263 + int b) + 4 \<le> 2329" "hdr_off (519 + int b) + 4 \<le> 2329"
    using b by (simp_all add: hdr_off_def)
  have "fslice (insert_bytes d rs b buf) (rec_pos rs i) (length (snd (rs ! i))) =
      fslice (d @ buf) (rec_pos rs i) (length (snd (rs ! i)))"
  proof (rule fslice_insert_bytes [OF l b])
    assume ne: "chain rs b \<noteq> []"
    show "rec_pos rs i + length (snd (rs ! i)) \<le> rec_pos rs (Suc (last (chain rs b))) - 4 \<or>
         rec_pos rs (Suc (last (chain rs b))) \<le> rec_pos rs i"
    proof (cases "i \<le> last (chain rs b)")
      case True
      then show ?thesis
        using rec_pos_mono [of "Suc i" "Suc (last (chain rs b))" rs] i by (simp add: rec_pos_Suc rec_len_def)
    next
      case False
      then show ?thesis
        using rec_pos_mono [of "Suc (last (chain rs b))" i rs] by simp
    qed
  qed (use h rec_end_le [OF i] rec_pos_ge [of rs i] d in auto)
  then show ?thesis
    using rec_end_le [OF i] d layoutD(5) [OF l i] by (simp add: fslice_append1)
qed

lemma insert_new_bytes:
  assumes l: "layout d rs" and b: "b < 256"
  shows "fslice (insert_bytes d rs b buf) (length d) (length buf) = buf"
proof -
  have h: "hdr_off (263 + int b) + 4 \<le> 2329" "hdr_off (519 + int b) + 4 \<le> 2329"
    using b by (simp_all add: hdr_off_def)
  have t: "rec_pos rs (Suc (last (chain rs b))) \<le> length d" if "chain rs b \<noteq> []"
    using last_chain(1) [OF that] rec_end_le [of "last (chain rs b)" rs] layoutD(1) [OF l]
    by (simp add: rec_pos_Suc rec_len_def)
  have "fslice (insert_bytes d rs b buf) (length d) (length buf) = fslice (d @ buf) (length d) (length buf)"
    using h t layoutD(3) [OF l] by (intro fslice_insert_bytes [OF l b]) auto
  then show ?thesis by (simp add: fslice_append2 fslice_all)
qed

lemma insert_old_link_apart:
  assumes l: "layout d rs" and b: "b < 256" and i: "i < length rs"
    and other: "\<not> (fst (rs ! i) = b \<and> i = last (chain rs b))"
  shows "le_nat (fslice (insert_bytes d rs b buf) (rec_pos rs i + length (snd (rs ! i))) 4) = next_pos rs i"
proof -
  note d = layoutD(1,3) [OF l]
  have h: "hdr_off (263 + int b) + 4 \<le> 2329" "hdr_off (519 + int b) + 4 \<le> 2329"
    using b by (simp_all add: hdr_off_def)
  have "fslice (insert_bytes d rs b buf) (rec_pos rs i + length (snd (rs ! i))) 4 =
      fslice (d @ buf) (rec_pos rs i + length (snd (rs ! i))) 4"
  proof (rule fslice_insert_bytes [OF l b])
    assume ne: "chain rs b \<noteq> []"
    with other last_chain [OF ne] have "i \<noteq> last (chain rs b)"
      by auto
    then consider "i < last (chain rs b)" | "last (chain rs b) < i"
      by linarith
    then show "rec_pos rs i + length (snd (rs ! i)) + 4 \<le> rec_pos rs (Suc (last (chain rs b))) - 4 \<or>
         rec_pos rs (Suc (last (chain rs b))) \<le> rec_pos rs i + length (snd (rs ! i))"
    proof cases
      case 1
      then show ?thesis
        using rec_end_before [OF 1, of rs] last_chain(1) [OF ne] by (simp add: rec_pos_Suc rec_len_def)
    next
      case 2
      then show ?thesis
        using rec_pos_mono [of "Suc (last (chain rs b))" i rs] by simp
    qed
  qed (use h rec_end_le [OF i] rec_pos_ge [of rs i] d in auto)
  then show ?thesis
    using rec_end_le [OF i] d layoutD(6) [OF l i] by (simp add: fslice_append1)
qed

lemma insert_old_link:
  assumes l: "layout d rs" and b: "b < 256" and i: "i < length rs"
  shows "le_nat (fslice (insert_bytes d rs b buf) (rec_pos rs i + length (snd (rs ! i))) 4) =
    next_pos (rs @ [(b, x)]) i"
proof (cases "fst (rs ! i) = b \<and> i = last (chain rs b)")
  case True
  let ?t = "last (chain rs b)"
  note fb = True [THEN conjunct1] and it = True [THEN conjunct2]
  have "i \<in> set (chain rs b)"
    using fb i by (simp add: set_chain)
  then have ne: "chain rs b \<noteq> []"
    by auto
  have "rec_pos rs (Suc ?t) = rec_pos rs i + length (snd (rs ! i)) + 4"
    using rec_pos_Suc [OF i] it by (simp add: rec_len_def)
  moreover have "next_pos (rs @ [(b, x)]) i = length d"
    using next_pos_snoc_old [OF i, of "(b, x)"] fb it layoutD(1) [OF l] by simp
  ultimately show ?thesis
    using insert_bytes_link [OF l b ne, of buf] by simp
next
  case False
  then have "next_pos (rs @ [(b, x)]) i = next_pos rs i"
    using next_pos_snoc_old [OF i, of "(b, x)"] unfolding fst_conv by metis
  then show ?thesis
    using insert_old_link_apart [OF l b i False, of buf] by simp
qed

lemma insert_other_buckets:
  assumes l: "layout d rs" and b: "b < 256" and c: "c < 256" "c \<noteq> b"
  shows "hdr_val (insert_bytes d rs b buf) (263 + int c) = hdr_val d (263 + int c)"
    and "hdr_val (insert_bytes d rs b buf) (519 + int c) = hdr_val d (519 + int c)"
proof -
  note d = layoutD(1,3) [OF l]
  note ap = hdr_head_tail_apart [OF b c] hdr_head_tail_apart [OF c(1) b c(2) [symmetric]]
  have wd: "hdr_width (263 + int c) = 4" "hdr_width (519 + int c) = 4"
    using c by (simp_all add: hdr_width_def)
  have t: "2329 \<le> rec_pos rs (Suc (last (chain rs b))) - 4" if "chain rs b \<noteq> []"
    using last_chain [OF that] rec_pos_ge [of rs "last (chain rs b)"] by (simp add: rec_pos_Suc rec_len_def)
  have "fslice (insert_bytes d rs b buf) (hdr_off (263 + int c)) 4 = fslice (d @ buf) (hdr_off (263 + int c)) 4"
    "fslice (insert_bytes d rs b buf) (hdr_off (519 + int c)) 4 = fslice (d @ buf) (hdr_off (519 + int c)) 4"
    using ap d t by (auto intro!: fslice_insert_bytes [OF l b])
  then show "hdr_val (insert_bytes d rs b buf) (263 + int c) = hdr_val d (263 + int c)"
    "hdr_val (insert_bytes d rs b buf) (519 + int c) = hdr_val d (519 + int c)"
    using ap d by (simp_all add: hdr_val_def wd fslice_append1)
qed

lemma head_pos_snoc:
  "head_pos (rs @ [(b, x)]) c =
    (if c = b \<and> chain rs b = [] then rec_pos rs (length rs) else head_pos rs c)"
  using set_chain [of "hd (chain rs c)" rs c]
  by (cases "chain rs c") (auto simp: head_pos_def chain_snoc rec_pos_snoc)

lemma tail_pos_snoc:
  "tail_pos (rs @ [(b, x)]) c = (if c = b then rec_pos rs (length rs) else tail_pos rs c)"
  by (auto simp: tail_pos_def chain_snoc rec_pos_snoc less_imp_le [OF last_chain(1)])

lemma insert_heads:
  assumes l: "layout d rs" and b: "b < 256" and c: "c < 256"
  shows "hdr_val (insert_bytes d rs b buf) (263 + int c) = head_pos (rs @ [(b, x)]) c"
    and "hdr_val (insert_bytes d rs b buf) (519 + int c) = tail_pos (rs @ [(b, x)]) c"
proof -
  note simps = head_pos_snoc tail_pos_snoc insert_bytes_head_tail [OF l b]
    insert_other_buckets [OF l b c] layoutD(1) [OF l] layoutD(7,8) [OF l c]
  show "hdr_val (insert_bytes d rs b buf) (263 + int c) = head_pos (rs @ [(b, x)]) c"
    "hdr_val (insert_bytes d rs b buf) (519 + int c) = tail_pos (rs @ [(b, x)]) c"
    by (cases "c = b"; simp add: simps)+
qed

lemma layout_insert:
  assumes l: "layout d rs" and r: "raw_ok (b, x)" and buf: "buf = x @ le_bytes 4 0"
    and fits: "length d + length buf < EMPTY_BUCKET"
  shows "layout (insert_bytes d rs b buf) (rs @ [(b, x)])"
proof -
  let ?d = "insert_bytes d rs b buf" and ?rs = "rs @ [(b, x)]"
  have b: "b < 256"
    using r by (simp add: raw_ok_def)
  note d = layoutD(1) [OF l] and new = insert_new_bytes [OF l b, of buf]
  have x: "fslice ?d (length d + 0) (length x) = x"
    using fslice_eq_sub [of ?d "length d" buf 0 "length x"] new
    by (simp add: buf fslice_append1 fslice_all)
  have y: "fslice ?d (length d + length x) 4 = le_bytes 4 0"
    using fslice_eq_sub [of ?d "length d" buf "length x" 4] new
    by (simp add: buf fslice_append2 fslice_all)
  have "fslice ?d (rec_pos ?rs i) (length (snd (?rs ! i))) = snd (?rs ! i) \<and>
      le_nat (fslice ?d (rec_pos ?rs i + length (snd (?rs ! i))) 4) = next_pos ?rs i"
    if "i < length ?rs" for i
    using that insert_old_body [OF l b] insert_old_link [OF l b] x y d
    by (cases "i = length rs") (auto simp: rec_pos_snoc nth_append next_pos_snoc_new le_nat_le_bytes_lt)
  moreover have "length ?d = rec_pos ?rs (length ?rs)"
    using length_insert_bytes [OF l b] d by (simp add: rec_pos_snoc_end rec_len_def buf)
  moreover have "list_all raw_ok ?rs"
    using l r by (simp add: layout_def)
  ultimately show ?thesis
    using length_insert_bytes [OF l b] fits insert_heads [OF l b] by (simp add: layout_def)
qed


section \<open>\<open>write_to_db\<close> appends one record\<close>

lemma head_tail_empty:
  assumes "layout d rs"
  shows "head_pos rs b = EMPTY_BUCKET \<longleftrightarrow> chain rs b = []"
    and "tail_pos rs b = EMPTY_BUCKET \<longleftrightarrow> chain rs b = []"
proof -
  have lt: "rec_pos rs i < EMPTY_BUCKET" if "i < length rs" for i
    using rec_end_le [OF that] layoutD(1,2) [OF assms] by simp
  show "head_pos rs b = EMPTY_BUCKET \<longleftrightarrow> chain rs b = []"
  proof (cases "chain rs b")
    case (Cons i xs)
    then have "i < length rs"
      using set_chain [of i rs b] by simp
    with lt [of i] Cons show ?thesis
      by (simp add: head_pos_def)
  qed (simp add: head_pos_def)
  show "tail_pos rs b = EMPTY_BUCKET \<longleftrightarrow> chain rs b = []"
  proof (cases "chain rs b = []")
    case False
    from lt [OF last_chain(1) [OF False]] False show ?thesis
      by (simp add: tail_pos_def)
  qed (simp add: tail_pos_def)
qed

lemma link_previous_ok:
  assumes size: "le_nat (fslice (bytes f) t 4) = n" "4 \<le> n" "t + n \<le> length (bytes f)"
    and lim: "length (bytes f) < EMPTY_BUCKET" "length (bytes f) \<le> file_limit f" and p: "p < 2 ^ 32"
  shows "link_previous f (int t) (int p) =
    (0, f\<lparr>bytes := write_at (t + n - 4) (le_bytes 4 p) (bytes f)\<rparr>)"
proof -
  have n: "n < 2 ^ 32"
    using size lim(1) by simp
  have rd: "pread_u32 (f\<lparr>o_append := False\<rparr>) (int t) (stack_junk f) = (4, word_of_nat n)"
    using size by (simp add: pread_u32_in)
  have un: "uint (word_of_nat n :: u32) = int n"
    using n by (simp add: uint_nat unat_of_nat)
  define q where "q = t + n - 4"
  have q: "int t + int n - 4 = int q" "q + 4 = t + n"
    using size(2) by (simp_all add: q_def)
  have "unat (c_u32 (int q)) = q"
    using q(2) size(3) lim(1) by (simp add: unat_c_u32)
  then have pos: "uint (c_u32 (int t + int n - 4)) = int q"
    unfolding q(1) by (simp add: uint_nat)
  have up: "unat (c_u32 (int p)) = p"
    using p by (simp add: unat_c_u32)
  have "pwrite (f\<lparr>o_append := False\<rparr>) (le_bytes 4 p) (int q) =
      (4, f\<lparr>o_append := False, bytes := write_at q (le_bytes 4 p) (bytes f)\<rparr>)"
    using q(2) size(3) lim length_le_bytes [of 4 p] by (subst pwrite_ok) (auto simp del: length_le_bytes)
  then show ?thesis
    using rd un pos up by (simp add: link_previous_def q_def [symmetric])
qed

lemma set_bucket_field_ok:
  assumes "fdno f \<noteq> -1" "2329 \<le> file_limit f" "b < 256" "fld = 263 \<or> fld = 519" "p < 2 ^ 64"
  shows "set_header_field f (fld + int b) (c_u64 (int p)) =
    Ret (0, f\<lparr>bytes := write_at (hdr_off (fld + int b)) (le_bytes 4 p) (bytes f)\<rparr>)"
proof -
  have v: "hdr_valid (fld + int b)" "hdr_storable (fld + int b) w" for w
    using assms(3,4) by (auto simp: hdr_valid_def hdr_storable_def)
  have "hdr_enc (fld + int b) (c_u64 (int p)) = le_bytes 4 p"
    using assms(3-5) by (auto simp: hdr_enc_def hdr_width_def unat_c_u64)
  then show ?thesis
    using set_header_field_ok [OF assms(1) v] hdr_in_header [OF v(1)] assms(2) by simp
qed

text \<open>The fields \<open>write_to_db\<close> meets after its \<open>write\<close>, and their updates.\<close>

lemma bucket_fields_read:
  assumes "fdno f \<noteq> -1" "b < 256" "2329 \<le> length (bytes f)"
  shows "get_header_field f (263 + int b) = int (hdr_val (bytes f) (263 + int b))"
    and "get_header_field f (519 + int b) = int (hdr_val (bytes f) (519 + int b))"
  using assms by (simp_all add: get_header_field_eq hdr_valid_def)

lemma hdr_val_append:
  assumes "hdr_valid i" "2329 \<le> length d"
  shows "hdr_val (d @ buf) i = hdr_val d i"
  using assms hdr_in_header [of i] by (simp add: hdr_val_def fslice_append1)

lemma hdr_val_write_apart:
  assumes "hdr_valid i" "hdr_valid j" "i \<noteq> j" "2329 \<le> length d" "length ys = hdr_width i"
  shows "hdr_val (write_at (hdr_off i) ys d) j = hdr_val d j"
  using assms by (simp add: hdr_val_def hdr_val_write_other)

lemma write_to_db_first:
  assumes f: "fdno f \<noteq> -1" "o_append f" and l: "layout (bytes f) rs" and b: "b < 256"
    and e: "chain rs b = []" and sz: "unat sz = length buffer" "buffer \<noteq> []"
    and lim: "length (bytes f) + length buffer \<le> file_limit f"
  shows "write_to_db f buffer sz (int b) =
    Ret (0, f\<lparr>bytes := insert_bytes (bytes f) rs b buffer,
              fpos := length (bytes f) + length buffer\<rparr>)"
proof -
  let ?p = "length (bytes f)"
  let ?f1 = "f\<lparr>bytes := bytes f @ buffer, fpos := ?p + length buffer\<rparr>"
  let ?f2 = "?f1\<lparr>bytes := write_at (hdr_off (263 + int b)) (le_bytes 4 ?p) (bytes f @ buffer)\<rparr>"
  note d = layoutD(2,3) [OF l]
  have v: "hdr_valid (263 + int b)" "hdr_valid (519 + int b)" "hdr_width (263 + int b) = 4"
    using b by (simp_all add: hdr_valid_def hdr_width_def)
  have us: "uint sz = int (length buffer)"
    using sz(1) by (simp add: uint_nat)
  have w: "write_fd f (take (unat sz) buffer) = (uint sz, ?f1)"
    using f(2) lim sz us by (simp add: write_fd_append_ok)
  have vals: "hdr_val (bytes f) (263 + int b) = EMPTY_BUCKET" "hdr_val (bytes f) (519 + int b) = EMPTY_BUCKET"
    using layoutD(7,8) [OF l b] head_tail_empty [OF l, of b] e by simp_all
  have head: "get_header_field ?f1 (263 + int b) = EMPTY_BUCKET"
    using f b d(2) v vals(1) by (simp add: bucket_fields_read hdr_val_append)
  have set1: "set_header_field ?f1 (263 + int b) (c_u64 (int ?p)) = Ret (0, ?f2)"
    using set_bucket_field_ok [of ?f1 b 263 ?p] f lim b d by simp
  have len2: "2329 \<le> length (bytes ?f2)"
    using d(2) by (simp add: length_write_at)
  have tail: "get_header_field ?f2 (519 + int b) = EMPTY_BUCKET"
    using f b d(2) v vals(2) len2
    by (simp add: bucket_fields_read hdr_val_append hdr_val_write_apart)
  have set2: "set_header_field ?f2 (519 + int b) (c_u64 (int ?p)) =
      Ret (0, ?f2\<lparr>bytes := write_at (hdr_off (519 + int b)) (le_bytes 4 ?p) (bytes ?f2)\<rparr>)"
    using set_bucket_field_ok [of ?f2 b 519 ?p] f lim b d by simp
  show ?thesis
    using e w head set1 tail set2 us by (simp add: write_to_db_def Let_def insert_bytes_def lseek_cur_def)
qed

lemma write_to_db_next:
  assumes f: "fdno f \<noteq> -1" "o_append f" and l: "layout (bytes f) rs" and b: "b < 256"
    and e: "chain rs b \<noteq> []" and sz: "unat sz = length buffer" "buffer \<noteq> []"
    and lim: "length (bytes f) + length buffer \<le> file_limit f" "length (bytes f) + length buffer < EMPTY_BUCKET"
  shows "write_to_db f buffer sz (int b) =
    Ret (0, f\<lparr>bytes := insert_bytes (bytes f) rs b buffer,
              fpos := length (bytes f) + length buffer\<rparr>)"
proof -
  let ?p = "length (bytes f)" and ?t = "last (chain rs b)"
  let ?f1 = "f\<lparr>bytes := bytes f @ buffer, fpos := ?p + length buffer\<rparr>"
  let ?f2 = "?f1\<lparr>bytes := write_at (hdr_off (519 + int b)) (le_bytes 4 ?p) (bytes f @ buffer)\<rparr>"
  note d = layoutD(1,2,3) [OF l] and lc = last_chain [OF e]
  have v: "hdr_valid (263 + int b)" "hdr_valid (519 + int b)"
    using b by (simp_all add: hdr_valid_def)
  have us: "uint sz = int (length buffer)"
    using sz(1) by (simp add: uint_nat)
  have w: "write_fd f (take (unat sz) buffer) = (uint sz, ?f1)"
    using f(2) lim(1) sz us by (simp add: write_fd_append_ok)
  have vals: "hdr_val (bytes f) (263 + int b) \<noteq> EMPTY_BUCKET" "hdr_val (bytes f) (519 + int b) = rec_pos rs ?t"
    "rec_pos rs ?t \<noteq> EMPTY_BUCKET"
    using layoutD(7,8) [OF l b] head_tail_empty [OF l, of b] e by (simp_all add: tail_pos_def)
  have head: "get_header_field ?f1 (263 + int b) = int (hdr_val (bytes f) (263 + int b))"
    using f b d(3) v by (simp add: bucket_fields_read hdr_val_append)
  have tail: "get_header_field ?f1 (519 + int b) = int (rec_pos rs ?t)"
    using f b d(3) v vals(2) by (simp add: bucket_fields_read hdr_val_append)
  have set1: "set_header_field ?f1 (519 + int b) (c_u64 (int ?p)) = Ret (0, ?f2)"
    using set_bucket_field_ok [of ?f1 b 519 ?p] f lim(1) b d by simp
  have hdr: "hdr_off (519 + int b) + 4 \<le> 2329"
    using b by (simp add: hdr_off_def)
  have te: "rec_pos rs ?t + rec_len (rs ! ?t) \<le> ?p" "rec_pos rs (Suc ?t) = rec_pos rs ?t + rec_len (rs ! ?t)"
    using rec_end_le [OF lc(1)] lc(1) d(1) by (simp_all add: rec_len_def rec_pos_Suc)
  note esz = layout_entry_size [OF l lc(1)]
  have len2: "length (bytes ?f2) = ?p + length buffer"
    using hdr d(3) by (simp add: length_write_at_in)
  have rd: "le_nat (fslice (bytes ?f2) (rec_pos rs ?t) 4) = rec_len (rs ! ?t)"
    using hdr d(3) te esz rec_pos_ge [of rs ?t] by (simp add: fslice_write_at_after fslice_append1)
  have "link_previous ?f2 (int (rec_pos rs ?t)) (int ?p) =
      (0, ?f2\<lparr>bytes := write_at (rec_pos rs ?t + rec_len (rs ! ?t) - 4) (le_bytes 4 ?p) (bytes ?f2)\<rparr>)"
    using te(1) esz(3) rd d lim len2 by (intro link_previous_ok) auto
  then show ?thesis
    using e w head vals(1,3) tail set1 us te(2)
    by (simp add: write_to_db_def Let_def insert_bytes_def lseek_cur_def)
qed

lemma write_to_db_ok:
  assumes "fdno f \<noteq> -1" "o_append f" "layout (bytes f) rs" "b < 256"
    and "unat sz = length buffer" "buffer \<noteq> []"
    and "length (bytes f) + length buffer \<le> file_limit f" "length (bytes f) + length buffer < EMPTY_BUCKET"
  shows "write_to_db f buffer sz (int b) =
    Ret (0, f\<lparr>bytes := insert_bytes (bytes f) rs b buffer,
              fpos := length (bytes f) + length buffer\<rparr>)"
  using write_to_db_first [OF assms(1-4)] write_to_db_next [OF assms(1-4)] assms(5-8)
  by (cases "chain rs b = []") simp_all

section \<open>The duplicate search follows a chain\<close>

lemma next_entry_chain:
  assumes l: "layout (bytes f) rs" and c: "chain rs b = xs @ i # ys"
  shows "next_entry f (rel_pos rs i) NEXT_IS_BUCKET = (case ys of [] \<Rightarrow> 0 | j # _ \<Rightarrow> rel_pos rs j)"
proof -
  have i: "i < length rs"
    using c set_chain [of i rs b] by simp
  show ?thesis
  proof (cases ys)
    case Nil
    then show ?thesis
      using next_entry_bucket [OF l i] next_pos_chain [OF c] by simp
  next
    case (Cons j js)
    have "rec_pos rs j \<noteq> 0" "2329 \<le> rec_pos rs j"
      using rec_pos_ge [of rs j] by simp_all
    then show ?thesis
      using next_entry_bucket [OF l i] next_pos_chain [OF c] Cons
      by (simp add: rel_pos_def of_nat_diff)
  qed
qed

lemma dup_scan_chain:
  assumes l: "layout (bytes f) rs" and c: "chain rs b = xs @ i # ys"
    and cmp: "\<And>j. j \<in> set (i # ys) \<Longrightarrow> cmp (rel_pos rs j) = (if K j then 0 else 1)"
  shows "dup_scan cmp (\<lambda>off. next_entry f off NEXT_IS_BUCKET) (rel_pos rs i) =
    Some (if \<exists>j\<in>set (i # ys). K j then 1 else 0)"
  using c cmp
proof (induction ys arbitrary: xs i)
  case Nil
  then show ?case
    using next_entry_chain [OF l Nil(1)] by (simp add: dup_scan.simps)
next
  case (Cons j ys)
  have j: "0 < j" "j \<le> length rs"
    using sorted_chain [of rs b] set_chain [of j rs b] Cons.prems(1)
    by (auto simp: sorted_wrt_append)
  have IH: "dup_scan cmp (\<lambda>off. next_entry f off NEXT_IS_BUCKET) (rel_pos rs j) =
      Some (if \<exists>j\<in>set (j # ys). K j then 1 else 0)"
    using Cons.prems by (intro Cons.IH [of "xs @ [i]"]) auto
  show ?case
    using next_entry_chain [OF l Cons.prems(1)] rel_pos_small [OF l j] Cons.prems(2) [of i] IH
    by (subst dup_scan.simps) simp
qed

lemma chain_start:
  assumes l: "layout (bytes f) rs" and fd: "fdno f \<noteq> -1" and b: "b < 256"
  shows "get_header_field f (BUCKET_HEAD + int b) = int (head_pos rs b)"
    and "chain rs b = i # ys \<Longrightarrow> c_u32 (int (head_pos rs b) - HEADER_SIZE) = rel_pos rs i"
  using bucket_fields_read(1) [OF fd b] layoutD(3,7) [OF l] b rec_pos_ge [of rs i]
  by (auto simp: head_pos_def rel_pos_def c_u32_def of_nat_diff)

lemma append_locked_scan:
  assumes l: "layout (bytes f) rs" and fd: "fdno f \<noteq> -1" "setlkw_ok f" and b: "b < 256"
    and cmp: "\<And>j. j \<in> set (chain rs b) \<Longrightarrow> cmp (rel_pos rs j) = (if K j then 0 else 1)"
  shows "append_locked f (int b) cmp buffer sz =
    (if \<exists>j\<in>set (chain rs b). K j then Ret (1, f)
     else c_bind (write_to_db f buffer sz (int b)) (\<lambda>(_, f). Ret (0, f)))"
proof (cases "chain rs b")
  case Nil
  then show ?thesis
    using fd chain_start(1) [OF l fd(1) b] head_tail_empty(1) [OF l, of b]
    by (simp add: append_locked_def)
next
  case (Cons i ys)
  note dup = dup_scan_chain [OF l, of b "[]" i ys, simplified, OF Cons, of cmp K]
  have "head_pos rs b \<noteq> EMPTY_BUCKET"
    using head_tail_empty(1) [OF l, of b] Cons by simp
  then have "int (head_pos rs b) \<noteq> EMPTY_BUCKET"
    by simp
  then show ?thesis
    using fd(2) chain_start(1) [OF l fd(1) b] chain_start(2) [OF l fd(1) b Cons] dup cmp Cons
    by (simp add: append_locked_def Let_def)
qed

end
