(* ===== verification/Db_Entry.thy ===== *)
theory Db_Entry
  imports Db_Store
begin

text \<open>
  What the two entry kinds share: records placed at an offset, the relation between a
  snapshot file and the list of its entries, and the interface \<open>entry_codec\<close> the store
  needs from an entry kind. Inside the interface the append of \<open>Db_Store\<close> is shown to
  insert an entry when its key is new and to leave the snapshot alone otherwise. The
  interface is interpreted in \<open>Fileops\<close> and in \<open>Proc\<close>.
\<close>

section \<open>A record at an offset\<close>

text \<open>
  \<open>placed d off bs\<close>: the record bytes \<open>bs\<close> start at offset \<open>off\<close> of the record area of
  the file \<open>d\<close>, with room for the link behind them.
\<close>

definition placed :: "byte list \<Rightarrow> u32 \<Rightarrow> byte list \<Rightarrow> bool" where
  "placed d off bs \<longleftrightarrow>
     unat off + HEADER_SIZE + length bs + 4 \<le> length d \<and> length d < EMPTY_BUCKET \<and>
     fslice d (unat off + HEADER_SIZE) (length bs) = bs"

lemma layout_placed:
  assumes "layout d rs" "i < length rs"
  shows "placed d (rel_pos rs i) (snd (rs ! i))"
proof -
  have "unat (rel_pos rs i) + 2329 = rec_pos rs i"
    using rel_pos_abs(1) [OF assms(1), of i] rec_pos_ge [of rs i] assms(2) by simp
  then show ?thesis
    using layoutD(1,2,5) [OF assms(1)] rec_end_le [OF assms(2)] assms(2) by (simp add: placed_def)
qed

lemma placed_offset:
  assumes "placed d off bs" "k \<le> length bs + 4"
  shows "uint (off + 2329 + word_of_nat k) = int (unat off + 2329 + k)"
    and "uint (off + 2329) = int (unat off + 2329)"
proof -
  have b: "unat off + (2329 + k) < 4294967296"
    using assms by (simp add: placed_def)
  have e: "off + 2329 + word_of_nat k = off + word_of_nat (2329 + k)" "off + 2329 = off + word_of_nat 2329"
    by simp_all
  have "unat off + 2329 < 4294967296"
    using b by linarith
  then have u: "unat (off + word_of_nat 2329) = unat off + 2329"
    by (rule unat_add_nat)
  show "uint (off + 2329 + word_of_nat k) = int (unat off + 2329 + k)"
    unfolding e(1) by (simp only: uint_nat unat_add_nat [OF b] add.assoc)
  show "uint (off + 2329) = int (unat off + 2329)"
    unfolding e(2) uint_nat u ..
qed

text \<open>Reads that stay inside a placed record give the record's bytes.\<close>

lemma placed_pread:
  assumes "placed (bytes f) off bs" "k + n \<le> length bs"
  shows "pread f (int n) (int (unat off + 2329 + k)) = Some (fslice bs k n)"
proof -
  have "fslice (bytes f) (unat off + 2329 + k) n = fslice bs k n"
    using assms by (intro fslice_eq_sub) (simp_all add: placed_def)
  then show ?thesis
    by (simp only: pread_in of_nat_0_le_iff nat_int)
qed

lemma placed_pread_u32:
  assumes "placed (bytes f) off bs" "k + 4 \<le> length bs"
  shows "pread_u32 f (int (unat off + 2329 + k)) init = (4, word_of_nat (le_nat (fslice bs k 4)))"
  using placed_pread [OF assms] assms(2) by (simp add: pread_u32_def length_fslice)

lemma placed_exact:
  assumes "placed (bytes f) off bs" "k + n \<le> length bs" "m = int n" "p = int (unat off + 2329 + k)"
  shows "pread_exact f m p = Some (fslice bs k n)"
  unfolding assms(3,4) pread_exact_def placed_pread [OF assms(1,2)]
  using assms(2) by (simp add: length_fslice)

section \<open>Serialising an entry\<close>

text \<open>
  The loop both append functions run over their field pointers and sizes: \<open>memcpy\<close> each
  field behind the last one in a buffer of \<open>MAX_ENTRY_SIZE\<close> bytes. Reading past a field's
  memory and writing past the buffer are undefined.
\<close>

fun copy_fields :: "byte list \<Rightarrow> (byte list \<times> nat) list \<Rightarrow> byte list outcome" where
  "copy_fields buffer [] = Ret buffer"
| "copy_fields buffer ((p, n) # fs) =
     (if length p < n \<or> MAX_ENTRY_SIZE < length buffer + n then UB
      else copy_fields (buffer @ take n p) fs)"

lemma copy_fields_ok:
  "list_all (\<lambda>(p, n). n \<le> length p) fs \<Longrightarrow>
   length buffer + sum_list (map snd fs) \<le> MAX_ENTRY_SIZE \<Longrightarrow>
   copy_fields buffer fs = Ret (buffer @ concat (map (\<lambda>(p, n). take n p) fs))"
  by (induction buffer fs rule: copy_fields.induct) auto

section \<open>Snapshots as lists of entries\<close>

text \<open>
  The abstract state of a snapshot is its list of entries in insertion order. \<open>holds\<close>
  relates it to the bytes of the file, given how an entry kind chooses the bucket and the
  bytes of an entry. \<open>insert_unique\<close> is what an append promises.
\<close>

definition raws :: "('e \<Rightarrow> nat) \<Rightarrow> ('e \<Rightarrow> byte list) \<Rightarrow> 'e list \<Rightarrow> raw list" where
  "raws bkt body es = map (\<lambda>e. (bkt e, body e)) es"

definition holds ::
  "('e \<Rightarrow> nat) \<Rightarrow> ('e \<Rightarrow> byte list) \<Rightarrow> ('e \<Rightarrow> bool) \<Rightarrow> byte list \<Rightarrow> 'e list \<Rightarrow> bool" where
  "holds bkt body valid d es \<longleftrightarrow> layout d (raws bkt body es) \<and> list_all valid es"

definition insert_unique :: "('e \<Rightarrow> 'k) \<Rightarrow> 'e \<Rightarrow> 'e list \<Rightarrow> int \<times> 'e list" where
  "insert_unique key e es = (if key e \<in> key ` set es then (1, es) else (0, es @ [e]))"

lemma length_raws [simp]: "length (raws bkt body es) = length es"
  by (simp add: raws_def)

lemma nth_raws [simp]: "i < length es \<Longrightarrow> raws bkt body es ! i = (bkt (es ! i), body (es ! i))"
  by (simp add: raws_def)

lemma raws_snoc: "raws bkt body (es @ [e]) = raws bkt body es @ [(bkt e, body e)]"
  by (simp add: raws_def)

lemma chain_raws:
  "set (chain (raws bkt body es) b) = {i. i < length es \<and> bkt (es ! i) = b}"
  by (auto simp: set_chain)

lemma holds_init: "holds bkt body valid (init_header m n) []"
proof -
  have v: "hdr_val (init_header m n) (fld + int b) = EMPTY_BUCKET" if "fld = 263 \<or> fld = 519" "b < 256" for fld b
    using that init_header_field [of "fld + int b" m n]
    by (auto simp: hdr_val_def hdr_valid_def init_field_def hdr_enc_def hdr_width_def le_nat_le_bytes_lt)
  then show ?thesis
    by (simp add: holds_def layout_def raws_def chain_def head_pos_def tail_pos_def rec_pos_def length_init_header)
qed

lemma layout_cong:
  assumes l: "layout d rs" and len: "length d' = length d" and rest: "drop 2329 d' = drop 2329 d"
    and b: "\<And>b. b < 256 \<Longrightarrow> hdr_val d' (263 + int b) = hdr_val d (263 + int b)"
      "\<And>b. b < 256 \<Longrightarrow> hdr_val d' (519 + int b) = hdr_val d (519 + int b)"
  shows "layout d' rs"
proof -
  have "fslice d' a n = fslice d a n" if "2329 \<le> a" for a n
  proof -
    have "drop a d' = drop (a - 2329) (drop 2329 d')" "drop a d = drop (a - 2329) (drop 2329 d)"
      using that by (simp_all add: drop_drop)
    then show ?thesis
      by (simp add: fslice_def rest)
  qed
  moreover have "2329 \<le> rec_pos rs i" "2329 \<le> rec_pos rs i + k" for i k
    using rec_pos_ge [of rs i] by simp_all
  ultimately show ?thesis
    using l len b by (simp add: layout_def)
qed

lemma holds_cong:
  assumes "holds bkt body valid (bytes f) es" "fdno f \<noteq> -1" "fdno g = fdno f"
    and "length (bytes g) = length (bytes f)" "drop 2329 (bytes g) = drop 2329 (bytes f)"
    and fld: "\<And>j. hdr_valid j \<Longrightarrow> 263 \<le> j \<Longrightarrow> get_header_field g j = get_header_field f j"
  shows "holds bkt body valid (bytes g) es"
proof -
  have l: "layout (bytes f) (raws bkt body es)"
    using assms(1) by (simp add: holds_def)
  have "hdr_val (bytes g) j = hdr_val (bytes f) j" if "hdr_valid j" "263 \<le> j" for j
    using fld [OF that] that assms(2-4) layoutD(3) [OF l]
    by (simp add: get_header_field_eq)
  then have "layout (bytes g) (raws bkt body es)"
    using assms(4,5) by (intro layout_cong [OF l]) (simp_all add: hdr_valid_def)
  then show ?thesis
    using assms(1) by (simp add: holds_def)
qed
lemma holds_length:
  assumes "holds bkt body valid d es"
  shows "length d = HEADER_SIZE + sum_list (map (\<lambda>e. length (body e) + 4) es)"
  using layoutD(1) [of d "raws bkt body es"] assms
  by (simp add: holds_def rec_pos_def raws_def comp_def rec_len_def)

lemma insert_unique_distinct:
  "distinct (map key es) \<Longrightarrow> distinct (map key (snd (insert_unique key e es)))"
  by (auto simp: insert_unique_def)

lemma insert_bytes_header:
  assumes "layout d rs" "b < 256"
  shows "take 281 (insert_bytes d rs b buf) = take 281 d"
proof -
  have "2329 \<le> rec_pos rs (Suc (last (chain rs b))) - 4" if "chain rs b \<noteq> []"
    using last_chain [OF that] rec_pos_ge [of rs "last (chain rs b)"] by (simp add: rec_pos_Suc rec_len_def)
  then have "fslice (insert_bytes d rs b buf) 0 281 = fslice (d @ buf) 0 281"
    using assms(2) layoutD(3) [OF assms(1)]
    by (intro fslice_insert_bytes [OF assms]) (auto simp: hdr_off_def)
  then show ?thesis
    using layoutD(3) [OF assms(1)] by (simp add: fslice_def)
qed

section \<open>The interface of an entry kind\<close>

text \<open>
  What the shared store code needs from an entry kind: entries with one key share a bucket,
  and the comparison the code passes decides key equality against any record it is placed
  at. \<open>rep r e\<close> says that the run-time record \<open>r\<close> stands for the entry \<open>e\<close>.
\<close>

locale entry_codec =
  fixes body :: "'e \<Rightarrow> byte list" and bkt :: "'e \<Rightarrow> nat" and key :: "'e \<Rightarrow> 'k"
    and valid :: "'e \<Rightarrow> bool" and rep :: "'r \<Rightarrow> 'e \<Rightarrow> bool" and cmp :: "fdesc \<Rightarrow> 'r \<Rightarrow> u32 \<Rightarrow> int"
  assumes raw: "valid e \<Longrightarrow> raw_ok (bkt e, body e)"
    and bkt_key: "valid e \<Longrightarrow> valid e' \<Longrightarrow> key e = key e' \<Longrightarrow> bkt e = bkt e'"
    and cmp: "valid e \<Longrightarrow> valid e' \<Longrightarrow> rep r e \<Longrightarrow> placed (bytes f) off (body e') \<Longrightarrow>
      cmp f r off = (if key e = key e' then 0 else 1)"
begin

lemma cmp_at:
  assumes h: "holds bkt body valid (bytes f) es" and v: "valid e" and r: "rep r e" and j: "j < length es"
  shows "cmp f r (rel_pos (raws bkt body es) j) = (if key e = key (es ! j) then 0 else 1)"
  using h j layout_placed [of "bytes f" "raws bkt body es" j] v r
  by (intro cmp) (auto simp: holds_def list_all_length)

lemma key_in_chain:
  assumes h: "list_all valid es" and v: "valid e"
  shows "(\<exists>j\<in>set (chain (raws bkt body es) (bkt e)). key e = key (es ! j)) \<longleftrightarrow> key e \<in> key ` set es"
proof -
  have "bkt (es ! j) = bkt e" if "j < length es" "key e = key (es ! j)" for j
    using bkt_key [OF v, of "es ! j"] h that by (simp add: list_all_length)
  then have "(\<exists>j\<in>set (chain (raws bkt body es) (bkt e)). key e = key (es ! j)) \<longleftrightarrow>
      (\<exists>j<length es. key e = key (es ! j))"
    unfolding chain_raws by blast
  also have "\<dots> \<longleftrightarrow> key e \<in> key ` set es"
    unfolding image_iff Bex_def in_set_conv_nth by blast
  finally show ?thesis .
qed

lemma holds_insert:
  assumes h: "holds bkt body valid d es" and v: "valid e"
    and fits: "length d + length (body e) + 4 < EMPTY_BUCKET"
  shows "holds bkt body valid
    (insert_bytes d (raws bkt body es) (bkt e) (body e @ le_bytes 4 0)) (es @ [e])"
  using h v layout_insert [of d "raws bkt body es" "bkt e" "body e"] raw [OF v] fits
  by (simp add: holds_def raws_snoc)

text \<open>The append of a valid entry implements \<open>insert_unique\<close>.\<close>

lemma append_refines:
  assumes fd: "fdno f \<noteq> -1" "o_append f" "setlkw_ok f" and h: "holds bkt body valid (bytes f) es"
    and v: "valid e" and r: "rep r e"
    and lim: "length (bytes f) + length (body e) + 4 \<le> file_limit f"
      "length (bytes f) + length (body e) + 4 < EMPTY_BUCKET"
  shows "\<exists>g. append_locked f (int (bkt e)) (cmp f r) (body e @ le_bytes 4 0) (word_of_nat (length (body e) + 4)) =
      Ret (fst (insert_unique key e es), g) \<and>
    holds bkt body valid (bytes g) (snd (insert_unique key e es)) \<and>
    g = f\<lparr>bytes := bytes g, fpos := fpos g\<rparr> \<and> take 281 (bytes g) = take 281 (bytes f)"
proof -
  let ?rs = "raws bkt body es" and ?buf = "body e @ le_bytes 4 0"
  have l: "layout (bytes f) ?rs" and b: "bkt e < 256"
    using h raw [OF v] by (simp_all add: holds_def raw_ok_def)
  have ne: "?buf \<noteq> []"
    using length_le_bytes [of 4 0] by (metis append_is_Nil_conv list.size(3) zero_neq_numeral)
  have sz: "unat (word_of_nat (length (body e) + 4) :: u32) = length ?buf"
    using lim(2) by (simp only: unat_of_nat) simp
  have lim': "length (bytes f) + length ?buf \<le> file_limit f" "length (bytes f) + length ?buf < EMPTY_BUCKET"
    using lim by simp_all
  note w = write_to_db_ok [OF fd(1,2) l b sz ne lim']
  have scan: "append_locked f (int (bkt e)) (cmp f r) ?buf (word_of_nat (length (body e) + 4)) =
    (if \<exists>j\<in>set (chain ?rs (bkt e)). key e = key (es ! j) then Ret (1, f)
     else c_bind (write_to_db f ?buf (word_of_nat (length (body e) + 4)) (int (bkt e))) (\<lambda>(_, f). Ret (0, f)))"
    by (rule append_locked_scan [OF l fd(1,3) b]) (simp add: cmp_at [OF h v r] chain_raws)
  have "list_all valid es"
    using h by (simp add: holds_def)
  note found = key_in_chain [OF this v]
  show ?thesis
  proof (cases "key e \<in> key ` set es")
    case True
    then show ?thesis
      using scan found h by (intro exI [of _ f]) (simp add: insert_unique_def)
  next
    case False
    then show ?thesis
      using scan found w holds_insert [OF h v lim(2)] insert_bytes_header [OF l b]
      by (simp add: insert_unique_def)
  qed
qed

end

end
