(* ===== verification/Fileops.thy ===== *)
theory Fileops
  imports Db_Entry
begin

text \<open>
  File entries, from \<open>src/db_fileops_utils.c\<close>: the two FNV-1a loops, building an entry
  from what \<open>lstat\<close> and \<open>readlink\<close> report, comparing an entry with a record of the
  file, and appending it. The codec of file entries is interpreted at \<open>entry_codec\<close>, with
  the path hash and the path as key.
\<close>

section \<open>The code\<close>

text \<open>
  The path hash. The characters of a path are signed \<open>char\<close>s on the platform, so a byte
  from 128 on is sign-extended before it is xored in.
\<close>

unbundle bit_operations_syntax

definition fnv1a :: "byte list \<Rightarrow> u64" where
  "fnv1a str = foldl (\<lambda>hash c. (hash XOR scast c) * 1099511628211) 14695981039346656037 str"

definition checksum_bytes :: "byte list \<Rightarrow> u64" where
  "checksum_bytes bs =
     foldl (\<lambda>hash c. (hash XOR ucast c) * 1099511628211) 14695981039346656037 bs"

text \<open>
  \<open>checksum_content\<close>. \<open>opened\<close> is the content of the file the path names, or \<open>None\<close> when
  \<open>open\<close> or \<open>mmap\<close> fails. A mapping longer than the file reads zeros up to the end of
  the last page (4096 bytes); an access behind that page kills the process.
\<close>

definition checksum_content :: "byte list option \<Rightarrow> u64 \<Rightarrow> u64 outcome" where
  "checksum_content opened file_size =
     (if file_size = 0 then Ret 0
      else case opened of
        None \<Rightarrow> Ret 0
      | Some content \<Rightarrow>
          (let n = unat file_size; mapped = (length content + 4095) div 4096 * 4096
           in if mapped < n then UB
              else Ret (checksum_bytes (take n (content @ replicate (mapped - length content) 0)))))"

text \<open>
  What the operating system answers about one path: \<open>lstat\<close>, the target \<open>readlink\<close>
  reads, and whether the two allocations succeed.
\<close>

datatype file_kind = S_REG | S_DIR | S_LNK | S_CHR | S_BLK | S_FIFO | S_SOCK | S_OTHER

record file_stat =
  st_kind :: file_kind
  st_size :: u64
  st_mtime :: u64
  st_dev :: u64
  st_ino :: u64

record sys_file =
  sys_lstat :: "file_stat option"
  sys_readlink :: "byte list option"
  sys_malloc :: bool
  sys_realloc :: bool

definition strncpy :: "byte list \<Rightarrow> nat \<Rightarrow> byte list" where
  "strncpy s n = take n s @ replicate (n - length s) 0"

definition type_name :: "file_kind \<Rightarrow> byte list option" where
  "type_name k =
     (case k of
        S_REG \<Rightarrow> Some (bytes_of ''regular'') | S_DIR \<Rightarrow> Some (bytes_of ''directory'')
      | S_LNK \<Rightarrow> Some (bytes_of ''symlink'') | S_CHR \<Rightarrow> Some (bytes_of ''chardev'')
      | S_BLK \<Rightarrow> Some (bytes_of ''blockdev'') | S_FIFO \<Rightarrow> Some (bytes_of ''fifo'')
      | S_SOCK \<Rightarrow> Some (bytes_of ''socket'') | S_OTHER \<Rightarrow> None)"

text \<open>
  The symlink part: the stored path becomes \<open><path>-><target>\<close>. A failing \<open>readlink\<close>
  makes \<open>target[len]\<close> a write before the array; a path that fills \<open>temp_path\<close> leaves it
  without a terminating NUL.
\<close>

definition build_symlink :: "sys_file \<Rightarrow> byte list \<Rightarrow> db_fileops_entry \<Rightarrow> (int \<times> db_fileops_entry) outcome" where
  "build_symlink sys path entry =
     (case sys_readlink sys of
        None \<Rightarrow> UB
      | Some link \<Rightarrow>
          (let target = c_str (take (PATH_MAX - 1) link) in
           if PATH_MAX \<le> length path then UB
           else let new_len = length path + length target + 3;
                    new_len = (if PATH_MAX < new_len then PATH_MAX - 1 else new_len)
                in if \<not> sys_realloc sys then Ret (1, entry\<lparr>f_absolute_path := []\<rparr>)
                   else Ret (0, entry\<lparr>
                     f_absolute_path := take (new_len - 1) (path @ bytes_of ''->'' @ target) @ [0],
                     f_path_len := word_of_nat new_len,
                     f_entry_size := word_of_nat new_len + TYPE_LEN_MAX + CHECKSUM_LEN + 6 * 4 + 2 * 8\<rparr>)))"

text \<open>
  \<open>build_fileops_entry\<close> on the C string \<open>path\<close> (without its NUL). For a file that is none
  of the seven kinds the type keeps what the entry held before.
\<close>

definition build_fileops_entry ::
  "sys_file \<Rightarrow> byte list \<Rightarrow> db_fileops_entry \<Rightarrow> (int \<times> db_fileops_entry) outcome" where
  "build_fileops_entry sys path entry =
     (case sys_lstat sys of
        None \<Rightarrow> Ret (1, entry)
      | Some st \<Rightarrow>
          (let path_len = (word_of_nat (length path) :: u32);
               path_len = (if PATH_MAX \<le> path_len then PATH_MAX - 1 else path_len);
               entry = entry\<lparr>f_size_bytes := st_size st, f_mtime := ucast (st_mtime st),
                             f_hash := fnv1a (take (unat path_len) path),
                             f_dev := ucast (st_dev st), f_inode := ucast (st_ino st),
                             f_next_entry_bucket := 0\<rparr>
           in if \<not> sys_malloc sys then Ret (1, entry\<lparr>f_absolute_path := []\<rparr>)
              else let entry = entry\<lparr>
                         f_absolute_path := take (unat path_len) path @ [0],
                         f_path_len := path_len + 1,
                         f_entry_size := path_len + 1 + TYPE_LEN_MAX + CHECKSUM_LEN + 6 * 4 + 2 * 8,
                         f_type := (case type_name (st_kind st) of
                                      Some s \<Rightarrow> strncpy s TYPE_LEN_MAX | None \<Rightarrow> f_type entry)[15 := 0],
                         f_checksum := (if st_kind st = S_REG then 1 else 0)\<rparr>
                   in if st_kind st = S_LNK then build_symlink sys path entry
                      else Ret (0, entry)))"

text \<open>
  \<open>compare_fileops_entries\<close>: 1 for different keys, 0 for equal keys, -1 on an error. The
  stored path length is a signed \<open>int\<close> in the code.
\<close>

definition compare_fileops_entries :: "fdesc \<Rightarrow> db_fileops_entry \<Rightarrow> u32 \<Rightarrow> int" where
  "compare_fileops_entries f entry db_entry_offset =
     (let db_entry_offset = db_entry_offset + HEADER_SIZE;
          (read_bytes, db_path_len) =
            pread_u32 f (uint (db_entry_offset + IDX_PATH_LEN_OFFSET)) (stack_junk f)
      in if read_bytes \<noteq> 4 then (if read_bytes = 0 then 1 else -1)
         else if f_path_len entry \<noteq> db_path_len then 1
         else let db_hash_offset = IDX_ABS_PATH_OFFSET + TYPE_LEN_MAX + sint db_path_len + 8 + 8 + 4
              in case pread_exact f 8 (uint db_entry_offset + db_hash_offset) of
                   None \<Rightarrow> -1
                 | Some db_hash \<Rightarrow>
                     if f_hash entry \<noteq> word_of_nat (le_nat db_hash) then 1
                     else case pread_exact f (sint db_path_len) (uint (db_entry_offset + IDX_ABS_PATH_OFFSET)) of
                            None \<Rightarrow> -1
                          | Some db_path \<Rightarrow>
                              if take (length db_path) (f_absolute_path entry) \<noteq> db_path then 1 else 0)"

text \<open>The pointers and sizes of the fields, in file order.\<close>

definition fileops_fields :: "db_fileops_entry \<Rightarrow> (byte list \<times> nat) list" where
  "fileops_fields entry =
     [(le_bytes 4 (unat (f_entry_size entry)), 4),
      (le_bytes 4 (unat (f_path_len entry)), 4),
      (f_absolute_path entry, unat (f_path_len entry)),
      (f_type entry, TYPE_LEN_MAX),
      (le_bytes 8 (unat (f_checksum entry)), 8),
      (le_bytes 8 (unat (f_size_bytes entry)), 8),
      (le_bytes 4 (unat (f_mtime entry)), 4),
      (le_bytes 8 (unat (f_hash entry)), 8),
      (le_bytes 4 (unat (f_dev entry)), 4),
      (le_bytes 4 (unat (f_inode entry)), 4),
      (le_bytes 4 (unat (f_next_entry_bucket entry)), 4)]"

text \<open>
  \<open>append_fileops_entry\<close>. \<open>fs\<close> gives the content of the file a path names; the entry is
  updated in place with its checksum.
\<close>

definition append_fileops_entry ::
  "(byte list \<Rightarrow> byte list option) \<Rightarrow> fdesc \<Rightarrow> db_fileops_entry \<Rightarrow> (int \<times> fdesc \<times> db_fileops_entry) outcome" where
  "append_fileops_entry fs f entry =
     (if fdno f < 0 then Ret (-1, f, entry) else
      c_bind (if f_checksum entry = 1
              then checksum_content (fs (c_str (f_absolute_path entry))) (f_size_bytes entry)
              else Ret (f_checksum entry)) (\<lambda>checksum.
      let entry = entry\<lparr>f_checksum := checksum\<rparr> in
      c_bind (copy_fields [] (fileops_fields entry)) (\<lambda>buffer.
      if length buffer \<noteq> unat (f_entry_size entry) then Ret (-1, f, entry) else
      let entry_bucket = uint (f_hash entry mod BUCKET_COUNT) in
      c_bind (append_locked f entry_bucket (compare_fileops_entries f entry) buffer (f_entry_size entry)) (\<lambda>(r, f).
      Ret (r, f, entry)))))"

section \<open>The codec of file entries\<close>

definition f_valid :: "db_fileops_entry \<Rightarrow> bool" where
  "f_valid e \<longleftrightarrow>
     length (f_absolute_path e) = unat (f_path_len e) \<and> f_path_len e \<le> PATH_MAX \<and>
     f_entry_size e = f_path_len e + 64 \<and> length (f_type e) = TYPE_LEN_MAX \<and>
     f_next_entry_bucket e = 0 \<and> has_nul (f_absolute_path e) \<and> has_nul (f_type e)"

definition f_body :: "db_fileops_entry \<Rightarrow> byte list" where
  "f_body e =
     le_bytes 4 (unat (f_entry_size e)) @ le_bytes 4 (unat (f_path_len e)) @
     f_absolute_path e @ f_type e @ le_bytes 8 (unat (f_checksum e)) @
     le_bytes 8 (unat (f_size_bytes e)) @ le_bytes 4 (unat (f_mtime e)) @
     le_bytes 8 (unat (f_hash e)) @ le_bytes 4 (unat (f_dev e)) @ le_bytes 4 (unat (f_inode e))"

definition f_key :: "db_fileops_entry \<Rightarrow> u64 \<times> byte list" where
  "f_key e = (f_hash e, f_absolute_path e)"

definition f_bkt :: "db_fileops_entry \<Rightarrow> nat" where
  "f_bkt e = unat (f_hash e mod BUCKET_COUNT)"

definition f_rep :: "db_fileops_entry \<Rightarrow> db_fileops_entry \<Rightarrow> bool" where
  "f_rep r e \<longleftrightarrow>
     f_path_len r = f_path_len e \<and> f_hash r = f_hash e \<and>
     take (unat (f_path_len e)) (f_absolute_path r) = f_absolute_path e \<and>
     f_type r = f_type e \<and> f_checksum r = f_checksum e \<and> f_size_bytes r = f_size_bytes e \<and>
     f_mtime r = f_mtime e"

lemma f_valid_sizes:
  assumes "f_valid e"
  shows "length (f_body e) = unat (f_path_len e) + 60" "unat (f_path_len e) \<le> 4096"
    and "unat (f_entry_size e) = unat (f_path_len e) + 64"
proof -
  show p: "unat (f_path_len e) \<le> 4096"
    using assms by (simp add: f_valid_def word_le_nat_alt)
  show "length (f_body e) = unat (f_path_len e) + 60"
    using assms by (simp add: f_body_def f_valid_def)
  have "f_entry_size e = f_path_len e + word_of_nat 64"
    using assms by (simp add: f_valid_def)
  then show "unat (f_entry_size e) = unat (f_path_len e) + 64"
    using unat_add_nat [of "f_path_len e" 64] p by simp
qed

lemma f_body_fields:
  assumes "f_valid e" and n: "n = unat (f_path_len e)"
  shows "fslice (f_body e) 0 4 = le_bytes 4 (unat (f_entry_size e))"
    and "fslice (f_body e) 4 4 = le_bytes 4 (unat (f_path_len e))"
    and "fslice (f_body e) 8 n = f_absolute_path e"
    and "fslice (f_body e) (8 + n) 16 = f_type e"
    and "fslice (f_body e) (24 + n) 8 = le_bytes 8 (unat (f_checksum e))"
    and "fslice (f_body e) (32 + n) 8 = le_bytes 8 (unat (f_size_bytes e))"
    and "fslice (f_body e) (40 + n) 4 = le_bytes 4 (unat (f_mtime e))"
    and "fslice (f_body e) (44 + n) 8 = le_bytes 8 (unat (f_hash e))"
  using assms by (simp_all add: f_valid_def f_body_def slice_simps)

lemma f_raw_ok: "f_valid e \<Longrightarrow> raw_ok (f_bkt e, f_body e)"
  using f_valid_sizes [of e] f_body_fields(1) [of e]
  by (simp add: raw_ok_def rec_len_def f_bkt_def unat_mod256 add.commute)

lemma f_bkt_key: "f_key e = f_key e' \<Longrightarrow> f_bkt e = f_bkt e'"
  by (simp add: f_key_def f_bkt_def)

lemma compare_fileops_ok:
  assumes v: "f_valid e" and v': "f_valid e'" and r: "f_rep r e" and p: "placed (bytes f) off (f_body e')"
  shows "compare_fileops_entries f r off = (if f_key e = f_key e' then 0 else 1)"
proof -
  let ?n = "unat (f_path_len e')"
  note sz = f_valid_sizes [OF v'] and flds = f_body_fields [OF v' refl]
  have len: "length (f_absolute_path e) = unat (f_path_len e)" "length (f_absolute_path e') = ?n"
    using v v' by (simp_all add: f_valid_def)
  have small: "?n < 2147483648"
    using sz(2) by simp
  have off: "uint (off + 2329 + 4) = int (unat off + 2329 + 4)" "uint (off + 2329 + 8) = int (unat off + 2329 + 8)"
    "uint (off + 2329) = int (unat off + 2329)"
    using placed_offset [OF p, of 4] placed_offset [OF p, of 8] sz(1) by simp_all
  have rd1: "pread_u32 f (uint (off + 2329 + 4)) (stack_junk f) = (4, f_path_len e')"
    unfolding off(1) using placed_pread_u32 [OF p, of 4] sz(1) flds(2) by (simp add: le_nat_le_bytes32)
  have rd2: "pread_exact f 8 (uint (off + 2329) + (8 + 16 + sint (f_path_len e') + 8 + 8 + 4)) =
      Some (le_bytes 8 (unat (f_hash e')))"
    using placed_exact [OF p, of "44 + ?n" 8] sz(1) flds(8)
    by (simp add: off(3) sint_small [OF small])
  have rd3: "pread_exact f (sint (f_path_len e')) (uint (off + 2329 + 8)) = Some (f_absolute_path e')"
    unfolding off(2) using placed_exact [OF p, of 8 ?n] sz(1) flds(3) by (simp add: sint_small [OF small])
  have "compare_fileops_entries f r off =
      (if f_path_len r \<noteq> f_path_len e' \<or> f_hash r \<noteq> f_hash e' \<or>
          take ?n (f_absolute_path r) \<noteq> f_absolute_path e' then 1 else 0)"
    unfolding compare_fileops_entries_def Let_def rd1
    by (simp only: split_conv rd2 rd3 option.case le_nat_le_bytes64 of_nat_unat ucast_id len(2))
       simp
  moreover have "f_path_len r \<noteq> f_path_len e' \<Longrightarrow> f_absolute_path e \<noteq> f_absolute_path e'"
    using r len by (auto simp: f_rep_def word_unat_eq_iff)
  moreover have "f_path_len r = f_path_len e' \<Longrightarrow> take ?n (f_absolute_path r) = f_absolute_path e"
    using r by (simp add: f_rep_def)
  moreover have "f_hash r = f_hash e"
    using r by (simp add: f_rep_def)
  ultimately show ?thesis
    by (auto simp: f_key_def)
qed

interpretation fo: entry_codec f_body f_bkt f_key f_valid f_rep compare_fileops_entries
  by (rule entry_codec.intro) (rule f_raw_ok f_bkt_key compare_fileops_ok; assumption)+

section \<open>Appending and building\<close>

lemma copy_fileops_fields:
  assumes "f_valid e"
  shows "copy_fields [] (fileops_fields e) = Ret (f_body e @ le_bytes 4 0)"
proof -
  have "unat (f_path_len e) \<le> 4096" "length (f_absolute_path e) = unat (f_path_len e)"
    "length (f_type e) = 16" "f_next_entry_bucket e = 0"
    using assms f_valid_sizes(2) [OF assms] by (simp_all add: f_valid_def)
  then show ?thesis
    by (subst copy_fields_ok) (simp_all add: fileops_fields_def f_body_def)
qed

lemma f_checksum_update:
  "f_valid (e\<lparr>f_checksum := c\<rparr>) = f_valid e" "f_key (e\<lparr>f_checksum := c\<rparr>) = f_key e"
  "f_valid e \<Longrightarrow> f_rep e e"
  by (simp_all add: f_valid_def f_key_def f_rep_def)

lemma append_fileops_steps:
  assumes fd: "0 \<le> fdno f" and v: "f_valid e"
    and c: "(if f_checksum e = 1 then checksum_content (fs (c_str (f_absolute_path e))) (f_size_bytes e)
             else Ret (f_checksum e)) = Ret c" and e': "e' = e\<lparr>f_checksum := c\<rparr>"
  shows "append_fileops_entry fs f e =
    c_bind (append_locked f (int (f_bkt e')) (compare_fileops_entries f e') (f_body e' @ le_bytes 4 0)
              (word_of_nat (length (f_body e') + 4))) (\<lambda>(r, f). Ret (r, f, e'))"
proof -
  have v': "f_valid e'"
    using v by (simp add: e' f_checksum_update)
  note sz = f_valid_sizes [OF v']
  have es: "length (f_body e') + 4 = unat (f_entry_size e')"
    using sz by simp
  have "f_entry_size e = f_entry_size e'"
    by (simp add: e')
  with es have es': "length (f_body e') + 4 = unat (f_entry_size e)"
    by simp
  have b: "uint (f_hash e' mod 256) = int (f_bkt e')"
    by (simp only: f_bkt_def uint_nat)
  show ?thesis
    unfolding append_fileops_entry_def Let_def c
    using fd copy_fileops_fields [OF v'] es es' b by (simp add: e' [symmetric])
qed

definition demo_file :: db_fileops_entry where
  "demo_file =
     \<lparr>f_entry_size = 67, f_path_len = 3, f_absolute_path = bytes_of ''/a'' @ [0],
      f_type = strncpy (bytes_of ''directory'') 16, f_checksum = 0, f_size_bytes = 0,
      f_mtime = 7, f_hash = 0x1f, f_dev = 1, f_inode = 2, f_next_entry_bucket = 0\<rparr>"

lemma demo_file_valid: "f_valid demo_file" "f_checksum demo_file = 0"
  by (simp_all add: f_valid_def demo_file_def strncpy_def bytes_of_def has_nul_def)

text \<open>The path a symlink entry stores: path, arrow, target, cut to 4094 bytes when it is too long.\<close>

definition symlink_text :: "byte list \<Rightarrow> byte list \<Rightarrow> byte list" where
  "symlink_text path link =
     (let t = path @ bytes_of ''->'' @ c_str (take 4095 link)
      in if PATH_MAX \<le> length t then take 4094 t else t)"

lemma unat_word_small: "n \<le> 4096 \<Longrightarrow> unat (word_of_nat n :: u32) = n"
  by (simp add: unat_of_nat)

lemma replicate_update_same: "(replicate n x)[i := x] = replicate n x"
  by (cases "i < n") (simp_all add: list_update_same_conv list_update_beyond)

lemma type_name_ok:
  assumes "length t = 16"
  shows "length ((case type_name k of Some s \<Rightarrow> strncpy s 16 | None \<Rightarrow> t)[15 := 0]) = 16"
    and "has_nul ((case type_name k of Some s \<Rightarrow> strncpy s 16 | None \<Rightarrow> t)[15 := 0])"
    and "type_name k = Some s \<Longrightarrow>
      c_str ((case type_name k of Some s \<Rightarrow> strncpy s 16 | None \<Rightarrow> t)[15 := 0]) = s"
proof -
  let ?t = "(case type_name k of Some s \<Rightarrow> strncpy s 16 | None \<Rightarrow> t)"
  have l: "length ?t = 16"
    using assms by (cases k) (simp_all add: type_name_def strncpy_def bytes_of_def)
  then show "length (?t[15 := 0]) = 16"
    by simp
  show "has_nul (?t[15 := 0])"
    using l by (simp add: has_nul_def set_update_memI)
  show "c_str (?t[15 := 0]) = s" if "type_name k = Some s"
    using that by (cases k) (auto simp: type_name_def strncpy_def bytes_of_def c_str_def replicate_update_same)
qed

lemma build_symlink_ok:
  assumes "sys_realloc sys" "sys_readlink sys = Some link" "length path < 4096" "0 \<notin> set path"
  shows "\<exists>n. build_symlink sys path e = Ret (0, e\<lparr>f_absolute_path := symlink_text path link @ [0],
      f_path_len := n, f_entry_size := n + 64\<rparr>) \<and>
    unat n = length (symlink_text path link) + 1 \<and> n \<le> 4096 \<and> 0 \<notin> set (symlink_text path link)"
proof -
  define t where "t = path @ bytes_of ''->'' @ c_str (take 4095 link)"
  have st: "symlink_text path link = (if 4096 \<le> length t then take 4094 t else t)"
    by (simp only: symlink_text_def Let_def t_def)
  define n where "n = (if 4096 < length t + 1 then 4095 else length t + 1)"
  have nn: "n \<le> 4096" "take (n - 1) t = symlink_text path link" "n = length (symlink_text path link) + 1"
    by (simp_all add: st n_def)
  have z: "0 \<notin> set (symlink_text path link)"
    using assms(4) c_str_no_nul [of "take 4095 link"]
    by (auto simp: symlink_text_def Let_def bytes_of_def dest: in_set_takeD)
  have len: "length path + length (c_str (take 4095 link)) + 3 = length t + 1"
    by (simp add: t_def bytes_of_def)
  have tk: "(4096 - 1 :: nat) = 4095"
    by simp
  have "build_symlink sys path e = Ret (0, e\<lparr>f_absolute_path := symlink_text path link @ [0],
      f_path_len := word_of_nat n, f_entry_size := word_of_nat n + 64\<rparr>)"
    unfolding build_symlink_def assms(2) Let_def option.case tk len t_def [symmetric] n_def [symmetric]
    using assms(1,3) nn(2) by (simp add: add.commute)
  moreover have "unat (word_of_nat n :: u32) = n"
    by (rule unat_word_small [OF nn(1)])
  moreover from this have "(word_of_nat n :: u32) \<le> 4096"
    using nn(1) by (simp add: word_le_nat_alt)
  ultimately show ?thesis
    using nn(3) z by (intro exI [of _ "word_of_nat n"]) simp
qed

lemma append_fileops_ok:
  assumes "0 \<le> fdno f" "o_append f" "setlkw_ok f"
    and "holds f_bkt f_body f_valid (bytes f) es" "f_valid e"
    and "(if f_checksum e = 1 then checksum_content (fs (c_str (f_absolute_path e))) (f_size_bytes e)
          else Ret (f_checksum e)) = Ret c"
    and "length (bytes f) + length (f_body e) + 4 \<le> file_limit f"
    and "length (bytes f) + length (f_body e) + 4 < EMPTY_BUCKET"
  shows "\<exists>g. append_fileops_entry fs f e =
      Ret (fst (insert_unique f_key (e\<lparr>f_checksum := c\<rparr>) es), g, e\<lparr>f_checksum := c\<rparr>) \<and>
    holds f_bkt f_body f_valid (bytes g) (snd (insert_unique f_key (e\<lparr>f_checksum := c\<rparr>) es)) \<and>
    g = f\<lparr>bytes := bytes g, fpos := fpos g\<rparr> \<and> take 281 (bytes g) = take 281 (bytes f)"
proof -
  let ?e = "e\<lparr>f_checksum := c\<rparr>"
  have v: "f_valid ?e" "f_rep ?e ?e"
    using assms(5) f_checksum_update(1) [of c e] f_checksum_update(3) [of "?e"] by simp_all
  have "length (f_body ?e) = length (f_body e)"
    using f_valid_sizes(1) [OF v(1)] f_valid_sizes(1) [OF assms(5)] by simp
  then obtain g where "append_locked f (int (f_bkt ?e)) (compare_fileops_entries f ?e)
      (f_body ?e @ le_bytes 4 0) (word_of_nat (length (f_body ?e) + 4)) =
      Ret (fst (insert_unique f_key ?e es), g)"
    and g: "holds f_bkt f_body f_valid (bytes g) (snd (insert_unique f_key ?e es))"
      "g = f\<lparr>bytes := bytes g, fpos := fpos g\<rparr>" "take 281 (bytes g) = take 281 (bytes f)"
    using fo.append_refines [OF _ assms(2,3,4) v] assms(1,7,8) by fastforce
  then show ?thesis
    using append_fileops_steps [of f e fs c ?e, OF assms(1,5,6) refl] by (intro exI [of _ g]) simp
qed

section \<open>Properties\<close>

text \<open>
  C7. \<open>append_fileops_entry\<close> implements the insertion into a set of entries keyed by path
  hash and path: on a snapshot file that holds the entries \<open>es\<close> it returns 1 and changes
  nothing when the key is present, and otherwise returns 0 and leaves a well-formed file
  that holds \<open>es\<close> followed by the entry with its checksum filled in, its header fields
  before the buckets unchanged.
\<close>

theorem append_fileops_entry_correct:
  assumes "0 \<le> fdno f" "o_append f" "setlkw_ok f"
    and "holds f_bkt f_body f_valid (bytes f) es" "f_valid e"
    and "(if f_checksum e = 1 then checksum_content (fs (c_str (f_absolute_path e))) (f_size_bytes e)
          else Ret (f_checksum e)) = Ret c"
    and "length (bytes f) + length (f_body e) + 4 \<le> file_limit f"
    and "length (bytes f) + length (f_body e) + 4 < EMPTY_BUCKET"
  shows "\<exists>g. append_fileops_entry fs f e =
      Ret (fst (insert_unique f_key (e\<lparr>f_checksum := c\<rparr>) es), g, e\<lparr>f_checksum := c\<rparr>) \<and>
    holds f_bkt f_body f_valid (bytes g) (snd (insert_unique f_key (e\<lparr>f_checksum := c\<rparr>) es)) \<and>
    g = f\<lparr>bytes := bytes g, fpos := fpos g\<rparr> \<and> take 281 (bytes g) = take 281 (bytes f)"
  by (rule append_fileops_ok [where fs = fs, OF assms])

theorem append_fileops_entry_correct_witness:
  "\<exists>g. append_fileops_entry (\<lambda>_. None) (demo_fd (init_header 0 7)) demo_file = Ret (0, g, demo_file) \<and>
    holds f_bkt f_body f_valid (bytes g) [demo_file]"
proof -
  have s: "demo_file\<lparr>f_checksum := 0\<rparr> = demo_file"
    by (simp add: demo_file_def)
  have l: "length (f_body demo_file) = 63"
    using f_valid_sizes(1) [OF demo_file_valid(1)] by (simp add: demo_file_def)
  show ?thesis
    using append_fileops_entry_correct [of "demo_fd (init_header 0 7)" "[]" demo_file "\<lambda>_. None" 0]
    by (auto simp: demo_file_valid holds_init length_init_header l s insert_unique_def)
qed

text \<open>
  C27. \<open>build_fileops_entry\<close> on a path shorter than \<open>PATH_MAX\<close> succeeds and builds a valid
  entry: its path is the given path, or path, arrow and target for a symlink, its hash is
  that of the given path, its type names the kind of the file, and only a regular file is
  marked for a checksum. So the hash of a symlink is not that of the path the entry holds,
  and the target is the text of the link, relative or not; \<open>doc/FORMAT.md\<close> describes the hash
  as that of \<open>ABS_PATH\<close> and the target as an absolute path. The example has both.
\<close>

theorem build_fileops_entry_correct:
  assumes "sys_lstat sys = Some st" "sys_malloc sys" "sys_realloc sys"
    and "st_kind st = S_LNK \<Longrightarrow> sys_readlink sys = Some link"
    and "length path < PATH_MAX" "0 \<notin> set path" "length (f_type e) = TYPE_LEN_MAX"
  shows "\<exists>e'. build_fileops_entry sys path e = Ret (0, e') \<and> f_valid e' \<and>
    f_absolute_path e' = (if st_kind st = S_LNK then symlink_text path link else path) @ [0] \<and>
    f_hash e' = fnv1a path \<and> f_size_bytes e' = st_size st \<and> f_mtime e' = ucast (st_mtime st) \<and>
    f_checksum e' = (if st_kind st = S_REG then 1 else 0) \<and>
    (\<forall>s. type_name (st_kind st) = Some s \<longrightarrow> c_str (f_type e') = s)"
proof -
  let ?l = "word_of_nat (length path) :: u32"
  have ul: "unat ?l = length path"
    using assms(5) by (intro unat_word_small) simp
  then have short: "\<not> 4096 \<le> ?l" "?l + 1 \<le> 4096" "unat (?l + 1) = length path + 1"
    using assms(5) unat_add_nat [of ?l 1] by (simp_all add: word_le_nat_alt)
  define e1 where "e1 = e\<lparr>f_size_bytes := st_size st, f_mtime := ucast (st_mtime st), f_hash := fnv1a path,
      f_dev := ucast (st_dev st), f_inode := ucast (st_ino st), f_next_entry_bucket := 0,
      f_absolute_path := path @ [0], f_path_len := ?l + 1, f_entry_size := ?l + 1 + 64,
      f_type := (case type_name (st_kind st) of Some s \<Rightarrow> strncpy s 16 | None \<Rightarrow> f_type e)[15 := 0],
      f_checksum := (if st_kind st = S_REG then 1 else 0)\<rparr>"
  have b: "build_fileops_entry sys path e =
      (if st_kind st = S_LNK then build_symlink sys path e1 else Ret (0, e1))"
    unfolding build_fileops_entry_def assms(1) Let_def option.case
    using assms(2) short ul by (simp add: e1_def cong: option.case_cong)
  note ty = type_name_ok [OF assms(7), of "st_kind st"]
  have v: "f_valid e1"
    using short ty(1,2) by (simp add: e1_def f_valid_def has_nul_def)
  show ?thesis
  proof (cases "st_kind st = S_LNK")
    case False
    then show ?thesis
      using b v ty(3) by (intro exI [of _ e1]) (simp add: e1_def)
  next
    case True
    obtain n where "build_symlink sys path e1 = Ret (0, e1\<lparr>f_absolute_path := symlink_text path link @ [0],
        f_path_len := n, f_entry_size := n + 64\<rparr>)"
      "unat n = length (symlink_text path link) + 1" "n \<le> 4096"
      using build_symlink_ok [OF assms(3) assms(4) [OF True] assms(5,6)] by blast
    then show ?thesis
      using b v ty(3) True
      by (intro exI [of _ "e1\<lparr>f_absolute_path := symlink_text path link @ [0], f_path_len := n, f_entry_size := n + 64\<rparr>"])
         (simp add: f_valid_def has_nul_def, simp add: e1_def)
  qed
qed

theorem build_fileops_entry_correct_witness:
  "\<exists>e'. build_fileops_entry
      \<lparr>sys_lstat = Some \<lparr>st_kind = S_LNK, st_size = 1, st_mtime = 5, st_dev = 1, st_ino = 9\<rparr>,
       sys_readlink = Some (bytes_of ''b''), sys_malloc = True, sys_realloc = True\<rparr>
      (bytes_of ''/a'') demo_file = Ret (0, e') \<and>
    f_absolute_path e' = bytes_of ''/a->b'' @ [0] \<and> f_valid e' \<and> f_hash e' \<noteq> fnv1a (bytes_of ''/a->b'')"
proof -
  have "fnv1a (bytes_of ''/a'') \<noteq> fnv1a (bytes_of ''/a->b'')"
    by (simp add: fnv1a_def bytes_of_def)
  moreover
  have "symlink_text (bytes_of ''/a'') (bytes_of ''b'') = bytes_of ''/a->b''"
    by (simp add: symlink_text_def bytes_of_def c_str_def)
  moreover have "length (f_type demo_file) = 16" "0 \<notin> set (bytes_of ''/a'')" "length (bytes_of ''/a'') < 4096"
    by (simp_all add: demo_file_def strncpy_def bytes_of_def)
  ultimately show ?thesis
    using build_fileops_entry_correct [of "\<lparr>sys_lstat = Some \<lparr>st_kind = S_LNK, st_size = 1, st_mtime = 5, st_dev = 1, st_ino = 9\<rparr>,
       sys_readlink = Some (bytes_of ''b''), sys_malloc = True, sys_realloc = True\<rparr>" _ "bytes_of ''b''" "bytes_of ''/a''" demo_file]
    by fastforce
qed

text \<open>
  C37. \<open>fnv1a\<close> agrees with the FNV-1a of \<open>checksum_content\<close> on paths of 7-bit characters.
\<close>

theorem fnv1a_ascii:
  assumes "\<forall>c \<in> set str. c < 128"
  shows "fnv1a str = checksum_bytes str"
proof -
  have "(scast c :: u64) = ucast c" if "c < (128 :: byte)" for c
  proof -
    have "c div 128 = 0"
      using that by (simp add: word_less_nat_alt word_unat_eq_iff unat_div)
    then have b7: "\<not> bit c 7"
      by (simp add: bit_iff_odd)
    have "\<not> bit c n" if "7 \<le> n" for n
    proof (cases "n = 7")
      case False
      with that show ?thesis
        using bit_imp_le_length [of c n] by auto
    qed (use b7 in simp)
    with b7 show ?thesis
      by (intro bit_word_eqI) (simp add: bit_simps min_def)
  qed
  then show ?thesis
    unfolding fnv1a_def checksum_bytes_def using assms by (intro foldl_cong) auto
qed

theorem fnv1a_ascii_witness: "fnv1a [47, 97] = checksum_bytes [47, 97]"
  by (rule fnv1a_ascii) simp

text \<open>
  On a path with a byte from 128 on \<open>fnv1a\<close> is not FNV-1a: the byte is sign-extended.
\<close>

theorem fnv1a_signed: "fnv1a [0xC3] \<noteq> checksum_bytes [0xC3]"
  by (simp add: fnv1a_def checksum_bytes_def)

end
