(* ===== verification/Proc.thy ===== *)
theory Proc
  imports Db_Entry
begin

text \<open>
  Process entries, from \<open>src/db_proc_utils.c\<close>: building an entry from the files of
  \<open>/proc/<pid>\<close>, comparing an entry with a record of the file, and appending it. The codec
  of process entries is interpreted at \<open>entry_codec\<close>, with the pid as key.
\<close>

section \<open>The code\<close>

text \<open>
  What opening and reading a \<open>/proc\<close> file gives: \<open>Gone\<close> is \<open>ENOENT\<close> or \<open>ESRCH\<close>,
  \<open>Denied\<close> another error of \<open>open\<close>, and \<open>File bs err\<close> the bytes \<open>bs\<close>, after which a
  read fails (\<open>err\<close>) or meets the end.
\<close>

datatype proc_file = Gone | Denied | File "byte list" bool

record proc_sys =
  pr_comm :: proc_file
  pr_cmdline :: proc_file
  pr_stat :: proc_file
  pr_malloc_comm :: bool
  pr_malloc_cmdline :: bool
  pr_malloc_rss :: bool
  pr_junk_user :: u64
  pr_junk_kernel :: u64

text \<open>
  The byte-wise read loop: it stops at the first failed or empty read, or on a byte read
  when the buffer of \<open>n\<close> bytes is full. The result is the buffer and the last \<open>read_bytes\<close>.
\<close>

fun read_chars :: "nat \<Rightarrow> byte list \<Rightarrow> bool \<Rightarrow> byte list \<Rightarrow> byte list \<times> int" where
  "read_chars n [] err acc = (acc, if err then -1 else 0)"
| "read_chars n (c # cs) err acc =
     (if length acc < n then read_chars n cs err (acc @ [c]) else (acc, 1))"

text \<open>
  The two terminations: the newline at the end of \<open>comm\<close> is replaced by a NUL (there is no
  last byte to replace in an empty \<open>comm\<close>: the index wraps around), a NUL is put behind
  \<open>cmdline\<close>; a full buffer loses its last byte.
\<close>

definition terminate_comm :: "byte list \<Rightarrow> byte list outcome" where
  "terminate_comm comm =
     (if comm = [] then UB else Ret (comm[length comm - 1 := 0]))"

definition terminate_cmdline :: "byte list \<Rightarrow> byte list" where
  "terminate_cmdline cmdline =
     (if length cmdline < LEN_CMDLINE_MAX then cmdline @ [0] else cmdline[LEN_CMDLINE_MAX - 1 := 0])"

text \<open>\<open>sscanf\<close>: white space in the format, an integer conversion, and the format of the code.\<close>

definition is_space :: "byte \<Rightarrow> bool" where
  "is_space c \<longleftrightarrow> c = 32 \<or> (9 \<le> c \<and> c \<le> 13)"

definition is_digit :: "byte \<Rightarrow> bool" where
  "is_digit c \<longleftrightarrow> 48 \<le> c \<and> c \<le> 57"

definition digits_value :: "byte list \<Rightarrow> nat" where
  "digits_value ds = foldl (\<lambda>n d. 10 * n + (unat d - 48)) 0 ds"

definition scan_int :: "byte list \<Rightarrow> ((bool \<times> nat) \<times> byte list) option" where
  "scan_int s =
     (let s = dropWhile is_space s;
          (neg, s) = (case s of c # t \<Rightarrow> if c = 45 then (True, t) else if c = 43 then (False, t) else (False, s)
                      | [] \<Rightarrow> (False, s));
          ds = takeWhile is_digit s
      in if ds = [] then None else Some ((neg, digits_value ds), dropWhile is_digit s))"

text \<open>\<open>atoi\<close>: the value of \<open>strtol\<close>, cut to an \<open>int\<close>.\<close>

definition atoi :: "byte list \<Rightarrow> int" where
  "atoi s =
     (case scan_int s of None \<Rightarrow> 0
      | Some ((neg, n), _) \<Rightarrow> c_int (if neg then max (- int n) (- (2 ^ 63)) else min (int n) (2 ^ 63 - 1)))"

fun skip_ints :: "nat \<Rightarrow> byte list \<Rightarrow> byte list option" where
  "skip_ints 0 s = Some s"
| "skip_ints (Suc n) s = (case scan_int s of None \<Rightarrow> None | Some (_, s) \<Rightarrow> skip_ints n s)"

text \<open>\<open>%d\<close> stores the value cut to \<open>long\<close> in 32 bits, \<open>%llu\<close> the value of \<open>strtoull\<close>.\<close>

definition conv_d :: "bool \<times> nat \<Rightarrow> u32" where
  "conv_d v = word_of_int (if fst v then max (- int (snd v)) (- (2 ^ 63)) else min (int (snd v)) (2 ^ 63 - 1))"

definition conv_llu :: "bool \<times> nat \<Rightarrow> u64" where
  "conv_llu v =
     (if 2 ^ 64 \<le> snd v then 0xFFFFFFFFFFFFFFFF
      else if fst v then - word_of_nat (snd v) else word_of_nat (snd v))"

record stat_fields =
  sf_state :: byte
  sf_ppid :: u32
  sf_user :: u64
  sf_kernel :: u64
  sf_rss :: u64

text \<open>The \<open>sscanf\<close> call; a conversion that fails leaves the remaining variables alone.\<close>

definition scan_stat :: "byte list \<Rightarrow> stat_fields \<Rightarrow> stat_fields" where
  "scan_stat s v =
     (case s of [] \<Rightarrow> v | c # s \<Rightarrow>
      let v = v\<lparr>sf_state := c\<rparr> in
      case scan_int s of None \<Rightarrow> v | Some (ppid, s) \<Rightarrow>
      let v = v\<lparr>sf_ppid := conv_d ppid\<rparr> in
      case skip_ints 9 s of None \<Rightarrow> v | Some s \<Rightarrow>
      case scan_int s of None \<Rightarrow> v | Some (user, s) \<Rightarrow>
      let v = v\<lparr>sf_user := conv_llu user\<rparr> in
      case scan_int s of None \<Rightarrow> v | Some (system, s) \<Rightarrow>
      let v = v\<lparr>sf_kernel := conv_llu system\<rparr> in
      case skip_ints 8 s of None \<Rightarrow> v | Some s \<Rightarrow>
      case scan_int s of None \<Rightarrow> v | Some (rss, s) \<Rightarrow>
      v\<lparr>sf_rss := conv_llu rss\<rparr>)"

text \<open>\<open>strrchr(s, ')')\<close>: the suffix from the last occurrence.\<close>

fun strrchr :: "byte \<Rightarrow> byte list \<Rightarrow> byte list option" where
  "strrchr c [] = None"
| "strrchr c (x # xs) =
     (case strrchr c xs of Some t \<Rightarrow> Some t | None \<Rightarrow> if x = c then Some (x # xs) else None)"

text \<open>
  The part after the three files are read: \<open>stat_buf\<close> has 512 bytes, so a read of 512
  bytes puts the NUL behind it, and a \<open>stat\<close> without a closing parenthesis (or that ends
  right behind it) is scanned from outside the string.
\<close>

definition fill_proc_entry ::
  "proc_sys \<Rightarrow> int \<Rightarrow> byte list \<Rightarrow> byte list \<Rightarrow> byte list \<Rightarrow> db_proc_entry \<Rightarrow> (int \<times> db_proc_entry) outcome" where
  "fill_proc_entry sys pid comm cmdline stat_buf entry =
     (if LEN_STAT_MAX \<le> length stat_buf then UB else
      case strrchr 41 (c_str stat_buf) of None \<Rightarrow> UB | Some other \<Rightarrow>
      if length other < 2 then UB else
      let v = scan_stat (drop 2 other)
                \<lparr>sf_state = p_state entry, sf_ppid = p_ppid entry, sf_user = pr_junk_user sys,
                 sf_kernel = pr_junk_kernel sys, sf_rss = p_rss entry\<rparr>;
          entry = entry\<lparr>p_state := sf_state v, p_ppid := sf_ppid v, p_rss := sf_rss v,
                         p_cpu_time := sf_user v + sf_kernel v, p_pid := word_of_int pid,
                         p_comm_size := word_of_nat (length comm),
                         p_cmdline_size := word_of_nat (length cmdline)\<rparr> in
      if \<not> pr_malloc_comm sys then Ret (1, entry\<lparr>p_comm := []\<rparr>) else
      let entry = entry\<lparr>p_comm := comm\<rparr> in
      if \<not> pr_malloc_cmdline sys then Ret (-1, entry\<lparr>p_cmdline := []\<rparr>) else
      let entry = entry\<lparr>p_cmdline := cmdline\<rparr>;
          path = bytes_of ''/proc/'' @ print_d pid @ bytes_of ''/stat'' @ bytes_of ''(field 24)'';
          entry = entry\<lparr>p_rss_src_size := word_of_nat (length path + 1)\<rparr> in
      if \<not> pr_malloc_rss sys then Ret (-1, entry\<lparr>p_rss_src := []\<rparr>) else
      Ret (0, entry\<lparr>p_rss_src := path @ [0],
                    p_entry_size := 1 + 7 * 4 + 2 * 8 + word_of_nat (length comm) +
                      word_of_nat (length cmdline) + word_of_nat (length path + 1),
                    p_next_entry_bucket := 0\<rparr>))"

definition build_proc_entry :: "proc_sys \<Rightarrow> int \<Rightarrow> db_proc_entry \<Rightarrow> (int \<times> db_proc_entry) outcome" where
  "build_proc_entry sys pid entry =
     (case pr_comm sys of Gone \<Rightarrow> Ret (1, entry) | Denied \<Rightarrow> Ret (-1, entry) | File bs err \<Rightarrow>
      let (comm, read_bytes) = read_chars LEN_NAME_MAX bs err [] in
      if read_bytes = -1 then Ret (1, entry) else
      c_bind (terminate_comm comm) (\<lambda>comm.
      case pr_cmdline sys of Gone \<Rightarrow> Ret (1, entry) | Denied \<Rightarrow> Ret (-1, entry) | File bs err \<Rightarrow>
      let (cmdline, read_bytes) = read_chars LEN_CMDLINE_MAX bs err [] in
      if read_bytes = -1 then Ret (1, entry) else
      let cmdline = terminate_cmdline (map (\<lambda>c. if c \<noteq> 0 then c else 32) cmdline) in
      case pr_stat sys of Gone \<Rightarrow> Ret (1, entry) | Denied \<Rightarrow> Ret (-1, entry) | File bs err \<Rightarrow>
      if bs = [] \<and> err then Ret (1, entry)
      else fill_proc_entry sys pid comm cmdline (take LEN_STAT_MAX bs) entry))"

text \<open>
  \<open>compare_proc_entries\<close>: 1 for different pids, 0 for equal pids, -1 on an error. A read at
  the end of the file counts as equal.
\<close>

definition compare_proc_entries :: "fdesc \<Rightarrow> db_proc_entry \<Rightarrow> u32 \<Rightarrow> int" where
  "compare_proc_entries f entry db_entry_offset =
     (let db_entry_offset = db_entry_offset + HEADER_SIZE;
          (read_bytes, db_pid) = pread_u32 f (uint (db_entry_offset + PROC_PID_OFFSET)) (stack_junk f)
      in if read_bytes \<noteq> 4 then (if read_bytes = 0 then 0 else -1)
         else if p_pid entry \<noteq> db_pid then 1 else 0)"

definition proc_fields :: "db_proc_entry \<Rightarrow> (byte list \<times> nat) list" where
  "proc_fields entry =
     [(le_bytes 4 (unat (p_entry_size entry)), 4),
      (le_bytes 4 (unat (p_pid entry)), 4),
      (le_bytes 4 (unat (p_ppid entry)), 4),
      ([p_state entry], 1),
      (le_bytes 4 (unat (p_comm_size entry)), 4),
      (p_comm entry, unat (p_comm_size entry)),
      (le_bytes 4 (unat (p_cmdline_size entry)), 4),
      (p_cmdline entry, unat (p_cmdline_size entry)),
      (le_bytes 4 (unat (p_rss_src_size entry)), 4),
      (p_rss_src entry, unat (p_rss_src_size entry)),
      (le_bytes 8 (unat (p_rss entry)), 8),
      (le_bytes 8 (unat (p_cpu_time entry)), 8),
      (le_bytes 4 (unat (p_next_entry_bucket entry)), 4)]"

definition append_proc_entry :: "fdesc \<Rightarrow> db_proc_entry \<Rightarrow> (int \<times> fdesc) outcome" where
  "append_proc_entry f entry =
     (if fdno f < 0 then Ret (2, f) else
      c_bind (copy_fields [] (proc_fields entry)) (\<lambda>buffer.
      if length buffer \<noteq> unat (p_entry_size entry) then Ret (1, f) else
      append_locked f (uint (p_pid entry mod BUCKET_COUNT)) (compare_proc_entries f entry) buffer (p_entry_size entry)))"

section \<open>The codec of process entries\<close>

definition p_valid :: "db_proc_entry \<Rightarrow> bool" where
  "p_valid e \<longleftrightarrow>
     length (p_comm e) = unat (p_comm_size e) \<and> p_comm_size e \<le> LEN_NAME_MAX \<and> has_nul (p_comm e) \<and>
     length (p_cmdline e) = unat (p_cmdline_size e) \<and> p_cmdline_size e \<le> LEN_CMDLINE_MAX \<and>
     has_nul (p_cmdline e) \<and>
     length (p_rss_src e) = unat (p_rss_src_size e) \<and> p_rss_src_size e \<le> 300 \<and>
     p_entry_size e = p_comm_size e + p_cmdline_size e + p_rss_src_size e + 45 \<and>
     p_next_entry_bucket e = 0"

definition p_body :: "db_proc_entry \<Rightarrow> byte list" where
  "p_body e =
     le_bytes 4 (unat (p_entry_size e)) @ le_bytes 4 (unat (p_pid e)) @ le_bytes 4 (unat (p_ppid e)) @
     [p_state e] @ le_bytes 4 (unat (p_comm_size e)) @ p_comm e @
     le_bytes 4 (unat (p_cmdline_size e)) @ p_cmdline e @
     le_bytes 4 (unat (p_rss_src_size e)) @ p_rss_src e @
     le_bytes 8 (unat (p_rss e)) @ le_bytes 8 (unat (p_cpu_time e))"

definition p_bkt :: "db_proc_entry \<Rightarrow> nat" where
  "p_bkt e = unat (p_pid e mod BUCKET_COUNT)"

definition p_rep :: "db_proc_entry \<Rightarrow> db_proc_entry \<Rightarrow> bool" where
  "p_rep r e \<longleftrightarrow>
     p_pid r = p_pid e \<and> p_comm_size r = p_comm_size e \<and>
     take (unat (p_comm_size e)) (p_comm r) = p_comm e \<and>
     p_cmdline_size r = p_cmdline_size e \<and>
     take (unat (p_cmdline_size e)) (p_cmdline r) = p_cmdline e \<and> p_rss r = p_rss e"

lemma p_valid_sizes:
  assumes "p_valid e"
  shows "length (p_body e) = length (p_comm e) + length (p_cmdline e) + length (p_rss_src e) + 41"
    and "length (p_comm e) \<le> 256" "length (p_cmdline e) \<le> 1024" "length (p_rss_src e) \<le> 300"
    and "unat (p_entry_size e) = length (p_body e) + 4"
    and "unat (p_comm_size e) = length (p_comm e)" "unat (p_cmdline_size e) = length (p_cmdline e)"
      "unat (p_rss_src_size e) = length (p_rss_src e)"
proof -
  show l: "length (p_body e) = length (p_comm e) + length (p_cmdline e) + length (p_rss_src e) + 41"
    by (simp add: p_body_def)
  show c: "length (p_comm e) \<le> 256" "length (p_cmdline e) \<le> 1024" "length (p_rss_src e) \<le> 300"
    and u: "unat (p_comm_size e) = length (p_comm e)" "unat (p_cmdline_size e) = length (p_cmdline e)"
      "unat (p_rss_src_size e) = length (p_rss_src e)"
    using assms by (simp_all add: p_valid_def word_le_nat_alt)
  have "p_entry_size e = word_of_nat (length (p_body e) + 4)"
    using assms l u [symmetric] by (simp add: p_valid_def)
  then show "unat (p_entry_size e) = length (p_body e) + 4"
    using l c by (simp only: unat_of_nat) simp
qed

lemma p_body_fields:
  assumes "p_valid e" and n: "c = length (p_comm e)" "m = length (p_cmdline e)" "r = length (p_rss_src e)"
  shows "fslice (p_body e) 0 4 = le_bytes 4 (unat (p_entry_size e))"
    and "fslice (p_body e) 4 4 = le_bytes 4 (unat (p_pid e))"
    and "fslice (p_body e) 13 4 = le_bytes 4 c"
    and "fslice (p_body e) 17 c = p_comm e"
    and "fslice (p_body e) (17 + c) 4 = le_bytes 4 m"
    and "fslice (p_body e) (21 + c) m = p_cmdline e"
    and "fslice (p_body e) (21 + c + m) 4 = le_bytes 4 r"
    and "fslice (p_body e) (25 + c + m + r) 8 = le_bytes 8 (unat (p_rss e))"
  using p_valid_sizes(6-8) [OF assms(1)] by (simp_all add: n p_body_def slice_simps)

lemma p_raw_ok: "p_valid e \<Longrightarrow> raw_ok (p_bkt e, p_body e)"
  using p_valid_sizes [of e] p_body_fields(1) [of e]
  by (simp add: raw_ok_def rec_len_def p_bkt_def unat_mod256)

lemma p_bkt_key: "p_pid e = p_pid e' \<Longrightarrow> p_bkt e = p_bkt e'"
  by (simp add: p_bkt_def)

lemma compare_proc_ok:
  assumes v: "p_valid e" and v': "p_valid e'" and r: "p_rep r e" and p: "placed (bytes f) off (p_body e')"
  shows "compare_proc_entries f r off = (if p_pid e = p_pid e' then 0 else 1)"
proof -
  note sz = p_valid_sizes [OF v'] and flds = p_body_fields [OF v' refl refl refl]
  have off: "uint (off + 2329 + 4) = int (unat off + 2329 + 4)"
    using placed_offset [OF p, of 4] sz(1) by simp
  have rd: "pread_u32 f (uint (off + 2329 + 4)) (stack_junk f) = (4, p_pid e')"
    unfolding off using placed_pread_u32 [OF p, of 4] sz(1) flds(2) by (simp add: le_nat_le_bytes32)
  show ?thesis
    unfolding compare_proc_entries_def Let_def rd using r by (simp add: p_rep_def)
qed

interpretation po: entry_codec p_body p_bkt p_pid p_valid p_rep compare_proc_entries
  by (rule entry_codec.intro) (rule p_raw_ok p_bkt_key compare_proc_ok; assumption)+

section \<open>Appending\<close>

lemma copy_proc_fields:
  assumes "p_valid e"
  shows "copy_fields [] (proc_fields e) = Ret (p_body e @ le_bytes 4 0)"
proof -
  note sz = p_valid_sizes [OF assms]
  have "p_next_entry_bucket e = 0"
    using assms by (simp add: p_valid_def)
  then show ?thesis
    using sz(2-4,6-8) by (subst copy_fields_ok) (simp_all add: proc_fields_def p_body_def)
qed

definition demo_proc :: db_proc_entry where
  "demo_proc =
     \<lparr>p_entry_size = 55, p_pid = 300, p_ppid = 1, p_state = 83, p_comm_size = 3,
      p_comm = bytes_of ''sh'' @ [0], p_cmdline_size = 4, p_cmdline = bytes_of ''sh '' @ [0],
      p_rss_src_size = 3, p_rss_src = bytes_of ''/p'' @ [0], p_rss = 12, p_cpu_time = 5,
      p_next_entry_bucket = 0\<rparr>"

lemma demo_proc_valid: "p_valid demo_proc"
  by (simp add: p_valid_def demo_proc_def bytes_of_def has_nul_def)

section \<open>Scanning what \<open>printf\<close> prints\<close>

lemma digit_byte:
  assumes "d < 10"
  shows "is_digit (word_of_nat (48 + d))" "unat (word_of_nat (48 + d) :: byte) - 48 = d"
    and "\<not> is_space (word_of_nat (48 + d))" "(word_of_nat (48 + d) :: byte) \<noteq> 45"
      "(word_of_nat (48 + d) :: byte) \<noteq> 43" "(word_of_nat (48 + d) :: byte) \<noteq> 41" "(word_of_nat (48 + d) :: byte) \<noteq> 0"
proof -
  have u: "unat (word_of_nat (48 + d) :: byte) = 48 + d"
    using assms by (simp only: unat_of_nat) simp
  then show "is_digit (word_of_nat (48 + d))" "unat (word_of_nat (48 + d) :: byte) - 48 = d"
    "\<not> is_space (word_of_nat (48 + d))" "(word_of_nat (48 + d) :: byte) \<noteq> 45"
    "(word_of_nat (48 + d) :: byte) \<noteq> 43" "(word_of_nat (48 + d) :: byte) \<noteq> 41" "(word_of_nat (48 + d) :: byte) \<noteq> 0"
    using assms by (auto simp: is_digit_def is_space_def word_le_nat_alt word_unat_eq_iff simp del: of_nat_add)
qed

lemma dec_digits_props:
  "list_all is_digit (dec_digits n) \<and> dec_digits n \<noteq> [] \<and> digits_value (dec_digits n) = n \<and>
   \<not> is_space (hd (dec_digits n)) \<and> hd (dec_digits n) \<noteq> 45 \<and> hd (dec_digits n) \<noteq> 43 \<and>
   41 \<notin> set (dec_digits n) \<and> 0 \<notin> set (dec_digits n)"
proof (induction n rule: dec_digits.induct)
  case (1 n)
  note d = digit_byte [of "n mod 10"]
  show ?case
  proof (cases "n < 10")
    case True
    then show ?thesis
      using digit_byte [of n] by (simp add: dec_digits.simps [of n] digits_value_def del: of_nat_add)
  next
    case False
    have "digits_value (dec_digits (n div 10) @ [word_of_nat (48 + n mod 10)]) = n"
      using 1 [OF False] d(2) by (simp add: digits_value_def del: of_nat_add)
    then show ?thesis
      using False 1 [OF False] d by (auto simp: dec_digits.simps [of n] simp del: of_nat_add)
  qed
qed

lemma scan_int_print:
  assumes "rest = [] \<or> \<not> is_digit (hd rest)"
  shows "scan_int (32 # print_d i @ rest) = Some ((i < 0, nat \<bar>i\<bar>), rest)"
proof -
  let ?ds = "dec_digits (nat \<bar>i\<bar>)"
  note p = dec_digits_props [of "nat \<bar>i\<bar>"]
  have tw: "takeWhile is_digit (?ds @ rest) = ?ds" "dropWhile is_digit (?ds @ rest) = rest"
    using p assms by (cases rest; simp add: list_all_iff)+
  obtain d ds where ds: "?ds = d # ds"
    using p by (cases ?ds) auto
  have d: "\<not> is_space d" "d \<noteq> 45" "d \<noteq> 43"
    using p ds by simp_all
  have sp: "is_space 32" "\<not> is_space 45"
    by (simp_all add: is_space_def)
  show ?thesis
  proof (cases "i < 0")
    case True
    then have "print_d i = 45 # ?ds"
      by (simp add: print_d_def)
    then show ?thesis
      using True tw p ds sp by (simp add: scan_int_def Let_def)
  next
    case False
    then have "print_d i = ?ds"
      by (simp add: print_d_def)
    then show ?thesis
      using False tw p ds d sp by (simp add: scan_int_def Let_def)
  qed
qed

definition print_fields :: "int list \<Rightarrow> byte list" where
  "print_fields is = concat (map (\<lambda>i. 32 # print_d i) is)"

lemma print_fields_simps [simp]:
  "print_fields [] = []" "print_fields (i # is) = 32 # print_d i @ print_fields is"
  by (simp_all add: print_fields_def)

lemma fields_rest:
  "rest = [] \<or> \<not> is_digit (hd rest) \<Longrightarrow> print_fields is @ rest = [] \<or> \<not> is_digit (hd (print_fields is @ rest))"
  by (cases "is") (simp_all add: is_digit_def)

lemma skip_ints_print:
  assumes "rest = [] \<or> \<not> is_digit (hd rest)"
  shows "skip_ints n (print_fields is @ rest) =
    (if n \<le> length is then Some (print_fields (drop n is) @ rest) else skip_ints (n - length is) rest)"
proof (induction "is" arbitrary: n)
  case (Cons i "is")
  show ?case
  proof (cases n)
    case (Suc m)
    then show ?thesis
      using scan_int_print [OF fields_rest [OF assms, of "is"], of i] Cons [of m] by simp
  qed simp
qed simp

lemma print_fields_append: "print_fields (a @ b) = print_fields a @ print_fields b"
  by (simp add: print_fields_def)

lemma print_d_chars: "41 \<notin> set (print_d i)" "0 \<notin> set (print_d i)"
  using dec_digits_props [of "nat i"] dec_digits_props [of "nat (- i)"] by (simp_all add: print_d_def)

lemma print_fields_chars: "41 \<notin> set (print_fields is)" "0 \<notin> set (print_fields is)"
  using print_d_chars by (induction "is") simp_all

lemma length_dec_digits: "n < 10 ^ k \<Longrightarrow> 0 < k \<Longrightarrow> length (dec_digits n) \<le> k"
proof (induction k arbitrary: n)
  case (Suc k)
  show ?case
  proof (cases "n < 10")
    case False
    then have "n div 10 < 10 ^ k" "0 < k"
      using Suc.prems by (auto simp: less_mult_imp_div_less mult.commute intro: Nat.gr0I)
    with Suc.IH [of "n div 10"] False show ?thesis
      by (simp add: dec_digits.simps [of n])
  qed (simp add: dec_digits.simps [of n])
qed simp

lemma length_print_d:
  assumes "\<bar>i\<bar> < 2 ^ 32"
  shows "length (print_d i) \<le> 11"
proof -
  have "nat i < 10 ^ 10" "nat (- i) < 10 ^ 10"
    using assms by auto
  then show ?thesis
    using length_dec_digits [of "nat i" 10] length_dec_digits [of "nat (- i)" 10]
    by (simp add: print_d_def)
qed

lemma conv_d_print: "\<bar>i\<bar> < 2 ^ 63 \<Longrightarrow> conv_d (i < 0, nat \<bar>i\<bar>) = word_of_int i"
  by (auto simp: conv_d_def)

lemma conv_llu_print: "0 \<le> i \<Longrightarrow> i < 2 ^ 64 \<Longrightarrow> conv_llu (False, nat i) = word_of_int i"
proof -
  assume i: "0 \<le> i" "i < 2 ^ 64"
  then have "\<not> 2 ^ 64 \<le> nat i"
    by (simp add: nat_less_iff not_le)
  with i show ?thesis
    by (simp add: conv_llu_def)
qed

lemma scan_stat_print:
  assumes "length a = 9" "length b = 8"
    and "\<bar>ppid\<bar> < 2 ^ 63" "0 \<le> ut" "ut < 2 ^ 64" "0 \<le> kt" "kt < 2 ^ 64" "0 \<le> rss" "rss < 2 ^ 64"
    and rest: "rest = [] \<or> \<not> is_digit (hd rest)"
  shows "scan_stat (state # print_fields (ppid # a @ ut # kt # b @ [rss]) @ rest) v =
    v\<lparr>sf_state := state, sf_ppid := word_of_int ppid, sf_user := word_of_int ut,
      sf_kernel := word_of_int kt, sf_rss := word_of_int rss\<rparr>"
proof -
  define r1 where "r1 = print_fields [rss] @ rest"
  define r2 where "r2 = print_fields b @ r1"
  define r3 where "r3 = print_fields (ut # [kt]) @ r2"
  define r4 where "r4 = print_fields a @ r3"
  have r: "r1 = [] \<or> \<not> is_digit (hd r1)" "r2 = [] \<or> \<not> is_digit (hd r2)"
    "r3 = [] \<or> \<not> is_digit (hd r3)" "r4 = [] \<or> \<not> is_digit (hd r4)"
    unfolding r1_def r2_def r3_def r4_def by (intro fields_rest rest)+
  have all: "print_fields (ppid # a @ ut # kt # b @ [rss]) @ rest = 32 # print_d ppid @ r4"
    by (simp add: r1_def r2_def r3_def r4_def print_fields_append)
  have s4: "skip_ints 9 r4 = Some r3" "skip_ints 8 r2 = Some r1"
    using skip_ints_print [OF r(3), of 9 a] skip_ints_print [OF r(1), of 8 b] assms(1,2)
    by (simp_all add: r4_def r2_def)
  have r3: "r3 = 32 # print_d ut @ 32 # print_d kt @ r2" "r1 = 32 # print_d rss @ rest"
    by (simp_all add: r3_def r1_def)
  have sp: "32 # print_d kt @ r2 = [] \<or> \<not> is_digit (hd (32 # print_d kt @ r2))"
    by (simp add: is_digit_def)
  show ?thesis
    unfolding all scan_stat_def
    using scan_int_print [OF r(4), of ppid] s4 scan_int_print [OF sp, of ut] scan_int_print [OF r(2), of kt]
      scan_int_print [OF rest, of rss] assms(3-9)
    by (simp add: r3 conv_d_print conv_llu_print Let_def)
qed

lemma strrchr_last: "c \<notin> set b \<Longrightarrow> strrchr c (a @ c # b) = Some (c # b)"
proof (induction a)
  case Nil
  have "c \<notin> set b \<Longrightarrow> strrchr c b = None" for b
    by (induction b) auto
  with Nil show ?case by simp
qed simp

lemma read_chars_all: "length acc + length bs \<le> n \<Longrightarrow> read_chars n bs False acc = (acc @ bs, 0)"
  by (induction n bs False acc rule: read_chars.induct) auto

text \<open>The \<open>stat\<close> file of a process: one line, of which \<open>is\<close> are the numbers from field 4 on.\<close>

definition stat_line :: "byte list \<Rightarrow> byte \<Rightarrow> int list \<Rightarrow> byte list" where
  "stat_line pre state is = pre @ 41 # 32 # state # print_fields is @ [10]"

lemma stat_line_scan:
  assumes "0 \<notin> set pre" "state \<noteq> 0" "state \<noteq> 41"
  shows "strrchr 41 (c_str (stat_line pre state is)) = Some (41 # 32 # state # print_fields is @ [10])"
proof -
  have "c_str (stat_line pre state is) = stat_line pre state is"
    using assms(1,2) print_fields_chars(2) [of "is"]
    by (auto simp: c_str_def takeWhile_eq_all_conv stat_line_def)
  then show ?thesis
    using assms(3) print_fields_chars(1) [of "is"] by (simp add: stat_line_def strrchr_last)
qed

lemma terminate_cmdline_ok: "length s < 1024 \<Longrightarrow> terminate_cmdline s = s @ [0]"
  by (simp add: terminate_cmdline_def)

definition built_proc :: "int \<Rightarrow> byte list \<Rightarrow> byte list \<Rightarrow> stat_fields \<Rightarrow> db_proc_entry" where
  "built_proc pid comm cmdline v =
     (let path = bytes_of ''/proc/'' @ print_d pid @ bytes_of ''/stat(field 24)'' @ [0] in
      \<lparr>p_entry_size = word_of_nat (45 + length comm + length cmdline + length path),
       p_pid = word_of_int pid, p_ppid = sf_ppid v, p_state = sf_state v,
       p_comm_size = word_of_nat (length comm), p_comm = comm,
       p_cmdline_size = word_of_nat (length cmdline), p_cmdline = cmdline,
       p_rss_src_size = word_of_nat (length path), p_rss_src = path, p_rss = sf_rss v,
       p_cpu_time = sf_user v + sf_kernel v, p_next_entry_bucket = 0\<rparr>)"

lemma built_proc_valid:
  assumes "length comm \<le> 256" "length cmdline \<le> 1024" "has_nul comm" "has_nul cmdline" "\<bar>pid\<bar> < 2 ^ 32"
  shows "p_valid (built_proc pid comm cmdline v)"
proof -
  have u: "unat (word_of_nat n :: u32) = n" if "n \<le> 1024" for n
    using that by (simp only: unat_of_nat) simp
  have "length (bytes_of ''/proc/'' @ print_d pid @ bytes_of ''/stat(field 24)'' @ [0]) \<le> 300"
    using length_print_d [OF assms(5)] by (simp add: bytes_of_def)
  then show ?thesis
    using assms(1-4) u by (simp add: p_valid_def built_proc_def Let_def word_le_nat_alt del: length_append)
qed

lemma fill_proc_entry_ok:
  assumes "pr_malloc_comm sys" "pr_malloc_cmdline sys" "pr_malloc_rss sys"
    and "length stat_buf < 512" "strrchr 41 (c_str stat_buf) = Some (41 # 32 # s)"
    and v: "\<And>w. scan_stat s w = w\<lparr>sf_state := st, sf_ppid := pp, sf_user := ut, sf_kernel := kt, sf_rss := rs\<rparr>"
  shows "fill_proc_entry sys pid comm cmdline stat_buf e =
    Ret (0, built_proc pid comm cmdline \<lparr>sf_state = st, sf_ppid = pp, sf_user = ut, sf_kernel = kt, sf_rss = rs\<rparr>)"
proof -
  have p: "bytes_of ''/stat(field 24)'' = bytes_of ''/stat'' @ bytes_of ''(field 24)''"
    by (simp add: bytes_of_def)
  show ?thesis
    using assms(1-5) by (simp add: fill_proc_entry_def v built_proc_def Let_def p add_ac)
qed

text \<open>
  A live process: what its three files hold, and the entry they give. \<open>lv_more\<close> are the fields
  behind field 24, which the code does not read; the kernel writes 28 of them.
\<close>

record live =
  lv_name :: "byte list"
  lv_args :: "byte list"
  lv_pre :: "byte list"
  lv_state :: byte
  lv_ppid :: int
  lv_skip1 :: "int list"
  lv_user :: int
  lv_kernel :: int
  lv_skip2 :: "int list"
  lv_rss :: int
  lv_more :: "int list"

definition live_stat :: "live \<Rightarrow> byte list" where
  "live_stat l = stat_line (lv_pre l) (lv_state l)
     (lv_ppid l # lv_skip1 l @ lv_user l # lv_kernel l # lv_skip2 l @ lv_rss l # lv_more l)"

definition live_ok :: "proc_sys \<Rightarrow> live \<Rightarrow> bool" where
  "live_ok sys l \<longleftrightarrow>
     pr_comm sys = File (lv_name l @ [10]) False \<and> 0 \<notin> set (lv_name l) \<and> length (lv_name l) < 255 \<and>
     pr_cmdline sys = File (lv_args l) False \<and> length (lv_args l) < 1024 \<and>
     pr_stat sys = File (live_stat l) False \<and> length (live_stat l) < LEN_STAT_MAX \<and>
     0 \<notin> set (lv_pre l) \<and> lv_state l \<noteq> 0 \<and> lv_state l \<noteq> 41 \<and>
     length (lv_skip1 l) = 9 \<and> length (lv_skip2 l) = 8 \<and> \<bar>lv_ppid l\<bar> < 2 ^ 63 \<and>
     0 \<le> lv_user l \<and> lv_user l < 2 ^ 64 \<and> 0 \<le> lv_kernel l \<and> lv_kernel l < 2 ^ 64 \<and>
     0 \<le> lv_rss l \<and> lv_rss l < 2 ^ 64 \<and>
     pr_malloc_comm sys \<and> pr_malloc_cmdline sys \<and> pr_malloc_rss sys"

definition live_entry :: "int \<Rightarrow> live \<Rightarrow> db_proc_entry" where
  "live_entry pid l =
     built_proc pid (lv_name l @ [0]) (map (\<lambda>c. if c \<noteq> 0 then c else 32) (lv_args l) @ [0])
       \<lparr>sf_state = lv_state l, sf_ppid = word_of_int (lv_ppid l), sf_user = word_of_int (lv_user l),
        sf_kernel = word_of_int (lv_kernel l), sf_rss = word_of_int (lv_rss l)\<rparr>"

lemma build_live:
  assumes "live_ok sys l" "\<bar>pid\<bar> < 2 ^ 32"
  shows "build_proc_entry sys pid e = Ret (0, live_entry pid l)" "p_valid (live_entry pid l)"
proof -
  let ?up = "lv_ppid l # lv_skip1 l @ lv_user l # lv_kernel l # lv_skip2 l @ [lv_rss l]"
  let ?is = "lv_ppid l # lv_skip1 l @ lv_user l # lv_kernel l # lv_skip2 l @ lv_rss l # lv_more l"
    and ?cmd = "map (\<lambda>c. if c \<noteq> 0 then c else 32) (lv_args l) @ [0]"
  let ?v = "\<lparr>sf_state = lv_state l, sf_ppid = word_of_int (lv_ppid l), sf_user = word_of_int (lv_user l),
    sf_kernel = word_of_int (lv_kernel l), sf_rss = word_of_int (lv_rss l)\<rparr>"
  note ok = assms(1) [unfolded live_ok_def live_stat_def]
  have rd: "read_chars 256 (lv_name l @ [10]) False [] = (lv_name l @ [10], 0)"
    "read_chars 1024 (lv_args l) False [] = (lv_args l, 0)"
    using read_chars_all [of "[]" "lv_name l @ [10]" 256] read_chars_all [of "[]" "lv_args l" 1024] ok by simp_all
  have split: "print_fields ?is @ [10] = print_fields ?up @ print_fields (lv_more l) @ [10]"
    by (simp add: print_fields_append)
  have sp: "print_fields (lv_more l) @ [10] = [] \<or> \<not> is_digit (hd (print_fields (lv_more l) @ [10]))"
    by (cases "lv_more l") (simp_all add: is_digit_def)
  have "scan_stat (lv_state l # print_fields ?is @ [10]) w = w\<lparr>sf_state := lv_state l,
      sf_ppid := word_of_int (lv_ppid l), sf_user := word_of_int (lv_user l),
      sf_kernel := word_of_int (lv_kernel l), sf_rss := word_of_int (lv_rss l)\<rparr>" for w
    unfolding split using ok sp by (intro scan_stat_print) simp_all
  then have fill: "fill_proc_entry sys pid (lv_name l @ [0]) ?cmd (stat_line (lv_pre l) (lv_state l) ?is) e =
      Ret (0, built_proc pid (lv_name l @ [0]) ?cmd ?v)"
    using ok stat_line_scan [of "lv_pre l" "lv_state l" ?is] by (intro fill_proc_entry_ok) simp_all
  then show "build_proc_entry sys pid e = Ret (0, live_entry pid l)"
    using ok rd terminate_cmdline_ok [of "map (\<lambda>c. if c \<noteq> 0 then c else 32) (lv_args l)"]
    by (simp add: build_proc_entry_def terminate_comm_def live_entry_def)
  show "p_valid (live_entry pid l)"
    using ok assms(2) unfolding live_entry_def by (intro built_proc_valid) (simp_all add: has_nul_def)
qed

definition demo_live :: live where
  "demo_live =
     \<lparr>lv_name = bytes_of ''sh'', lv_args = bytes_of ''sh'' @ [0] @ bytes_of ''x'' @ [0],
      lv_pre = bytes_of ''7 (sh'', lv_state = 83, lv_ppid = 1, lv_skip1 = replicate 9 0, lv_user = 5,
      lv_kernel = 6, lv_skip2 = replicate 8 0, lv_rss = 300, lv_more = replicate 28 0\<rparr>"

definition demo_sys :: proc_sys where
  "demo_sys =
     \<lparr>pr_comm = File (lv_name demo_live @ [10]) False, pr_cmdline = File (lv_args demo_live) False,
      pr_stat = File (live_stat demo_live) False,
      pr_malloc_comm = True, pr_malloc_cmdline = True, pr_malloc_rss = True,
      pr_junk_user = 0, pr_junk_kernel = 0\<rparr>"

lemma demo_live_ok: "live_ok demo_sys demo_live"
proof -
  have z: "print_d 0 = [48]" "print_d 1 = [49]" "print_d 5 = [53]" "print_d 6 = [54]" "length (print_d 300) \<le> 11"
    using length_print_d [of 300] by (simp_all add: print_d_def dec_digits.simps)
  have "length (print_fields (replicate n 0)) = 2 * n" for n
    by (induction n) (simp_all add: z)
  then have "length (live_stat demo_live) < 512"
    using z by (simp add: live_stat_def demo_live_def stat_line_def print_fields_append bytes_of_def)
  then show ?thesis
    by (simp add: live_ok_def demo_sys_def) (simp add: demo_live_def bytes_of_def)
qed

lemma append_proc_ok:
  assumes "0 \<le> fdno f" "o_append f" "setlkw_ok f"
    and "holds p_bkt p_body p_valid (bytes f) es" "p_valid e"
    and "length (bytes f) + length (p_body e) + 4 \<le> file_limit f"
    and "length (bytes f) + length (p_body e) + 4 < EMPTY_BUCKET"
  shows "\<exists>g. append_proc_entry f e = Ret (fst (insert_unique p_pid e es), g) \<and>
    holds p_bkt p_body p_valid (bytes g) (snd (insert_unique p_pid e es)) \<and>
    g = f\<lparr>bytes := bytes g, fpos := fpos g\<rparr> \<and> take 281 (bytes g) = take 281 (bytes f)"
proof -
  note sz = p_valid_sizes [OF assms(5)]
  have b: "uint (p_pid e mod 256) = int (p_bkt e)"
    by (simp only: p_bkt_def uint_nat)
  have "(word_of_nat (length (p_body e) + 4) :: u32) = p_entry_size e"
    unfolding sz(5) [symmetric] by simp
  then have "append_proc_entry f e = append_locked f (int (p_bkt e)) (compare_proc_entries f e)
      (p_body e @ le_bytes 4 0) (word_of_nat (length (p_body e) + 4))"
    using assms(1) copy_proc_fields [OF assms(5)] b sz(5) by (simp add: append_proc_entry_def)
  moreover have "p_rep e e"
    using sz by (simp add: p_rep_def)
  ultimately show ?thesis
    using po.append_refines [OF _ assms(2,3,4,5) _ assms(6,7), of e] assms(1) by simp
qed

section \<open>Properties\<close>

text \<open>
  C15. \<open>append_proc_entry\<close> implements the insertion into a set of entries keyed by pid: it
  returns 1 and changes nothing when the pid is present, and otherwise returns 0 and leaves
  a well-formed file that holds the old entries followed by the new one.
\<close>

theorem append_proc_entry_correct:
  assumes "0 \<le> fdno f" "o_append f" "setlkw_ok f"
    and "holds p_bkt p_body p_valid (bytes f) es" "p_valid e"
    and "length (bytes f) + length (p_body e) + 4 \<le> file_limit f"
    and "length (bytes f) + length (p_body e) + 4 < EMPTY_BUCKET"
  shows "\<exists>g. append_proc_entry f e = Ret (fst (insert_unique p_pid e es), g) \<and>
    holds p_bkt p_body p_valid (bytes g) (snd (insert_unique p_pid e es)) \<and>
    g = f\<lparr>bytes := bytes g, fpos := fpos g\<rparr> \<and> take 281 (bytes g) = take 281 (bytes f)"
  by (rule append_proc_ok [OF assms])

theorem append_proc_entry_correct_witness:
  "\<exists>g. append_proc_entry (demo_fd (init_header 1 7)) demo_proc = Ret (0, g) \<and>
    holds p_bkt p_body p_valid (bytes g) [demo_proc]"
proof -
  have l: "length (p_body demo_proc) = 51"
    using p_valid_sizes(1) [OF demo_proc_valid] by (simp add: demo_proc_def bytes_of_def)
  show ?thesis
    using append_proc_entry_correct [of "demo_fd (init_header 1 7)" "[]" demo_proc]
    by (auto simp: demo_proc_valid holds_init length_init_header l insert_unique_def)
qed

text \<open>
  C25. For a process whose files have the kernel's form (a name and a newline, arguments
  separated by NUL bytes, a \<open>stat\<close> line with any fields behind field 24), \<open>build_proc_entry\<close> succeeds and builds a valid
  entry: the name and the arguments (separated by spaces) with a terminating NUL, the
  state, the parent, user plus system time and field 24 of the \<open>stat\<close> line.
\<close>

theorem build_proc_entry_correct:
  assumes "live_ok sys l" "\<bar>pid\<bar> < 2 ^ 32"
  shows "\<exists>e'. build_proc_entry sys pid e = Ret (0, e') \<and> p_valid e' \<and>
    p_pid e' = word_of_int pid \<and> p_comm e' = lv_name l @ [0] \<and>
    p_cmdline e' = map (\<lambda>c. if c \<noteq> 0 then c else 32) (lv_args l) @ [0] \<and>
    p_state e' = lv_state l \<and> p_ppid e' = word_of_int (lv_ppid l) \<and>
    p_cpu_time e' = word_of_int (lv_user l) + word_of_int (lv_kernel l) \<and> p_rss e' = word_of_int (lv_rss l)"
  using build_live [OF assms] by (simp add: live_entry_def built_proc_def Let_def)

theorem build_proc_entry_correct_witness:
  "\<exists>e. build_proc_entry demo_sys 7 demo_proc = Ret (0, e) \<and> p_valid e \<and> p_pid e = 7 \<and>
    p_comm e = bytes_of ''sh'' @ [0] \<and> p_cmdline e = bytes_of ''sh x '' @ [0] \<and>
    p_cpu_time e = 11 \<and> p_rss e = 300"
  using build_proc_entry_correct [OF demo_live_ok, of 7 demo_proc]
  by (auto simp: demo_live_def bytes_of_def)

end
