(* ===== verification/Db_Diff.thy ===== *)
theory Db_Diff
  imports Fileops Proc
begin

text \<open>
  The snapshot comparison, \<open>src/main_db_diff.c\<close>: comparing the fields of an entry with a
  record, looking an entry of one snapshot up in the other, and the two report loops. The
  interface \<open>entry_diff\<close> extends \<open>entry_codec\<close> by what the lookup needs of an entry
  kind; it is interpreted for file and for process entries, and the report is shown to be
  the difference of the two lists of entries.
\<close>

section \<open>The code\<close>

text \<open>
  \<open>compare_fileops_fields\<close>: 0 for equal fields, 1 for a difference, -1 on an error.
\<close>

definition compare_fileops_fields :: "fdesc \<Rightarrow> db_fileops_entry \<Rightarrow> u32 \<Rightarrow> int outcome" where
  "compare_fileops_fields f entry db_entry_offset =
     (let db_entry_offset = db_entry_offset + HEADER_SIZE;
          (read_bytes, db_path_len) =
            pread_u32 f (uint (db_entry_offset + IDX_PATH_LEN_OFFSET)) (stack_junk f)
      in if read_bytes \<noteq> 4 then Ret (if read_bytes = 0 then 1 else -1) else
      let offset_after_path = IDX_ABS_PATH_OFFSET + db_path_len + TYPE_LEN_MAX + db_entry_offset in
      case pread_exact f 4 (uint offset_after_path + 2 * 8) of None \<Rightarrow> Ret (-1) | Some db_mtime \<Rightarrow>
      if f_mtime entry \<noteq> word_of_nat (le_nat db_mtime) then Ret 1 else
      case pread_exact f 8 (uint offset_after_path) of None \<Rightarrow> Ret (-1) | Some db_checksum \<Rightarrow>
      if f_checksum entry \<noteq> word_of_nat (le_nat db_checksum) then Ret 1 else
      case pread_exact f 8 (uint offset_after_path + 8) of None \<Rightarrow> Ret (-1) | Some db_size_bytes \<Rightarrow>
      if f_size_bytes entry \<noteq> word_of_nat (le_nat db_size_bytes) then Ret 1 else
      case pread_exact f 16 (uint (offset_after_path - TYPE_LEN_MAX)) of None \<Rightarrow> Ret (-1) | Some db_type \<Rightarrow>
      c_bind (strcmp_eq (f_type entry) db_type) (\<lambda>eq. Ret (if eq then 0 else 1)))"

text \<open>
  \<open>compare_proc_fields\<close>. The threshold of the code, 1024 * 1024, is in the unit of the
  stored number.
\<close>

definition compare_proc_fields :: "fdesc \<Rightarrow> db_proc_entry \<Rightarrow> u32 \<Rightarrow> int outcome" where
  "compare_proc_fields f entry db_entry_offset =
     (let db_entry_offset = db_entry_offset + HEADER_SIZE in
      case pread_exact f 4 (uint (PROC_COMM_SIZE_OFFSET + db_entry_offset)) of None \<Rightarrow> Ret (-1) | Some bs \<Rightarrow>
      let db_comm_size = (word_of_nat (le_nat bs) :: u32) in
      if p_comm_size entry \<noteq> db_comm_size then Ret 1 else
      case pread_exact f 4 (uint (PROC_COMM_SIZE_OFFSET + db_comm_size) + 4 + uint db_entry_offset) of
        None \<Rightarrow> Ret (-1) | Some bs \<Rightarrow>
      let db_cmdline_size = (word_of_nat (le_nat bs) :: u32) in
      if p_cmdline_size entry \<noteq> db_cmdline_size then Ret 1 else
      case pread_exact f 4 (uint (PROC_COMM_SIZE_OFFSET + db_comm_size + db_cmdline_size) + 2 * 4 + uint db_entry_offset) of
        None \<Rightarrow> Ret (-1) | Some bs \<Rightarrow>
      let db_rss_src_size = (word_of_nat (le_nat bs) :: u32) in
      case pread_exact f 8 (uint (PROC_COMM_SIZE_OFFSET + db_comm_size + db_cmdline_size + db_rss_src_size) + 3 * 4 +
                            uint db_entry_offset) of
        None \<Rightarrow> Ret (-1) | Some bs \<Rightarrow>
      let db_rss = (word_of_nat (le_nat bs) :: u64);
          diff = (if p_rss entry > db_rss then p_rss entry - db_rss else db_rss - p_rss entry) in
      if diff > 1024 * 1024 then Ret 1 else
      case pread_exact f (uint db_comm_size) (PROC_COMM_SIZE_OFFSET + 4 + uint db_entry_offset) of
        None \<Rightarrow> Ret (-1) | Some db_comm \<Rightarrow>
      c_bind (strcmp_eq (p_comm entry) db_comm) (\<lambda>eq.
      if \<not> eq then Ret 1 else
      case pread_exact f (uint db_cmdline_size) (uint (PROC_COMM_SIZE_OFFSET + db_comm_size) + 2 * 4 + uint db_entry_offset) of
        None \<Rightarrow> Ret (-1) | Some db_cmdline \<Rightarrow>
      c_bind (strcmp_eq (p_cmdline entry) db_cmdline) (\<lambda>eq. Ret (if eq then 0 else 1))))"

text \<open>
  \<open>check_snapshots\<close> on the two descriptors, \<open>None\<close> when \<open>open\<close> fails. The header values
  are stored in \<open>int\<close> variables.
\<close>

definition header_triple :: "fdesc \<Rightarrow> int \<times> int \<times> int" where
  "header_triple f =
     (c_int (get_header_field f MAGIC), c_int (get_header_field f VERSION), c_int (get_header_field f SNAPSHOT_ID))"

definition check_snapshots :: "fdesc option \<Rightarrow> fdesc option \<Rightarrow> int" where
  "check_snapshots old_db new_db =
     (case old_db of None \<Rightarrow> -1 | Some fd_old \<Rightarrow>
      let (magic_old, version_old, id_old) = header_triple fd_old in
      if magic_old = -1 \<or> version_old = -1 \<or> id_old = -1 then -1 else
      case new_db of None \<Rightarrow> -1 | Some fd_new \<Rightarrow>
      let (magic_new, version_new, id_new) = header_triple fd_new in
      if magic_new = -1 \<or> version_new = -1 \<or> id_new = -1 then -1
      else if magic_old \<noteq> magic_new \<or> version_old \<noteq> version_new then 1 else 0)"

text \<open>
  The fields \<open>lookup_entry\<close> copies out of the buffer of 8192 bytes; a size field that
  points behind it makes the copies read out of bounds. Fields the code leaves
  uninitialised are 0 here: the comparisons do not use them.
\<close>

definition u32_at :: "byte list \<Rightarrow> nat \<Rightarrow> u32" where
  "u32_at buf off = word_of_nat (le_nat (fslice buf off 4))"

definition u64_at :: "byte list \<Rightarrow> nat \<Rightarrow> u64" where
  "u64_at buf off = word_of_nat (le_nat (fslice buf off 8))"

definition parse_fileops :: "byte list \<Rightarrow> db_fileops_entry outcome" where
  "parse_fileops buf =
     (let path_len = u32_at buf IDX_PATH_LEN_OFFSET; after = IDX_ABS_PATH_OFFSET + unat path_len in
      if MAX_ENTRY_SIZE < after + TYPE_LEN_MAX + 4 + 2 * 8 + 8 then UB else
      Ret \<lparr>f_entry_size = u32_at buf 0, f_path_len = path_len, f_absolute_path = drop IDX_ABS_PATH_OFFSET buf,
           f_type = fslice buf after TYPE_LEN_MAX, f_checksum = u64_at buf (after + TYPE_LEN_MAX),
           f_size_bytes = u64_at buf (after + TYPE_LEN_MAX + 8), f_mtime = u32_at buf (after + TYPE_LEN_MAX + 2 * 8),
           f_hash = u64_at buf (after + TYPE_LEN_MAX + 4 + 2 * 8), f_dev = 0, f_inode = 0, f_next_entry_bucket = 0\<rparr>)"

definition parse_proc :: "byte list \<Rightarrow> db_proc_entry outcome" where
  "parse_proc buf =
     (let comm_size = u32_at buf PROC_COMM_SIZE_OFFSET; c = unat comm_size in
      if MAX_ENTRY_SIZE < PROC_COMM_SIZE_OFFSET + 4 + c + 4 then UB else
      let cmdline_size = u32_at buf (PROC_COMM_SIZE_OFFSET + 4 + c); m = unat cmdline_size in
      if MAX_ENTRY_SIZE < PROC_COMM_SIZE_OFFSET + 2 * 4 + c + m + 4 then UB else
      let rss_src_size = u32_at buf (PROC_COMM_SIZE_OFFSET + 2 * 4 + c + m); r = unat rss_src_size in
      if MAX_ENTRY_SIZE < PROC_COMM_SIZE_OFFSET + 3 * 4 + c + m + r + 8 then UB else
      Ret \<lparr>p_entry_size = u32_at buf 0, p_pid = u32_at buf PROC_PID_OFFSET, p_ppid = 0, p_state = 0,
           p_comm_size = comm_size, p_comm = drop (PROC_COMM_SIZE_OFFSET + 4) buf,
           p_cmdline_size = cmdline_size, p_cmdline = drop (PROC_COMM_SIZE_OFFSET + 2 * 4 + c) buf,
           p_rss_src_size = rss_src_size, p_rss_src = [],
           p_rss = u64_at buf (PROC_COMM_SIZE_OFFSET + 3 * 4 + c + m + r),
           p_cpu_time = 0, p_next_entry_bucket = 0\<rparr>)"

text \<open>
  The chain loop of \<open>lookup_entry\<close>: \<open>kc\<close> compares keys and \<open>fc\<close> fields at an offset.
\<close>

partial_function (option) lookup_scan ::
  "(u32 \<Rightarrow> int) \<Rightarrow> (u32 \<Rightarrow> int outcome) \<Rightarrow> (u32 \<Rightarrow> u32) \<Rightarrow> u32 \<Rightarrow> int outcome option" where
  "lookup_scan kc fc nxt off =
     (if off = 1 then Some (Ret (-1))
      else if kc off = -1 then Some (Ret (-1))
      else if kc off = 0 then
        Some (c_bind (fc off) (\<lambda>ret. Ret (if ret = 0 then 0 else if ret = 1 then 1 else -1)))
      else if nxt off \<noteq> 0 then lookup_scan kc fc nxt (nxt off)
      else Some (Ret 2))"

definition lookup_chain :: "fdesc \<Rightarrow> int \<Rightarrow> (u32 \<Rightarrow> int) \<Rightarrow> (u32 \<Rightarrow> int outcome) \<Rightarrow> int outcome" where
  "lookup_chain fd_new entry_bucket kc fc =
     (let other_offset = get_header_field fd_new (BUCKET_HEAD + entry_bucket) in
      if other_offset = EMPTY_BUCKET then Ret 2
      else c_bind (of_option (lookup_scan kc fc (\<lambda>off. next_entry fd_new off NEXT_IS_BUCKET)
                                (c_u32 (other_offset - HEADER_SIZE)))) (\<lambda>r. r))"

text \<open>The second half of \<open>lookup_entry\<close>, on the filled buffer.\<close>

definition lookup_buffer :: "fdesc \<Rightarrow> int \<Rightarrow> byte list \<Rightarrow> int outcome" where
  "lookup_buffer fd_new magic entry_buffer =
     (if magic = FILEOPS_MAGIC_ID then
        c_bind (parse_fileops entry_buffer) (\<lambda>index.
        lookup_chain fd_new (uint (f_hash index mod BUCKET_COUNT))
          (compare_fileops_entries fd_new index) (compare_fileops_fields fd_new index))
      else if magic = PROC_MAGIC_ID then
        c_bind (parse_proc entry_buffer) (\<lambda>proc.
        lookup_chain fd_new (uint (p_pid proc mod BUCKET_COUNT))
          (compare_proc_entries fd_new proc) (compare_proc_fields fd_new proc))
      else Ret (-1))"

text \<open>
  \<open>lookup_entry\<close>: 0 found, 1 modified, 2 not found, 3 end of file, -1 error. The size is a
  signed \<open>int\<close>; a \<open>pread\<close> of a negative size fails.
\<close>

definition lookup_entry ::
  "u32 \<Rightarrow> fdesc \<Rightarrow> fdesc \<Rightarrow> int \<Rightarrow> byte list \<Rightarrow> (int \<times> byte list) outcome" where
  "lookup_entry entry_offset fd_old fd_new magic entry_buffer =
     (let entry_offset = entry_offset + HEADER_SIZE;
          (bytes_read, size) = pread_u32 fd_old (uint entry_offset) (stack_junk fd_old);
          entry_size = sint size
      in if bytes_read = -1 then Ret (-1, entry_buffer)
         else if bytes_read = 0 then Ret (3, entry_buffer)
         else if entry_size > MAX_ENTRY_SIZE then Ret (-1, entry_buffer) else
      let (read_bytes, bs) = (case pread fd_old entry_size (uint entry_offset) of
                                None \<Rightarrow> (-1, []) | Some bs \<Rightarrow> (int (length bs), bs));
          entry_buffer = bs @ drop (length bs) entry_buffer
      in if entry_size \<noteq> read_bytes then Ret (if read_bytes = 0 then 3 else -1, entry_buffer)
         else c_bind (lookup_buffer fd_new magic entry_buffer) (\<lambda>ret. Ret (ret, entry_buffer)))"

text \<open>What the report loops print about the entry in the buffer.\<close>

definition entry_text :: "int \<Rightarrow> byte list \<Rightarrow> byte list outcome" where
  "entry_text magic entry_buffer =
     (if magic = FILEOPS_MAGIC_ID then
        (if has_nul (drop IDX_ABS_PATH_OFFSET entry_buffer)
         then Ret (c_str (drop IDX_ABS_PATH_OFFSET entry_buffer) @ [10]) else UB)
      else if magic = PROC_MAGIC_ID then
        Ret (bytes_of ''PID = '' @ print_d (sint (u32_at entry_buffer PROC_PID_OFFSET)) @ [10])
      else Ret [])"

text \<open>
  A report loop: \<open>label\<close> says what is printed for a result of the lookup. The result is the
  value the loop leaves with (0 at the end, -1 on an error), the buffer and the output.
\<close>

partial_function (option) report_loop ::
  "(int \<Rightarrow> byte list option) \<Rightarrow> int \<Rightarrow> fdesc \<Rightarrow> fdesc \<Rightarrow> u32 \<Rightarrow> byte list \<Rightarrow> byte list \<Rightarrow>
   (int \<times> byte list \<times> byte list) outcome option" where
  "report_loop label magic fd_old fd_new entry_offset buffer out =
     (case lookup_entry entry_offset fd_old fd_new magic buffer of
        UB \<Rightarrow> Some UB | Diverge \<Rightarrow> Some Diverge
      | Ret (ret, buffer) \<Rightarrow>
          (case (case label ret of None \<Rightarrow> Ret out
                 | Some l \<Rightarrow> c_bind (entry_text magic buffer) (\<lambda>t. Ret (out @ l @ t))) of
             UB \<Rightarrow> Some UB | Diverge \<Rightarrow> Some Diverge
           | Ret out \<Rightarrow>
               (let entry_offset = next_entry fd_old entry_offset NEXT_IS_REGULAR in
                if entry_offset = 1 \<or> ret = -1 then Some (Ret (-1, buffer, out))
                else if entry_offset \<noteq> 0 then report_loop label magic fd_old fd_new entry_offset buffer out
                else Some (Ret (0, buffer, out)))))"

definition old_label :: "int \<Rightarrow> byte list option" where
  "old_label ret =
     (if ret = 1 then Some (bytes_of ''Modificat: '')
      else if ret = 2 then Some (bytes_of ''Sters: '') else None)"

definition new_label :: "int \<Rightarrow> byte list option" where
  "new_label ret = (if ret = 2 then Some (bytes_of ''Creat: '') else None)"

text \<open>
  \<open>main\<close> after the arguments: \<open>out_ok\<close> says whether the output file could be opened,
  \<open>junk\<close> is the uninitialised buffer. The exit status and the output file, if opened.
\<close>

definition db_diff :: "fdesc option \<Rightarrow> fdesc option \<Rightarrow> bool \<Rightarrow> byte list \<Rightarrow> (int \<times> byte list option) outcome" where
  "db_diff old_db new_db out_ok junk =
     (let ret_snapshots = check_snapshots old_db new_db in
      if ret_snapshots = -1 then Ret (1, None)
      else if ret_snapshots = 1 then Ret (0, None) else
      case old_db of None \<Rightarrow> Ret (1, None) | Some fd_old \<Rightarrow>
      case new_db of None \<Rightarrow> Ret (1, None) | Some fd_new \<Rightarrow>
      if \<not> out_ok then Ret (1, None) else
      let magic = c_int (get_header_field fd_old MAGIC) in
      c_bind (c_bind (of_option (report_loop old_label magic fd_old fd_new 0 junk [])) (\<lambda>r. r)) (\<lambda>(ret, buffer, out).
      if ret = -1 then Ret (-1, Some out) else
      c_bind (c_bind (of_option (report_loop new_label magic fd_new fd_old 0 buffer out)) (\<lambda>r. r)) (\<lambda>(ret, buffer, out).
      Ret (ret, Some out))))"

text \<open>The options of the command line, as the argument loop reads them.\<close>

record diff_args =
  da_old :: "string option"
  da_new :: "string option"
  da_out :: "string option"

fun parse_diff_args :: "string list \<Rightarrow> diff_args \<Rightarrow> diff_args" where
  "parse_diff_args (opt # v # rest) a =
     (if opt = ''--old'' then parse_diff_args rest (a\<lparr>da_old := Some v\<rparr>)
      else if opt = ''--new'' then parse_diff_args rest (a\<lparr>da_new := Some v\<rparr>)
      else if opt = ''--out'' then parse_diff_args rest (a\<lparr>da_out := Some v\<rparr>)
      else parse_diff_args (v # rest) a)"
| "parse_diff_args _ a = a"

definition diff_main :: "string list \<Rightarrow> (string \<Rightarrow> fdesc option) \<Rightarrow> (string \<Rightarrow> bool) \<Rightarrow> byte list \<Rightarrow>
    (int \<times> byte list option) outcome" where
  "diff_main argv files creatable junk =
     (if length argv \<le> 6 then Ret (1, None) else
      let a = parse_diff_args (tl argv) \<lparr>da_old = None, da_new = None, da_out = None\<rparr>
      in db_diff (Option.bind (da_old a) files) (Option.bind (da_new a) files)
           (case da_out a of None \<Rightarrow> False | Some p \<Rightarrow> creatable p) junk)"

section \<open>Comparing fields\<close>

definition same_fileops :: "db_fileops_entry \<Rightarrow> db_fileops_entry \<Rightarrow> bool" where
  "same_fileops e e' \<longleftrightarrow>
     f_mtime e = f_mtime e' \<and> f_checksum e = f_checksum e' \<and> f_size_bytes e = f_size_bytes e' \<and>
     c_str (f_type e) = c_str (f_type e')"

definition same_proc :: "db_proc_entry \<Rightarrow> db_proc_entry \<Rightarrow> bool" where
  "same_proc e e' \<longleftrightarrow>
     \<bar>uint (p_rss e) - uint (p_rss e')\<bar> \<le> 1024 * 1024 \<and> p_comm_size e = p_comm_size e' \<and>
     p_cmdline_size e = p_cmdline_size e' \<and>
     c_str (p_comm e) = c_str (p_comm e') \<and> c_str (p_cmdline e) = c_str (p_cmdline e')"

lemma c_str_take:
  assumes "has_nul (take n s)"
  shows "has_nul s" "c_str s = c_str (take n s)"
proof -
  show "has_nul s"
    using assms by (auto simp: has_nul_def dest: in_set_takeD)
  have "s = take n s @ drop n s"
    by simp
  moreover have "takeWhile (\<lambda>b. b \<noteq> 0) (take n s @ drop n s) = takeWhile (\<lambda>b. b \<noteq> 0) (take n s)"
    using assms by (intro takeWhile_append1 [of 0]) (simp_all add: has_nul_def)
  ultimately show "c_str s = c_str (take n s)"
    by (simp add: c_str_def)
qed

lemma compare_fileops_fields_ok:
  assumes v: "f_valid e" and v': "f_valid e'" and r: "f_rep r e" and p: "placed (bytes f) off (f_body e')"
  shows "compare_fileops_fields f r off = Ret (if same_fileops e e' then 0 else 1)"
proof -
  let ?n = "unat (f_path_len e')"
  note sz = f_valid_sizes [OF v'] and flds = f_body_fields [OF v' refl]
  have off4: "uint (off + 2329 + 4) = int (unat off + 2329 + 4)"
    using placed_offset [OF p, of 4] sz(1) by simp
  have rd1: "pread_u32 f (uint (off + 2329 + 4)) (stack_junk f) = (4, f_path_len e')"
    unfolding off4 using placed_pread_u32 [OF p, of 4] sz(1) flds(2) by (simp add: le_nat_le_bytes32)
  have eq: "8 + f_path_len e' + 16 + (off + 2329) = off + 2329 + word_of_nat (24 + ?n)"
    "8 + f_path_len e' + 16 + (off + 2329) - 16 = off + 2329 + word_of_nat (8 + ?n)"
    by simp_all
  have ua: "uint (8 + f_path_len e' + 16 + (off + 2329)) = int (unat off + 2329 + (24 + ?n))"
    unfolding eq(1) using placed_offset(1) [OF p, of "24 + ?n"] sz(1) by simp
  have ub: "uint (8 + f_path_len e' + 16 + (off + 2329) - 16) = int (unat off + 2329 + (8 + ?n))"
    unfolding eq(2) using placed_offset(1) [OF p, of "8 + ?n"] sz(1) by simp
  have rd2: "pread_exact f 4 (uint (8 + f_path_len e' + 16 + (off + 2329)) + 2 * 8) = Some (le_bytes 4 (unat (f_mtime e')))"
    unfolding ua using placed_exact [OF p, of "40 + ?n" 4] sz(1) flds(7) by simp
  have rd3: "pread_exact f 8 (uint (8 + f_path_len e' + 16 + (off + 2329))) = Some (le_bytes 8 (unat (f_checksum e')))"
    unfolding ua using placed_exact [OF p, of "24 + ?n" 8] sz(1) flds(5) by simp
  have rd4: "pread_exact f 8 (uint (8 + f_path_len e' + 16 + (off + 2329)) + 8) = Some (le_bytes 8 (unat (f_size_bytes e')))"
    unfolding ua using placed_exact [OF p, of "32 + ?n" 8] sz(1) flds(6) by simp
  have rd5: "pread_exact f 16 (uint (8 + f_path_len e' + 16 + (off + 2329) - 16)) = Some (f_type e')"
    unfolding ub using placed_exact [OF p, of "8 + ?n" 16] sz(1) flds(4) by simp
  have "strcmp_eq (f_type r) (f_type e') = Ret (c_str (f_type e) = c_str (f_type e'))"
    using v v' r by (simp add: strcmp_eq_def f_valid_def f_rep_def)
  moreover have "compare_fileops_fields f r off =
      (if f_mtime r \<noteq> f_mtime e' \<or> f_checksum r \<noteq> f_checksum e' \<or> f_size_bytes r \<noteq> f_size_bytes e' then Ret 1
       else c_bind (strcmp_eq (f_type r) (f_type e')) (\<lambda>eq. Ret (if eq then 0 else 1)))"
    unfolding compare_fileops_fields_def Let_def rd1
    by (simp only: split_conv rd2 rd3 rd4 rd5 option.case le_nat_le_bytes64 le_nat_le_bytes32 of_nat_unat ucast_id) simp
  ultimately show ?thesis
    using r by (simp add: same_fileops_def f_rep_def)
qed

lemma word_diff_le:
  fixes a b :: u64
  shows "(if a > b then a - b else b - a) > 1024 * 1024 \<longleftrightarrow> \<bar>uint a - uint b\<bar> > 1024 * 1024"
proof -
  have d: "uint (x - y) = uint x - uint y" if "y \<le> x" for x y :: u64
    using that by (simp add: uint_minus_simple_alt)
  show ?thesis
  proof (cases "a > b")
    case True
    then have "b \<le> a" "uint b < uint a"
      by (simp_all add: word_less_def word_le_def)
    with True d [of b a] show ?thesis
      by (simp add: word_less_def)
  next
    case False
    then have "a \<le> b" "uint a \<le> uint b"
      by (simp_all add: word_le_def not_less)
    with False d [of a b] show ?thesis
      by (simp add: word_less_def)
  qed
qed

lemma uint_add_small:
  assumes "unat (x :: u32) = k" "unat (y :: u32) = l" "k + l < 4294967296"
  shows "uint (x + y) = int (k + l)"
proof -
  have "unat (x + word_of_nat l) = k + l"
    using assms(1,3) unat_add_nat [of x l] by simp
  moreover have "word_of_nat l = y"
    using assms(2) by auto
  ultimately show ?thesis
    unfolding uint_nat by simp
qed

lemma proc_offsets:
  assumes "unat (cs :: u32) = c" "unat (ms :: u32) = m" "unat (rs :: u32) = r" "c \<le> 256" "m \<le> 1024" "r \<le> 300"
  shows "uint (13 + cs) = int (13 + c)" "uint (13 + cs + ms) = int (13 + c + m)"
    and "uint (13 + cs + ms + rs) = int (13 + c + m + r)"
proof -
  have n: "unat (13 :: u32) = 13"
    by simp
  show a: "uint (13 + cs) = int (13 + c)"
    using uint_add_small [OF n assms(1)] assms(4) by simp
  then have a': "unat (13 + cs) = 13 + c"
    by (simp add: unat_eq_nat_uint)
  show b: "uint (13 + cs + ms) = int (13 + c + m)"
    using uint_add_small [OF a' assms(2)] assms(4,5) by simp
  then have b': "unat (13 + cs + ms) = 13 + c + m"
    by (simp add: unat_eq_nat_uint)
  show "uint (13 + cs + ms + rs) = int (13 + c + m + r)"
    using uint_add_small [OF b' assms(3)] assms(4-6) by simp
qed

lemma compare_proc_reads:
  assumes v': "p_valid e'" and p: "placed (bytes f) off (p_body e')"
    and n: "c = length (p_comm e')" "m = length (p_cmdline e')" "r = length (p_rss_src e')"
  shows "pread_exact f 4 (uint (13 + (off + 2329))) = Some (le_bytes 4 (unat (p_comm_size e')))"
    and "pread_exact f 4 (uint (13 + p_comm_size e') + 4 + uint (off + 2329)) = Some (le_bytes 4 (unat (p_cmdline_size e')))"
    and "pread_exact f 4 (uint (13 + p_comm_size e' + p_cmdline_size e') + 2 * 4 + uint (off + 2329)) =
      Some (le_bytes 4 (unat (p_rss_src_size e')))"
    and "pread_exact f 8 (uint (13 + p_comm_size e' + p_cmdline_size e' + p_rss_src_size e') + 3 * 4 + uint (off + 2329)) =
      Some (le_bytes 8 (unat (p_rss e')))"
    and "pread_exact f (uint (p_comm_size e')) (13 + 4 + uint (off + 2329)) = Some (p_comm e')"
    and "pread_exact f (uint (p_cmdline_size e')) (uint (13 + p_comm_size e') + 2 * 4 + uint (off + 2329)) = Some (p_cmdline e')"
proof -
  note sz = p_valid_sizes [OF v', folded n] and flds = p_body_fields [OF v' n]
  have off: "uint (off + 2329) = int (unat off + 2329)" "uint (off + 2329 + 13) = int (unat off + 2329 + 13)"
    using placed_offset [OF p, of 13] sz(1) by simp_all
  have cm: "13 + (off + 2329) = off + 2329 + 13"
    by simp
  note po = proc_offsets [OF sz(6-8,2-4)]
  note us = uint_nat [of "p_comm_size e'"] uint_nat [of "p_cmdline_size e'"]
  show "pread_exact f 4 (uint (13 + (off + 2329))) = Some (le_bytes 4 (unat (p_comm_size e')))"
    unfolding cm off(2) using placed_exact [OF p, of 13 4] sz(1,6) flds(3) by simp
  show "pread_exact f 4 (uint (13 + p_comm_size e') + 4 + uint (off + 2329)) = Some (le_bytes 4 (unat (p_cmdline_size e')))"
    unfolding po off(1) using placed_exact [OF p, of "17 + c" 4] sz(1,7) flds(5) by (simp add: add_ac)
  show "pread_exact f 4 (uint (13 + p_comm_size e' + p_cmdline_size e') + 2 * 4 + uint (off + 2329)) =
      Some (le_bytes 4 (unat (p_rss_src_size e')))"
    unfolding po off(1) using placed_exact [OF p, of "21 + c + m" 4] sz(1,8) flds(7) by (simp add: add_ac)
  show "pread_exact f 8 (uint (13 + p_comm_size e' + p_cmdline_size e' + p_rss_src_size e') + 3 * 4 + uint (off + 2329)) =
      Some (le_bytes 8 (unat (p_rss e')))"
    unfolding po off(1) using placed_exact [OF p, of "25 + c + m + r" 8] sz(1) flds(8) by (simp add: add_ac)
  show "pread_exact f (uint (p_comm_size e')) (13 + 4 + uint (off + 2329)) = Some (p_comm e')"
    unfolding off(1) us sz(6) using placed_exact [OF p, of 17 c] sz(1) flds(4) by simp
  show "pread_exact f (uint (p_cmdline_size e')) (uint (13 + p_comm_size e') + 2 * 4 + uint (off + 2329)) = Some (p_cmdline e')"
    unfolding po off(1) us sz(7) using placed_exact [OF p, of "21 + c" m] sz(1) flds(6) by (simp add: add_ac)
qed

lemma compare_proc_fields_ok:
  assumes v: "p_valid e" and v': "p_valid e'" and r: "p_rep r e" and p: "placed (bytes f) off (p_body e')"
  shows "compare_proc_fields f r off = Ret (if same_proc e e' then 0 else 1)"
proof -
  note rd = compare_proc_reads [OF v' p refl refl refl]
  have ne: "has_nul (take (unat (p_comm_size e)) (p_comm r))" "has_nul (take (unat (p_cmdline_size e)) (p_cmdline r))"
    "has_nul (p_comm e')" "has_nul (p_cmdline e')"
    using v v' r by (simp_all add: p_valid_def p_rep_def)
  have sc: "strcmp_eq (p_comm r) (p_comm e') = Ret (c_str (p_comm e) = c_str (p_comm e'))"
    "strcmp_eq (p_cmdline r) (p_cmdline e') = Ret (c_str (p_cmdline e) = c_str (p_cmdline e'))"
    using c_str_take [OF ne(1)] c_str_take [OF ne(2)] ne(3,4) r by (simp_all add: strcmp_eq_def p_rep_def)
  have "compare_proc_fields f r off =
      (if p_comm_size r \<noteq> p_comm_size e' \<or> p_cmdline_size r \<noteq> p_cmdline_size e' then Ret 1
       else if (if p_rss r > p_rss e' then p_rss r - p_rss e' else p_rss e' - p_rss r) > 1024 * 1024 then Ret 1
       else c_bind (strcmp_eq (p_comm r) (p_comm e')) (\<lambda>eq. if \<not> eq then Ret 1
         else c_bind (strcmp_eq (p_cmdline r) (p_cmdline e')) (\<lambda>eq. Ret (if eq then 0 else 1))))"
    unfolding compare_proc_fields_def Let_def rd(1)
    by (simp only: split_conv rd option.case le_nat_le_bytes64 le_nat_le_bytes32 of_nat_unat ucast_id) simp
  then show ?thesis
    unfolding sc word_diff_le using r by (simp add: same_proc_def p_rep_def)
qed

section \<open>Looking an entry up\<close>

lemma rel_pos_not_1:
  assumes "layout d rs" "i \<le> length rs"
  shows "rel_pos rs i \<noteq> 1"
proof (cases "i = 0")
  case True
  then show ?thesis
    by (simp add: rel_pos_def rec_pos_def)
next
  case False
  then show ?thesis
    using rel_pos_small(2) [OF assms(1) _ assms(2)] by simp
qed

lemma lookup_scan_chain:
  assumes l: "layout (bytes f) rs" and c: "chain rs b = xs @ i # ys"
    and kc: "\<And>j. j \<in> set (i # ys) \<Longrightarrow> kc (rel_pos rs j) = (if K j then 0 else 1)"
    and fc: "\<And>j. j \<in> set (i # ys) \<Longrightarrow> K j \<Longrightarrow> fc (rel_pos rs j) = Ret (if S j then 0 else 1)"
  shows "lookup_scan kc fc (\<lambda>off. next_entry f off NEXT_IS_BUCKET) (rel_pos rs i) =
    Some (Ret (case find K (i # ys) of None \<Rightarrow> 2 | Some j \<Rightarrow> if S j then 0 else 1))"
  using c kc fc
proof (induction ys arbitrary: xs i)
  case Nil
  have "rel_pos rs i \<noteq> 1"
    using rel_pos_not_1 [OF l, of i] set_chain [of i rs b] Nil(1) by simp
  with Nil show ?case
    using next_entry_chain [OF l Nil(1)] by (simp add: lookup_scan.simps)
next
  case (Cons j ys)
  have i: "i \<in> set (chain rs b)" and j: "0 < j" "j \<le> length rs"
    using sorted_chain [of rs b] set_chain [of j rs b] Cons.prems(1)
    by (auto simp: sorted_wrt_append)
  have "rel_pos rs i \<noteq> 1"
    using rel_pos_not_1 [OF l, of i] i by (simp add: set_chain)
  moreover have "lookup_scan kc fc (\<lambda>off. next_entry f off NEXT_IS_BUCKET) (rel_pos rs j) =
      Some (Ret (case find K (j # ys) of None \<Rightarrow> 2 | Some j \<Rightarrow> if S j then 0 else 1))"
    using Cons.prems by (intro Cons.IH [of "xs @ [i]"]) auto
  ultimately show ?case
    using next_entry_chain [OF l Cons.prems(1)] rel_pos_small [OF l j] Cons.prems(2,3) [of i]
    by (subst lookup_scan.simps) simp
qed

lemma find_map: "find Q (map g xs) = map_option g (find (Q \<circ> g) xs)"
  by (induction xs) auto

lemma find_filter: "(\<And>x. x \<in> set xs \<Longrightarrow> Q x \<Longrightarrow> P x) \<Longrightarrow> find Q (filter P xs) = find Q xs"
  by (induction xs) auto

lemma find_nth: "find Q es = map_option ((!) es) (find (\<lambda>j. Q (es ! j)) [0..<length es])"
  using find_map [of Q "(!) es" "[0..<length es]"] by (simp add: map_nth comp_def)

text \<open>What the lookup of an entry promises: found, modified or missing.\<close>

definition lookup_status :: "('e \<Rightarrow> 'k) \<Rightarrow> ('e \<Rightarrow> 'e \<Rightarrow> bool) \<Rightarrow> 'e list \<Rightarrow> 'e \<Rightarrow> int" where
  "lookup_status key same es e =
     (case find (\<lambda>e'. key e = key e') es of None \<Rightarrow> 2 | Some e' \<Rightarrow> if same e e' then 0 else 1)"

lemma lookup_chain_ok:
  assumes l: "layout (bytes f) rs" and fd: "fdno f \<noteq> -1" and b: "b < 256"
    and kc: "\<And>j. j \<in> set (chain rs b) \<Longrightarrow> kc (rel_pos rs j) = (if K j then 0 else 1)"
    and fc: "\<And>j. j \<in> set (chain rs b) \<Longrightarrow> K j \<Longrightarrow> fc (rel_pos rs j) = Ret (if S j then 0 else 1)"
  shows "lookup_chain f (int b) kc fc =
    Ret (case find K (chain rs b) of None \<Rightarrow> 2 | Some j \<Rightarrow> if S j then 0 else 1)"
proof (cases "chain rs b")
  case Nil
  then show ?thesis
    using chain_start(1) [OF l fd b] head_tail_empty(1) [OF l, of b] by (simp add: lookup_chain_def)
next
  case (Cons i ys)
  have "head_pos rs b \<noteq> EMPTY_BUCKET"
    using head_tail_empty(1) [OF l, of b] Cons by simp
  then have "int (head_pos rs b) \<noteq> EMPTY_BUCKET"
    by simp
  moreover have "lookup_scan kc fc (\<lambda>off. next_entry f off NEXT_IS_BUCKET) (rel_pos rs i) =
      Some (Ret (case find K (i # ys) of None \<Rightarrow> 2 | Some j \<Rightarrow> if S j then 0 else 1))"
    using kc fc Cons by (intro lookup_scan_chain [OF l, of b "[]"]) simp_all
  ultimately show ?thesis
    using chain_start(1) [OF l fd b] chain_start(2) [OF l fd b Cons] Cons
    by (simp add: lookup_chain_def Let_def)
qed

lemma lookup_read:
  assumes l: "layout (bytes old) rs" and i: "i < length rs" and buf: "length buf = 8192"
  shows "\<exists>buf'. length buf' = 8192 \<and> take (length (snd (rs ! i))) buf' = snd (rs ! i) \<and>
    lookup_entry (rel_pos rs i) old new magic buf =
      c_bind (lookup_buffer new magic buf') (\<lambda>ret. Ret (ret, buf'))"
proof -
  let ?sz = "rec_len (rs ! i)" and ?p = "rec_pos rs i"
  note size = layout_entry_size [OF l i] and abs = rel_pos_abs [OF l, of i]
  have fits: "?p + ?sz \<le> length (bytes old)"
    using rec_end_le [OF i] layoutD(1) [OF l] by (simp add: rec_len_def)
  define bs where "bs = fslice (bytes old) ?p ?sz"
  have lbs: "length bs = ?sz"
    using fits by (simp add: bs_def length_fslice)
  define buf' where "buf' = bs @ drop (length bs) buf"
  have off: "uint (rel_pos rs i + 2329) = int ?p"
    using abs(3) i by (simp add: add.commute)
  have r1: "pread_u32 old (int ?p) junk = (4, word_of_nat ?sz)" for junk
    using fits size by (simp add: pread_u32_in)
  have usz: "unat (word_of_nat ?sz :: u32) = ?sz"
    using size(2) by (simp only: unat_of_nat) simp
  then have ss: "sint (word_of_nat ?sz :: u32) = int ?sz"
    using sint_small [of "word_of_nat ?sz"] size(2) by (simp only:)
  have r2: "pread old (int ?sz) (int ?p) = Some bs"
    by (simp only: pread_in of_nat_0_le_iff nat_int bs_def)
  have "length buf' = 8192"
    using lbs size(2) buf by (simp add: buf'_def)
  moreover have "take (length (snd (rs ! i))) buf' = snd (rs ! i)"
  proof -
    have "take (length (snd (rs ! i))) buf' = take (length (snd (rs ! i))) bs"
      using lbs by (simp add: buf'_def rec_len_def)
    also have "\<dots> = fslice (bytes old) ?p (length (snd (rs ! i)))"
      by (simp add: bs_def fslice_def rec_len_def min_def)
    finally show ?thesis
      using layoutD(5) [OF l i] by simp
  qed
  moreover have "lookup_entry (rel_pos rs i) old new magic buf =
      c_bind (lookup_buffer new magic buf') (\<lambda>ret. Ret (ret, buf'))"
    unfolding lookup_entry_def Let_def off r1 split_conv ss r2 option.case buf'_def [symmetric]
    using lbs size(2) by simp
  ultimately show ?thesis
    by blast
qed

lemma lookup_eof:
  assumes l: "layout (bytes old) rs"
  shows "lookup_entry (rel_pos rs (length rs)) old new magic buf = Ret (3, buf)"
proof -
  have off: "uint (rel_pos rs (length rs) + 2329) = int (length (bytes old))"
    using rel_pos_abs(3) [OF l, of "length rs"] layoutD(1) [OF l] by (simp add: add.commute)
  have r: "pread_u32 old (int (length (bytes old))) junk = (0, junk)" for junk
    by (rule pread_u32_eof) simp_all
  show ?thesis
    unfolding lookup_entry_def Let_def off r split_conv by simp
qed

section \<open>The report of an entry kind\<close>

definition report_part :: "(int \<Rightarrow> byte list option) \<Rightarrow> ('e \<Rightarrow> int) \<Rightarrow> ('e \<Rightarrow> byte list) \<Rightarrow> 'e list \<Rightarrow> byte list" where
  "report_part label status show_e es =
     concat (map (\<lambda>e. case label (status e) of None \<Rightarrow> [] | Some l \<Rightarrow> l @ show_e e) es)"

text \<open>
  What the lookup needs from an entry kind on top of \<open>entry_codec\<close>: parsing a buffer that
  starts with an entry gives a record that stands for it, the field comparison decides
  \<open>same\<close>, and the format number selects this kind in the two branches of the code.
\<close>

locale entry_diff = entry_codec body bkt key valid rep cmp
  for body :: "'e \<Rightarrow> byte list" and bkt key valid and rep :: "'r \<Rightarrow> 'e \<Rightarrow> bool" and cmp +
  fixes parse :: "byte list \<Rightarrow> 'r outcome" and rbkt :: "'r \<Rightarrow> int" and fcmp :: "fdesc \<Rightarrow> 'r \<Rightarrow> u32 \<Rightarrow> int outcome"
    and same :: "'e \<Rightarrow> 'e \<Rightarrow> bool" and magic :: int and show_e :: "'e \<Rightarrow> byte list"
  assumes parse: "valid e \<Longrightarrow> length buf = MAX_ENTRY_SIZE \<Longrightarrow> take (length (body e)) buf = body e \<Longrightarrow>
      \<exists>r. parse buf = Ret r \<and> rep r e \<and> rbkt r = int (bkt e)"
    and fcmp: "valid e \<Longrightarrow> valid e' \<Longrightarrow> rep r e \<Longrightarrow> placed (bytes f) off (body e') \<Longrightarrow>
      fcmp f r off = Ret (if same e e' then 0 else 1)"
    and select: "lookup_buffer f magic buf = c_bind (parse buf) (\<lambda>r. lookup_chain f (rbkt r) (cmp f r) (fcmp f r))"
    and show_e: "valid e \<Longrightarrow> take (length (body e)) buf = body e \<Longrightarrow> entry_text magic buf = Ret (show_e e)"
begin

lemma chain_lookup:
  assumes h: "holds bkt body valid (bytes f) es" and fd: "fdno f \<noteq> -1" and v: "valid e" and r: "rep r e"
  shows "lookup_chain f (int (bkt e)) (cmp f r) (fcmp f r) = Ret (lookup_status key same es e)"
proof -
  let ?rs = "raws bkt body es" and ?K = "\<lambda>j. key e = key (es ! j)"
  have l: "layout (bytes f) ?rs" and vs: "list_all valid es"
    using h by (simp_all add: holds_def)
  have b: "bkt e < 256"
    using raw [OF v] by (simp add: raw_ok_def)
  have fc: "fcmp f r (rel_pos ?rs j) = Ret (if same e (es ! j) then 0 else 1)" if "j \<in> set (chain ?rs (bkt e))" for j
    using that layout_placed [OF l, of j] vs by (intro fcmp [OF v _ r]) (auto simp: chain_raws list_all_length)
  have "chain ?rs (bkt e) = filter (\<lambda>j. bkt (es ! j) = bkt e) [0..<length es]"
    unfolding chain_def length_raws by (rule filter_cong) simp_all
  moreover have "bkt (es ! j) = bkt e" if "j \<in> set [0..<length es]" "?K j" for j
    using that bkt_key [OF v, of "es ! j"] vs by (simp add: list_all_length)
  ultimately have "find ?K (chain ?rs (bkt e)) = find ?K [0..<length es]"
    using find_filter [of "[0..<length es]" ?K "\<lambda>j. bkt (es ! j) = bkt e"] by simp
  then have "(case find ?K (chain ?rs (bkt e)) of None \<Rightarrow> 2 | Some j \<Rightarrow> if same e (es ! j) then 0 else 1) =
      lookup_status key same es e"
    unfolding lookup_status_def find_nth [of "\<lambda>e'. key e = key e'" es]
    by (cases "find ?K [0..<length es]") simp_all
  moreover have "lookup_chain f (int (bkt e)) (cmp f r) (fcmp f r) =
      Ret (case find ?K (chain ?rs (bkt e)) of None \<Rightarrow> 2 | Some j \<Rightarrow> if same e (es ! j) then 0 else 1)"
    using fc by (intro lookup_chain_ok [OF l fd b]) (auto simp: cmp_at [OF h v r] chain_raws)
  ultimately show ?thesis
    by simp
qed

lemma lookup_entry_ok:
  assumes h: "holds bkt body valid (bytes old) es" and h': "holds bkt body valid (bytes new) es'"
    and fd: "fdno new \<noteq> -1" and i: "i < length es" and buf: "length buf = 8192"
  shows "\<exists>buf'. length buf' = 8192 \<and> entry_text magic buf' = Ret (show_e (es ! i)) \<and>
    lookup_entry (rel_pos (raws bkt body es) i) old new magic buf = Ret (lookup_status key same es' (es ! i), buf')"
proof -
  have l: "layout (bytes old) (raws bkt body es)" and v: "valid (es ! i)"
    using h i by (simp_all add: holds_def list_all_length)
  obtain buf' where b: "length buf' = 8192" "take (length (body (es ! i))) buf' = body (es ! i)"
    and lk: "lookup_entry (rel_pos (raws bkt body es) i) old new magic buf =
      c_bind (lookup_buffer new magic buf') (\<lambda>ret. Ret (ret, buf'))"
    using lookup_read [OF l _ buf, of i new magic] i by auto
  obtain r where r: "parse buf' = Ret r" "rep r (es ! i)" "rbkt r = int (bkt (es ! i))"
    using parse [OF v b] by blast
  show ?thesis
    using b(1) show_e [OF v b(2)] lk r chain_lookup [OF h' fd v r(2)]
    by (intro exI [of _ buf']) (simp add: select)
qed

lemma report_from:
  assumes h: "holds bkt body valid (bytes old) es" and h': "holds bkt body valid (bytes new) es'"
    and fd: "fdno new \<noteq> -1" and lab: "label 3 = None" and buf: "length buf = 8192" and i: "i \<le> length es"
  shows "\<exists>buf'. length buf' = 8192 \<and>
    report_loop label magic old new (rel_pos (raws bkt body es) i) buf out =
      Some (Ret (0, buf', out @ report_part label (lookup_status key same es') show_e (drop i es)))"
  using i buf
proof (induction "length es - i" arbitrary: i buf out)
  case 0
  let ?rs = "raws bkt body es"
  have l: "layout (bytes old) ?rs"
    using h by (simp add: holds_def)
  have "i = length es"
    using 0 by simp
  then have "lookup_entry (rel_pos ?rs i) old new magic buf = Ret (3, buf)" "next_entry old (rel_pos ?rs i) 0 = 0"
    using lookup_eof [OF l] next_entry_eof [OF l] by simp_all
  then show ?case
    using lab \<open>i = length es\<close> 0 by (subst report_loop.simps) (simp add: report_part_def)
next
  case (Suc n)
  let ?rs = "raws bkt body es" and ?st = "lookup_status key same es' (es ! i)"
  have l: "layout (bytes old) ?rs" and i: "i < length es"
    using h Suc by (simp_all add: holds_def)
  obtain buf' where b: "length buf' = 8192" "entry_text magic buf' = Ret (show_e (es ! i))"
    "lookup_entry (rel_pos ?rs i) old new magic buf = Ret (?st, buf')"
    using lookup_entry_ok [OF h h' fd i Suc.prems(2)] by blast
  have st: "?st \<noteq> -1"
    by (simp add: lookup_status_def split: option.split)
  let ?out = "out @ (case label ?st of None \<Rightarrow> [] | Some l \<Rightarrow> l @ show_e (es ! i))"
  have "n = length es - Suc i"
    using Suc.hyps(2) by simp
  then obtain buf'' where IH: "length buf'' = 8192"
    "report_loop label magic old new (rel_pos ?rs (Suc i)) buf' ?out =
      Some (Ret (0, buf'', ?out @ report_part label (lookup_status key same es') show_e (drop (Suc i) es)))"
    using Suc.hyps(1) [of "Suc i" buf' ?out] i b(1) by auto
  have nx: "next_entry old (rel_pos ?rs i) 0 = rel_pos ?rs (Suc i)"
    "rel_pos ?rs (Suc i) \<noteq> 0" "rel_pos ?rs (Suc i) \<noteq> 1"
    using next_entry_regular [OF l] rel_pos_small [OF l, of "Suc i"] i by simp_all
  have "report_loop label magic old new (rel_pos ?rs i) buf out =
      report_loop label magic old new (rel_pos ?rs (Suc i)) buf' ?out"
    using b(2,3) nx st
    by (subst report_loop.simps) (cases "label ?st", simp_all)
  then show ?case
    using IH i by (intro exI [of _ buf'']) (simp add: report_part_def Cons_nth_drop_Suc [symmetric])
qed

end

section \<open>The two entry kinds\<close>

lemma fslice_prefix:
  assumes "take (length bs) buf = bs" "k + n \<le> length bs"
  shows "fslice buf k n = fslice bs k n"
  using fslice_eq_sub [of buf 0 bs k n] assms by (simp add: fslice_def)

definition f_text :: "db_fileops_entry \<Rightarrow> byte list" where
  "f_text e = c_str (f_absolute_path e) @ [10]"

definition p_text :: "db_proc_entry \<Rightarrow> byte list" where
  "p_text e = bytes_of ''PID = '' @ print_d (sint (p_pid e)) @ [10]"

lemma u32_prefix:
  assumes "take (length bs) buf = bs" "fslice bs k 4 = le_bytes 4 (unat w)" "k + 4 \<le> length bs"
  shows "u32_at buf k = w"
  using fslice_prefix [OF assms(1,3)] assms(2) by (simp add: u32_at_def le_nat_le_bytes32)

lemma u64_prefix:
  assumes "take (length bs) buf = bs" "fslice bs k 8 = le_bytes 8 (unat w)" "k + 8 \<le> length bs"
  shows "u64_at buf k = w"
  using fslice_prefix [OF assms(1,3)] assms(2) by (simp add: u64_at_def le_nat_le_bytes64)

lemma parse_fileops_ok:
  assumes v: "f_valid e" and buf: "length buf = 8192" "take (length (f_body e)) buf = f_body e"
  shows "\<exists>r. parse_fileops buf = Ret r \<and> f_rep r e \<and> uint (f_hash r mod 256) = int (f_bkt e)"
proof -
  define n where "n = unat (f_path_len e)"
  note sz = f_valid_sizes [OF v, folded n_def] and flds = f_body_fields [OF v n_def]
  have ix: "8 + n + 16 = 24 + n" "24 + n + 8 = 32 + n" "24 + n + 2 * 8 = 40 + n" "24 + n + 4 + 2 * 8 = 44 + n"
    by simp_all
  have pl: "u32_at buf 4 = f_path_len e"
    by (rule u32_prefix [OF buf(2) flds(2)]) (simp add: sz(1))
  have ty: "fslice buf (8 + n) 16 = f_type e" and pa: "take n (drop 8 buf) = f_absolute_path e"
    using fslice_prefix [OF buf(2), of "8 + n" 16] fslice_prefix [OF buf(2), of 8 n] flds(3,4) sz(1)
    by (simp_all add: fslice_def)
  have rd: "u64_at buf (24 + n) = f_checksum e" "u64_at buf (32 + n) = f_size_bytes e"
    "u32_at buf (40 + n) = f_mtime e" "u64_at buf (44 + n) = f_hash e"
    by (rule u64_prefix [OF buf(2) flds(5)] u64_prefix [OF buf(2) flds(6)] u32_prefix [OF buf(2) flds(7)]
          u64_prefix [OF buf(2) flds(8)]; simp add: sz(1))+
  have fits: "\<not> 8192 < 44 + n + 8"
    using sz(2) by simp
  show ?thesis
    unfolding parse_fileops_def Let_def pl n_def [symmetric] ix rd
    using ty pa fits by (simp add: f_rep_def f_bkt_def n_def)
qed

lemma parse_proc_ok:
  assumes v: "p_valid e" and buf: "length buf = 8192" "take (length (p_body e)) buf = p_body e"
  shows "\<exists>r. parse_proc buf = Ret r \<and> p_rep r e \<and> uint (p_pid r mod 256) = int (p_bkt e)"
proof -
  define c m r where n: "c = length (p_comm e)" "m = length (p_cmdline e)" "r = length (p_rss_src e)"
  note sz = p_valid_sizes [OF v, folded n] and flds = p_body_fields [OF v n, folded p_valid_sizes(6-8) [OF v, folded n]]
  have ix: "13 + 4 + c = 17 + c" "13 + 2 * 4 + c + m = 21 + c + m" "13 + 3 * 4 + c + m + r = 25 + c + m + r"
    "13 + 2 * 4 + c = 21 + c"
    by simp_all
  have rd: "u32_at buf 13 = p_comm_size e" "u32_at buf 4 = p_pid e"
    by (rule u32_prefix [OF buf(2)]; simp add: flds(2,3) sz(1,6))+
  have rd2: "u32_at buf (17 + c) = p_cmdline_size e" "u32_at buf (21 + c + m) = p_rss_src_size e"
    using flds(5,7) sz(1,6,7) by (auto intro!: u32_prefix [OF buf(2)])
  have rd3: "u64_at buf (25 + c + m + r) = p_rss e"
    using flds(8) sz(1,6-8) by (intro u64_prefix [OF buf(2)]) simp_all
  have cm: "take c (drop 17 buf) = p_comm e" "take m (drop (21 + c) buf) = p_cmdline e"
    using fslice_prefix [OF buf(2), of 17 c] fslice_prefix [OF buf(2), of "21 + c" m] flds(4,6) sz(1,6,7)
    by (simp_all add: fslice_def)
  show ?thesis
    unfolding parse_proc_def Let_def rd sz(6) ix rd2 sz(7,8) rd3
    using sz(2-4,6,7) cm by (simp add: p_rep_def p_bkt_def)
qed

lemma f_entry_text:
  assumes "f_valid e" "take (length (f_body e)) buf = f_body e"
  shows "entry_text 0 buf = Ret (f_text e)"
proof -
  have "fslice buf 8 (unat (f_path_len e)) = f_absolute_path e"
    using fslice_prefix [OF assms(2), of 8] f_body_fields(3) [OF assms(1) refl] f_valid_sizes(1) [OF assms(1)] by simp
  then have t: "take (unat (f_path_len e)) (drop 8 buf) = f_absolute_path e"
    by (simp add: fslice_def)
  moreover have "has_nul (f_absolute_path e)"
    using assms(1) by (simp add: f_valid_def)
  ultimately have "has_nul (take (unat (f_path_len e)) (drop 8 buf))"
    by simp
  from c_str_take [OF this] t show ?thesis
    by (simp add: entry_text_def f_text_def)
qed

lemma p_entry_text:
  assumes "p_valid e" "take (length (p_body e)) buf = p_body e"
  shows "entry_text 1 buf = Ret (p_text e)"
proof -
  have "u32_at buf 4 = p_pid e"
    using fslice_prefix [OF assms(2), of 4 4] p_body_fields(2) [OF assms(1) refl refl refl] p_valid_sizes(1) [OF assms(1)]
    by (simp add: u32_at_def le_nat_le_bytes32)
  then show ?thesis
    by (simp add: entry_text_def p_text_def)
qed

lemma fd_axioms:
  "entry_diff f_body f_bkt f_key f_valid f_rep compare_fileops_entries parse_fileops
     (\<lambda>r. uint (f_hash r mod 256)) compare_fileops_fields same_fileops 0 f_text"
  by (intro entry_diff.intro entry_diff_axioms.intro fo.entry_codec_axioms)
     (simp_all add: parse_fileops_ok compare_fileops_fields_ok f_entry_text lookup_buffer_def)

interpretation fd: entry_diff f_body f_bkt f_key f_valid f_rep compare_fileops_entries parse_fileops
  "\<lambda>r. uint (f_hash r mod 256)" compare_fileops_fields same_fileops 0 f_text
  by (rule fd_axioms)

lemma pd_axioms:
  "entry_diff p_body p_bkt p_pid p_valid p_rep compare_proc_entries parse_proc
     (\<lambda>r. uint (p_pid r mod 256)) compare_proc_fields same_proc 1 p_text"
  by (intro entry_diff.intro entry_diff_axioms.intro po.entry_codec_axioms)
     (simp_all add: parse_proc_ok compare_proc_fields_ok p_entry_text lookup_buffer_def)

interpretation pd: entry_diff p_body p_bkt p_pid p_valid p_rep compare_proc_entries parse_proc
  "\<lambda>r. uint (p_pid r mod 256)" compare_proc_fields same_proc 1 p_text
  by (rule pd_axioms)

section \<open>The whole report\<close>

text \<open>
  The report as a function of the two lists of entries: modified and removed entries in
  the order of the old snapshot, then new entries in the order of the new one.
\<close>

definition diff_report ::
  "('e \<Rightarrow> 'k) \<Rightarrow> ('e \<Rightarrow> 'e \<Rightarrow> bool) \<Rightarrow> ('e \<Rightarrow> byte list) \<Rightarrow> 'e list \<Rightarrow> 'e list \<Rightarrow> byte list" where
  "diff_report key same show_e es es' =
     concat (map (\<lambda>e. case find (\<lambda>e'. key e = key e') es' of
         None \<Rightarrow> bytes_of ''Sters: '' @ show_e e
       | Some e' \<Rightarrow> if same e e' then [] else bytes_of ''Modificat: '' @ show_e e) es) @
     concat (map (\<lambda>e'. if key e' \<in> key ` set es then [] else bytes_of ''Creat: '' @ show_e e') es')"

lemma report_part_old:
  "report_part old_label (lookup_status key same es') show_e es =
    concat (map (\<lambda>e. case find (\<lambda>e'. key e = key e') es' of
         None \<Rightarrow> bytes_of ''Sters: '' @ show_e e
       | Some e' \<Rightarrow> if same e e' then [] else bytes_of ''Modificat: '' @ show_e e) es)"
  unfolding report_part_def
  by (intro arg_cong [where f = concat] map_cong refl)
     (simp add: lookup_status_def old_label_def split: option.split)

lemma report_part_new:
  "report_part new_label (lookup_status key same es) show_e es' =
    concat (map (\<lambda>e'. if key e' \<in> key ` set es then [] else bytes_of ''Creat: '' @ show_e e') es')"
  unfolding report_part_def
proof (intro arg_cong [where f = concat] map_cong refl)
  fix e'
  have "find (\<lambda>e. key e' = key e) es = None \<longleftrightarrow> key e' \<notin> key ` set es"
    by (auto simp: find_None_iff)
  then show "(case new_label (lookup_status key same es e') of None \<Rightarrow> [] | Some l \<Rightarrow> l @ show_e e') =
      (if key e' \<in> key ` set es then [] else bytes_of ''Creat: '' @ show_e e')"
    by (cases "find (\<lambda>e. key e' = key e) es") (auto simp: lookup_status_def new_label_def)
qed

context entry_diff
begin

lemma whole_report:
  assumes h: "holds bkt body valid (bytes old) es" and h': "holds bkt body valid (bytes new) es'"
    and fd: "fdno old \<noteq> -1" "fdno new \<noteq> -1" and buf: "length junk = 8192"
    and m: "c_int (get_header_field old MAGIC) = magic" and chk: "check_snapshots (Some old) (Some new) = 0"
  shows "db_diff (Some old) (Some new) True junk = Ret (0, Some (diff_report key same show_e es es'))"
proof -
  have r0: "rel_pos rs 0 = 0" for rs
    by (simp add: rel_pos_def rec_pos_def)
  have lab: "old_label 3 = None" "new_label 3 = None"
    by (simp_all add: old_label_def new_label_def)
  obtain b1 where b1: "length b1 = 8192" "report_loop old_label magic old new 0 junk [] =
      Some (Ret (0, b1, report_part old_label (lookup_status key same es') show_e es))"
    using report_from [where i = 0 and out = "[]" and label = old_label, OF h h' fd(2) lab(1) buf] by (auto simp: r0)
  let ?out = "report_part old_label (lookup_status key same es') show_e es"
  obtain b2 where "report_loop new_label magic new old 0 b1 ?out =
      Some (Ret (0, b2, ?out @ report_part new_label (lookup_status key same es) show_e es'))"
    using report_from [where i = 0 and out = ?out and label = new_label, OF h' h fd(1) lab(2) b1(1)] by (auto simp: r0)
  then show ?thesis
    using m chk b1(2) by (simp add: db_diff_def report_part_old report_part_new diff_report_def)
qed

end

section \<open>Properties\<close>

text \<open>
  C1. The comparison of two file snapshots. On well-formed files that hold the entries
  \<open>es\<close> and \<open>es'\<close> and pass \<open>check_snapshots\<close>, the program exits with 0 and its output is
  exactly the difference of the two lists: for each old entry, in order, a line when no new
  entry has its hash and path, or when the first that has them differs in modification
  time, checksum, size or type; then a line for each new entry whose key is not in the old
  snapshot.
\<close>

theorem db_diff_fileops_correct:
  assumes "holds f_bkt f_body f_valid (bytes old) es" "holds f_bkt f_body f_valid (bytes new) es'"
    and "fdno old \<noteq> -1" "fdno new \<noteq> -1" "length junk = MAX_ENTRY_SIZE"
    and "c_int (get_header_field old MAGIC) = FILEOPS_MAGIC_ID" "check_snapshots (Some old) (Some new) = 0"
  shows "db_diff (Some old) (Some new) True junk =
    Ret (0, Some (diff_report f_key same_fileops f_text es es'))"
  by (rule fd.whole_report [OF assms])

lemma demo_old_db:
  "\<exists>w. holds f_bkt f_body f_valid (bytes w) [demo_file] \<and> fdno w = 3 \<and>
    get_header_field w MAGIC = 0 \<and> get_header_field w VERSION = 100 \<and> get_header_field w SNAPSHOT_ID = 7"
proof -
  let ?f = "demo_fd (init_header 0 7)"
  have lim: "length (init_header 0 7) + length (f_body demo_file) + 4 \<le> 1000000"
    using f_valid_sizes(1) [OF demo_file_valid(1)] by (simp add: length_init_header demo_file_def)
  obtain w where w: "holds f_bkt f_body f_valid (bytes w) [demo_file]"
    "w = ?f\<lparr>bytes := bytes w, fpos := fpos w\<rparr>" "take 281 (bytes w) = take 281 (bytes ?f)"
    using fo.append_refines [of ?f "[]" demo_file demo_file] lim
    by (auto simp: holds_init demo_file_valid f_checksum_update insert_unique_def)
  have wf: "fdno w = 3"
    using arg_cong [OF w(2), of fdno] by simp
  have wl: "2329 \<le> length (bytes w)"
    using layoutD(3) w(1) unfolding holds_def by blast
  have "get_header_field w i = hdr_stored i (init_field 0 7 i)" if "i = 0 \<or> i = 1 \<or> i = 2" for i
    using header_prefix [OF w(3) wl, of i] init_header_get [of ?f 0 7 i] that wf
    by (auto simp: length_init_header hdr_valid_def hdr_off_def hdr_width_def)
  then show ?thesis
    using w(1) wf by (intro exI [of _ w]) (simp add: hdr_stored_def init_field_def hdr_width_def)
qed

theorem db_diff_fileops_correct_witness:
  "\<exists>old. holds f_bkt f_body f_valid (bytes old) [demo_file] \<and>
    db_diff (Some old) (Some (demo_fd (init_header 0 8))) True (replicate 8192 0) =
      Ret (0, Some (bytes_of ''Sters: /a'' @ [10]))"
proof -
  obtain w where w: "holds f_bkt f_body f_valid (bytes w) [demo_file]" "fdno w = 3"
    "get_header_field w 0 = 0" "get_header_field w 1 = 100" "get_header_field w 2 = 7"
    using demo_old_db by blast
  have n: "get_header_field (demo_fd (init_header 0 8)) i = hdr_stored i (init_field 0 8 i)"
    if "i = 0 \<or> i = 1 \<or> i = 2" for i
    using init_header_get [of "demo_fd (init_header 0 8)" 0 8 i] that by (auto simp: hdr_valid_def)
  have chk: "check_snapshots (Some w) (Some (demo_fd (init_header 0 8))) = 0"
    using w n by (simp add: check_snapshots_def header_triple_def hdr_stored_def init_field_def hdr_width_def c_int_id)
  have "diff_report f_key same_fileops f_text [demo_file] [] = bytes_of ''Sters: /a'' @ [10]"
    by (simp add: diff_report_def f_text_def demo_file_def bytes_of_def c_str_def)
  then show ?thesis
    using db_diff_fileops_correct [of w "[demo_file]" "demo_fd (init_header 0 8)" "[]" "replicate 8192 0"] w(1-3) chk
    by (auto simp: c_int_id holds_init)
qed

text \<open>
  C21. The comparison of two process snapshots likewise reports exactly the difference of
  their entries, keyed by pid; a process counts as modified when its name, its arguments or
  their stored sizes differ, or the two stored \<open>rss\<close> numbers are more than \<open>1024 * 1024\<close>
  apart.
\<close>

theorem db_diff_proc_correct:
  assumes "holds p_bkt p_body p_valid (bytes old) es" "holds p_bkt p_body p_valid (bytes new) es'"
    and "fdno old \<noteq> -1" "fdno new \<noteq> -1" "length junk = MAX_ENTRY_SIZE"
    and "c_int (get_header_field old MAGIC) = PROC_MAGIC_ID" "check_snapshots (Some old) (Some new) = 0"
  shows "db_diff (Some old) (Some new) True junk =
    Ret (0, Some (diff_report p_pid same_proc p_text es es'))"
  by (rule pd.whole_report [OF assms])

theorem db_diff_proc_correct_witness:
  "db_diff (Some (demo_fd (init_header 1 7))) (Some (demo_fd (init_header 1 8))) True (replicate 8192 0) =
    Ret (0, Some [])"
proof -
  have n: "get_header_field (demo_fd (init_header 1 t)) i = hdr_stored i (init_field 1 t i)"
    if "i = 0 \<or> i = 1 \<or> i = 2" for i t
    using init_header_get [of "demo_fd (init_header 1 t)" 1 t i] that by (auto simp: hdr_valid_def)
  have chk: "check_snapshots (Some (demo_fd (init_header 1 7))) (Some (demo_fd (init_header 1 8))) = 0"
    using n by (simp add: check_snapshots_def header_triple_def hdr_stored_def init_field_def hdr_width_def c_int_id)
  then show ?thesis
    using db_diff_proc_correct [of "demo_fd (init_header 1 7)" "[]" "demo_fd (init_header 1 8)" "[]" "replicate 8192 0"] n [of 0 7]
    by (simp add: holds_init diff_report_def hdr_stored_def init_field_def c_int_id)
qed

text \<open>
  \<open>check_snapshots\<close> accepts a snapshot as its own successor: it reads the two snapshot
  ids but never requires them to differ.
\<close>

theorem check_snapshots_same_id:
  assumes "c_int (get_header_field f MAGIC) \<noteq> -1" "c_int (get_header_field f VERSION) \<noteq> -1"
    and "c_int (get_header_field f SNAPSHOT_ID) \<noteq> -1"
  shows "check_snapshots (Some f) (Some f) = 0"
  using assms by (simp add: check_snapshots_def header_triple_def)

theorem check_snapshots_same_id_witness:
  "check_snapshots (Some (demo_fd (init_header 0 7))) (Some (demo_fd (init_header 0 7))) = 0"
proof -
  have "get_header_field (demo_fd (init_header 0 7)) i = hdr_stored i (init_field 0 7 i)"
    if "i = 0 \<or> i = 1 \<or> i = 2" for i
    using init_header_get [of "demo_fd (init_header 0 7)" 0 7 i] that by (auto simp: hdr_valid_def)
  then show ?thesis
    by (intro check_snapshots_same_id) (simp_all add: hdr_stored_def init_field_def hdr_width_def c_int_id)
qed

end
