(* ===== verification/Db_Open.thy ===== *)
theory Db_Open
  imports Fileops
begin

text \<open>
  Opening and closing a snapshot database, from \<open>src/db_utils.c\<close>. Several processes
  share one file: \<open>ACTIVE_WRITERS\<close> counts them, the last one to close seals the snapshot.
  Each function has one critical section under a record lock of the header; the locks all
  cover the writer count, so the critical sections of two processes exclude each other and
  each is one step of the transition system in the second part. What is not inside a
  critical section are the two \<open>open\<close> calls before them, which are steps of their own.
\<close>

section \<open>The code\<close>

text \<open>\<open>validate_directory\<close>: what \<open>stat\<close> and \<open>access\<close> answer about the path.\<close>

record dir_info =
  dir_stat_ok :: bool
  dir_is_dir :: bool
  dir_access :: bool

definition validate_directory :: "dir_info option \<Rightarrow> int" where
  "validate_directory path =
     (case path of None \<Rightarrow> 2 | Some d \<Rightarrow>
        if \<not> dir_stat_ok d then 1 else if \<not> dir_is_dir d then 3
        else if \<not> dir_access d then 1 else 0)"

text \<open>
  The critical section of \<open>open_database\<close> for a file that exists already, from taking the
  header lock to releasing it. A sealed snapshot is emptied and initialised with the magic
  of the file, not the one the caller asks for; in any other state nothing happens.
\<close>

definition open_existing :: "fdesc \<Rightarrow> int \<Rightarrow> (int \<times> fdesc) outcome" where
  "open_existing f now =
     (if \<not> setlkw_ok f then Ret (-1, f) else
      let state = get_header_field f STATE in
      c_bind
        (if state = STATE_OPEN then
           (let active_writers = c_int (get_header_field f ACTIVE_WRITERS) in
            if active_writers \<noteq> -1
            then set_header_field f ACTIVE_WRITERS (c_u64 (active_writers + 1)) else Ret (0, f))
         else if state = STATE_SEALED then
           initialize_snapshot (ftruncate0 f) (c_int (get_header_field f MAGIC)) now
         else Ret (0, f)) (\<lambda>(_, f).
      if \<not> setlk_ok f then Ret (-1, f) else Ret (fdno f, f)))"

text \<open>The critical section of the process whose \<open>open\<close> created the file.\<close>

definition open_created :: "fdesc \<Rightarrow> int \<Rightarrow> int \<Rightarrow> (int \<times> fdesc) outcome" where
  "open_created f magic now =
     (if \<not> setlkw_ok f then Ret (-1, f) else
      c_bind (initialize_snapshot f magic now) (\<lambda>(r, f).
      if r \<noteq> 0 then Ret (-1, f)
      else if \<not> setlk_ok f then Ret (-1, f) else Ret (fdno f, f)))"

text \<open>
  What the two \<open>open\<close> calls give: the file is created, fails with an error other than
  \<open>EEXIST\<close>, or exists and is opened (\<open>None\<close> if that fails).
\<close>

datatype open_result = Created fdesc | Open_error | Exists "fdesc option"

definition open_database :: "open_result option \<Rightarrow> int \<Rightarrow> int \<Rightarrow> (int \<times> fdesc option) outcome" where
  "open_database path magic now =
     (case path of None \<Rightarrow> Ret (2, None)
      | Some (Created f) \<Rightarrow> c_bind (open_created f magic now) (\<lambda>(r, f). Ret (r, Some f))
      | Some Open_error \<Rightarrow> Ret (-1, None)
      | Some (Exists None) \<Rightarrow> Ret (-1, None)
      | Some (Exists (Some f)) \<Rightarrow> c_bind (open_existing f now) (\<lambda>(r, f). Ret (r, Some f)))"

text \<open>The parent directory of \<open>path\<close>: the string up to its last slash.\<close>

definition dir_part :: "byte list \<Rightarrow> byte list" where
  "dir_part path = rev (drop 1 (dropWhile (\<lambda>c. c \<noteq> 47) (rev path)))"

definition snapshot_name :: "int \<Rightarrow> byte list \<Rightarrow> u32 \<Rightarrow> byte list" where
  "snapshot_name magic path snap_id =
     take (PATH_MAX - 1)
       (dir_part path @ (if magic = FILEOPS_MAGIC_ID then bytes_of ''/index_'' else bytes_of ''/proc_'') @
        dec_digits (unat snap_id) @ bytes_of ''.db'')"

text \<open>
  \<open>close_database\<close>. \<open>path\<close> is what \<open>readlink\<close> of \<open>/proc/self/fd/<fd>\<close> gives; its failure
  makes \<open>path[len]\<close> a write before the array, and a path without slash a dereference of
  \<open>NULL + 1\<close>. The result holds the \<open>rename\<close> the function performs, if any.
\<close>

definition close_database ::
  "fdesc \<Rightarrow> int \<Rightarrow> byte list option \<Rightarrow> (int \<times> fdesc \<times> (byte list \<times> byte list) option) outcome" where
  "close_database f use_explicit_path path =
     (let magic = c_int (get_header_field f MAGIC) in
      if magic = -1 then Ret (-1, f, None)
      else if \<not> setlkw_ok f then Ret (-1, f, None) else
      let active_writers = c_int (get_header_field f ACTIVE_WRITERS) in
      c_bind (set_header_field f ACTIVE_WRITERS (c_u64 (active_writers - 1))) (\<lambda>(_, f).
      c_bind
        (if active_writers - 1 = 0 then
           c_bind (set_header_field f STATE STATE_SEALED) (\<lambda>(_, f).
           let snap_id = c_u32 (get_header_field f SNAPSHOT_ID) in
           case path of None \<Rightarrow> UB | Some path \<Rightarrow>
           if 47 \<notin> set path then UB
           else if use_explicit_path = 0 then Ret (f, Some (path, snapshot_name magic path snap_id))
           else Ret (f, None))
         else Ret (f, None)) (\<lambda>(f, ren).
      if \<not> setlk_ok f then Ret (-1, f, ren) else Ret (0, f, ren))))"

section \<open>The effect of each critical section\<close>

definition good_fd :: "fdesc \<Rightarrow> bool" where
  "good_fd f \<longleftrightarrow> 0 \<le> fdno f \<and> setlkw_ok f \<and> setlk_ok f \<and> HEADER_SIZE \<le> file_limit f"

lemma good_fd_bytes [simp]: "good_fd (f\<lparr>bytes := d\<rparr>) = good_fd f"
  by (simp add: good_fd_def)

lemma same_fd:
  assumes "g = f\<lparr>bytes := d\<rparr>"
  shows "fdno g = fdno f" "setlk_ok g = setlk_ok f" "file_limit g = file_limit f" "good_fd g = good_fd f"
  by (simp_all add: assms)

lemma aw_fields:
  "hdr_valid 0" "hdr_valid 2" "hdr_valid 3" "hdr_valid 4" "hdr_storable 4 v" "hdr_storable 3 83"
  "hdr_width 4 = 4" "hdr_width 3 = 1"
  by (simp_all add: hdr_valid_def hdr_storable_def hdr_width_def)

lemma set_writers:
  assumes f: "good_fd f" "2329 \<le> length (bytes f)" and n: "0 \<le> n" "n < 2 ^ 32"
  shows "\<exists>g. set_header_field f ACTIVE_WRITERS (c_u64 n) = Ret (0, g) \<and>
    get_header_field g ACTIVE_WRITERS = n \<and>
    (\<forall>j. hdr_valid j \<and> j \<noteq> ACTIVE_WRITERS \<longrightarrow> get_header_field g j = get_header_field f j) \<and>
    drop 2329 (bytes g) = drop 2329 (bytes f) \<and> length (bytes g) = length (bytes f) \<and> g = f\<lparr>bytes := bytes g\<rparr>"
proof -
  have "hdr_stored 4 (c_u64 n) = n"
    using n by (simp add: hdr_stored_def aw_fields unat_c_u64)
  then show ?thesis
    using set_header_field_facts [of f 4 "c_u64 n"] f by (simp add: aw_fields good_fd_def)
qed

lemma join_open:
  assumes f: "good_fd f" "2329 \<le> length (bytes f)"
    and st: "get_header_field f STATE = STATE_OPEN" "get_header_field f ACTIVE_WRITERS = n" "0 \<le> n" "n < 2 ^ 31 - 1"
  shows "\<exists>g. open_existing f now = Ret (fdno f, g) \<and> get_header_field g ACTIVE_WRITERS = n + 1 \<and>
    (\<forall>j. hdr_valid j \<and> j \<noteq> ACTIVE_WRITERS \<longrightarrow> get_header_field g j = get_header_field f j) \<and>
    drop 2329 (bytes g) = drop 2329 (bytes f) \<and> length (bytes g) = length (bytes f) \<and> g = f\<lparr>bytes := bytes g\<rparr>"
proof -
  have c: "c_int n = n"
    using st(3,4) by (simp add: c_int_id)
  obtain g where g: "set_header_field f 4 (c_u64 (n + 1)) = Ret (0, g)" "get_header_field g 4 = n + 1"
    "\<forall>j. hdr_valid j \<and> j \<noteq> 4 \<longrightarrow> get_header_field g j = get_header_field f j"
    "drop 2329 (bytes g) = drop 2329 (bytes f)" "length (bytes g) = length (bytes f)" "g = f\<lparr>bytes := bytes g\<rparr>"
    using set_writers [OF f, of "n + 1"] st(3,4) by auto
  then show ?thesis
    using same_fd [OF g(6)] f(1) st c by (intro exI [of _ g]) (simp add: open_existing_def good_fd_def)
qed

lemma join_sealed:
  assumes f: "good_fd f" and st: "get_header_field f STATE = STATE_SEALED"
    and m: "get_header_field f MAGIC = m" "m = 0 \<or> m = 1"
  shows "open_existing f now = Ret (fdno f, f\<lparr>bytes := init_header (c_u64 m) (c_u64 now)\<rparr>)"
proof -
  have "c_int m = m"
    using m(2) by (auto simp: c_int_id)
  moreover have "initialize_snapshot (ftruncate0 f) m now =
      Ret (0, f\<lparr>bytes := init_header (c_u64 m) (c_u64 now)\<rparr>)"
    using initialize_snapshot_ok [of "ftruncate0 f" m now] f m(2) by (simp add: ftruncate0_def good_fd_def)
  ultimately show ?thesis
    using f st m(1) by (simp add: open_existing_def good_fd_def)
qed

lemma create_ok:
  assumes f: "good_fd f" "bytes f = []" and m: "m = 0 \<or> m = 1"
  shows "open_created f m now = Ret (fdno f, f\<lparr>bytes := init_header (c_u64 m) (c_u64 now)\<rparr>)"
  using initialize_snapshot_ok [of f m now] f m by (simp add: open_created_def good_fd_def)

lemma join_empty:
  assumes f: "good_fd f" "bytes f = []"
  shows "open_existing f now = Ret (fdno f, f)"
proof -
  have "get_header_field f STATE = -1"
    using f by (simp add: get_header_field_def hdr_read_def pread_def good_fd_def)
  then show ?thesis
    using f by (simp add: open_existing_def good_fd_def)
qed

lemma init_header_state:
  assumes f: "0 \<le> fdno f" "bytes f = init_header m now" and m: "m = 0 \<or> m = 1"
  shows "get_header_field f STATE = STATE_OPEN" "get_header_field f ACTIVE_WRITERS = 1"
    and "get_header_field f MAGIC = uint m"
proof -
  have g: "get_header_field f i = hdr_stored i (init_field m now i)" if "hdr_valid i" for i
    using init_header_get [OF _ f(2) m that] f(1) by simp
  show "get_header_field f STATE = STATE_OPEN" "get_header_field f ACTIVE_WRITERS = 1"
    "get_header_field f MAGIC = uint m"
    using g [of 3] g [of 4] g [of 0]
    by (simp_all add: hdr_valid_def init_field_def hdr_stored_def hdr_width_def)
qed

lemma seal_ok:
  assumes f: "good_fd f" "2329 \<le> length (bytes f)"
  shows "\<exists>g. set_header_field f STATE STATE_SEALED = Ret (0, g) \<and> get_header_field g STATE = STATE_SEALED \<and>
    (\<forall>j. hdr_valid j \<and> j \<noteq> STATE \<longrightarrow> get_header_field g j = get_header_field f j) \<and>
    drop 2329 (bytes g) = drop 2329 (bytes f) \<and> length (bytes g) = length (bytes f) \<and> g = f\<lparr>bytes := bytes g\<rparr>"
proof -
  have "hdr_stored 3 83 = 83"
    by (simp add: hdr_stored_def aw_fields)
  then show ?thesis
    using set_header_field_facts [of f 3 83] f by (simp add: aw_fields good_fd_def)
qed

lemma close_not_last:
  assumes f: "good_fd f" "2329 \<le> length (bytes f)"
    and m: "get_header_field f MAGIC = m" "m = 0 \<or> m = 1"
    and st: "get_header_field f ACTIVE_WRITERS = n" "1 < n" "n < 2 ^ 31"
  shows "\<exists>g. close_database f x path = Ret (0, g, None) \<and> get_header_field g ACTIVE_WRITERS = n - 1 \<and>
    (\<forall>j. hdr_valid j \<and> j \<noteq> ACTIVE_WRITERS \<longrightarrow> get_header_field g j = get_header_field f j) \<and>
    drop 2329 (bytes g) = drop 2329 (bytes f) \<and> length (bytes g) = length (bytes f) \<and> g = f\<lparr>bytes := bytes g\<rparr>"
proof -
  have c: "c_int n = n" "c_int m \<noteq> -1"
    using st(2,3) m(2) by (auto simp: c_int_id)
  obtain g where g: "set_header_field f 4 (c_u64 (n - 1)) = Ret (0, g)" "get_header_field g 4 = n - 1"
    "\<forall>j. hdr_valid j \<and> j \<noteq> 4 \<longrightarrow> get_header_field g j = get_header_field f j"
    "drop 2329 (bytes g) = drop 2329 (bytes f)" "length (bytes g) = length (bytes f)" "g = f\<lparr>bytes := bytes g\<rparr>"
    using set_writers [OF f, of "n - 1"] st(2,3) by auto
  then show ?thesis
    using same_fd [OF g(6)] f(1) m(1) st c
    by (intro exI [of _ g]) (simp add: close_database_def good_fd_def Let_def)
qed

lemma close_last:
  assumes f: "good_fd f" "2329 \<le> length (bytes f)"
    and m: "get_header_field f MAGIC = m" "m = 0 \<or> m = 1"
    and st: "get_header_field f ACTIVE_WRITERS = 1" and p: "47 \<in> set p"
  shows "\<exists>g. close_database f x (Some p) = Ret (0, g,
      if x = 0 then Some (p, snapshot_name m p (c_u32 (get_header_field f SNAPSHOT_ID))) else None) \<and>
    get_header_field g ACTIVE_WRITERS = 0 \<and> get_header_field g STATE = STATE_SEALED \<and>
    (\<forall>j. hdr_valid j \<and> j \<noteq> ACTIVE_WRITERS \<and> j \<noteq> STATE \<longrightarrow> get_header_field g j = get_header_field f j) \<and>
    drop 2329 (bytes g) = drop 2329 (bytes f) \<and> length (bytes g) = length (bytes f) \<and> g = f\<lparr>bytes := bytes g\<rparr>"
proof -
  have c: "c_int 1 = 1" "c_int m = m"
    using m(2) by (auto simp: c_int_id)
  obtain g where g: "set_header_field f 4 (c_u64 0) = Ret (0, g)" "get_header_field g 4 = 0"
    "\<forall>j. hdr_valid j \<and> j \<noteq> 4 \<longrightarrow> get_header_field g j = get_header_field f j"
    "drop 2329 (bytes g) = drop 2329 (bytes f)" "length (bytes g) = length (bytes f)" "g = f\<lparr>bytes := bytes g\<rparr>"
    using set_writers [OF f, of 0] by auto
  have "good_fd g" "2329 \<le> length (bytes g)"
    using same_fd(4) [OF g(6)] f g(5) by simp_all
  from seal_ok [OF this] obtain h where h: "set_header_field g 3 83 = Ret (0, h)" "get_header_field h 3 = 83"
    "\<forall>j. hdr_valid j \<and> j \<noteq> 3 \<longrightarrow> get_header_field h j = get_header_field g j"
    "drop 2329 (bytes h) = drop 2329 (bytes g)" "length (bytes h) = length (bytes g)" "h = g\<lparr>bytes := bytes h\<rparr>"
    by auto
  have hf: "h = f\<lparr>bytes := bytes h\<rparr>"
    using arg_cong [OF g(6), of "\<lambda>k. k\<lparr>bytes := bytes h\<rparr>"] h(6) by simp
  have "get_header_field h 2 = get_header_field f 2" "get_header_field h 4 = 0"
    using g(2,3) h(3) by (simp_all add: aw_fields)
  then show ?thesis
    using same_fd [OF hf] f(1) m st c g h hf p
    by (intro exI [of _ h]) (auto simp: close_database_def good_fd_def Let_def)
qed

section \<open>Processes sharing one database\<close>

text \<open>
  Any number of processes (numbered below the kernel's largest pid, \<open>2^22\<close>) share one
  file. \<open>Ev_create\<close> and \<open>Ev_open\<close> are the two \<open>open\<close> calls, \<open>Ev_init\<close>, \<open>Ev_join\<close>
  and \<open>Ev_close\<close> the critical sections; \<open>Ev_write\<close> is any update of a writer that keeps
  the first 17 bytes of the header (magic to writer count), as the appends do.
  \<open>ds_linked\<close> says whether the database path still names the file: the rename in
  \<open>close_database\<close> takes it away.
\<close>

datatype phase = Idle | Has_created | Has_opened | Writer | Finished

record db_sys =
  ds_file :: fdesc
  ds_born :: bool
  ds_linked :: bool
  ds_phase :: "nat \<Rightarrow> phase"

datatype db_event = Ev_create nat | Ev_open nat | Ev_init nat | Ev_join nat | Ev_write nat | Ev_close nat

definition move :: "db_sys \<Rightarrow> nat \<Rightarrow> phase \<Rightarrow> fdesc \<Rightarrow> db_sys" where
  "move s p ph f = s\<lparr>ds_file := f, ds_phase := (ds_phase s)(p := ph)\<rparr>"

inductive db_step :: "db_sys \<Rightarrow> db_event \<Rightarrow> db_sys \<Rightarrow> bool" where
  step_create: "\<lbrakk>\<not> ds_born s; ds_phase s p = Idle; p < 2 ^ 22\<rbrakk> \<Longrightarrow>
    db_step s (Ev_create p) ((move s p Has_created (ds_file s))\<lparr>ds_born := True, ds_linked := True\<rparr>)"
| step_open: "\<lbrakk>ds_linked s; ds_phase s p = Idle; p < 2 ^ 22\<rbrakk> \<Longrightarrow>
    db_step s (Ev_open p) (move s p Has_opened (ds_file s))"
| step_init: "\<lbrakk>ds_phase s p = Has_created; magic = 0 \<or> magic = 1;
    open_created (ds_file s) magic now = Ret (r, g); r \<noteq> -1\<rbrakk> \<Longrightarrow>
    db_step s (Ev_init p) (move s p Writer g)"
| step_join: "\<lbrakk>ds_phase s p = Has_opened; open_existing (ds_file s) now = Ret (r, g); r \<noteq> -1\<rbrakk> \<Longrightarrow>
    db_step s (Ev_join p) (move s p Writer g)"
| step_write: "\<lbrakk>ds_phase s p = Writer; take 17 (bytes g) = take 17 (bytes (ds_file s));
    HEADER_SIZE \<le> length (bytes g); g = (ds_file s)\<lparr>bytes := bytes g, fpos := fpos g\<rparr>\<rbrakk> \<Longrightarrow>
    db_step s (Ev_write p) (move s p Writer g)"
| step_close: "\<lbrakk>ds_phase s p = Writer; 47 \<in> set path;
    close_database (ds_file s) x (Some path) = Ret (0, g, ren)\<rbrakk> \<Longrightarrow>
    db_step s (Ev_close p) ((move s p Finished g)\<lparr>ds_linked := (ds_linked s \<and> ren = None)\<rparr>)"

inductive_cases db_stepE:
  "db_step s (Ev_create p) s'" "db_step s (Ev_open p) s'" "db_step s (Ev_init p) s'"
  "db_step s (Ev_join p) s'" "db_step s (Ev_write p) s'" "db_step s (Ev_close p) s'"

definition db_start :: "fdesc \<Rightarrow> db_sys" where
  "db_start f = \<lparr>ds_file = f\<lparr>bytes := []\<rparr>, ds_born = False, ds_linked = False, ds_phase = (\<lambda>_. Idle)\<rparr>"

inductive db_exec :: "db_sys \<Rightarrow> db_event list \<Rightarrow> db_sys \<Rightarrow> bool" for s0 where
  exec_none: "db_exec s0 [] s0"
| exec_snoc: "db_exec s0 t s \<Longrightarrow> db_step s e s' \<Longrightarrow> db_exec s0 (t @ [e]) s'"

text \<open>A schedule in which nobody joins before the creator has initialised the file.\<close>

fun is_init :: "db_event \<Rightarrow> bool" where
  "is_init (Ev_init p) = True" | "is_init e = False"

fun is_join :: "db_event \<Rightarrow> bool" where
  "is_join (Ev_join p) = True" | "is_join e = False"

definition init_first :: "db_event list \<Rightarrow> bool" where
  "init_first t \<longleftrightarrow> (\<forall>i<length t. is_join (t ! i) \<longrightarrow> list_ex is_init (take i t))"

lemma init_first_snoc:
  assumes "init_first (t @ [e])"
  shows "init_first t" "is_join e \<Longrightarrow> list_ex is_init t"
proof -
  show "init_first t"
    unfolding init_first_def
  proof (intro allI impI)
    fix i assume "i < length t" "is_join (t ! i)"
    then show "list_ex is_init (take i t)"
      using assms [unfolded init_first_def, rule_format, of i] by (simp add: nth_append)
  qed
  show "is_join e \<Longrightarrow> list_ex is_init t"
    using assms [unfolded init_first_def, rule_format, of "length t"] by simp
qed

definition writers :: "db_sys \<Rightarrow> nat set" where
  "writers s = {p. ds_phase s p = Writer}"

definition creators :: "db_sys \<Rightarrow> nat set" where
  "creators s = {p. ds_phase s p = Has_created}"

definition pids_ok :: "db_sys \<Rightarrow> bool" where
  "pids_ok s \<longleftrightarrow> (\<forall>p. ds_phase s p \<noteq> Idle \<longrightarrow> p < 2 ^ 22)"

text \<open>The header agrees with the processes: the count, the state, and a known magic.\<close>

definition counted :: "db_sys \<Rightarrow> bool" where
  "counted s \<longleftrightarrow>
     HEADER_SIZE \<le> length (bytes (ds_file s)) \<and>
     (get_header_field (ds_file s) MAGIC = 0 \<or> get_header_field (ds_file s) MAGIC = 1) \<and>
     get_header_field (ds_file s) ACTIVE_WRITERS = int (card (writers s)) \<and>
     get_header_field (ds_file s) STATE = (if writers s = {} then STATE_SEALED else STATE_OPEN)"

definition db_inv :: "db_event list \<Rightarrow> db_sys \<Rightarrow> bool" where
  "db_inv t s \<longleftrightarrow> good_fd (ds_file s) \<and> pids_ok s \<and>
     (if list_ex is_init t then ds_born s \<and> creators s = {} \<and> counted s
      else bytes (ds_file s) = [] \<and> writers s = {} \<and> (\<exists>c. creators s \<subseteq> {c}) \<and>
           (\<not> ds_born s \<longrightarrow> creators s = {}))"

lemma pids_finite:
  assumes "pids_ok s"
  shows "finite (writers s)" "card (writers s) \<le> 2 ^ 22"
proof -
  have sub: "writers s \<subseteq> {..<2 ^ 22}"
    using assms by (auto simp: writers_def pids_ok_def)
  then show "finite (writers s)"
    by (rule finite_subset) simp
  show "card (writers s) \<le> 2 ^ 22"
    using card_mono [OF _ sub] by simp
qed

lemma move_simps:
  "ds_file (move s p ph f) = f" "ds_born (move s p ph f) = ds_born s"
  "ds_phase (move s p ph f) q = (if q = p then ph else ds_phase s q)"
  "writers (move s p ph f) = (if ph = Writer then insert p (writers s) else writers s - {p})"
  "creators (move s p ph f) = (if ph = Has_created then insert p (creators s) else creators s - {p})"
  "ds_phase s p \<noteq> Idle \<or> p < 2 ^ 22 \<Longrightarrow> pids_ok s \<Longrightarrow> pids_ok (move s p ph f)"
  by (auto simp: move_def writers_def creators_def pids_ok_def)

lemma sys_flags [simp]:
  "writers (s\<lparr>ds_linked := a\<rparr>) = writers s" "creators (s\<lparr>ds_linked := a\<rparr>) = creators s"
  "writers (s\<lparr>ds_born := b\<rparr>) = writers s" "creators (s\<lparr>ds_born := b\<rparr>) = creators s"
  "pids_ok (s\<lparr>ds_linked := a\<rparr>) = pids_ok s" "pids_ok (s\<lparr>ds_born := b\<rparr>) = pids_ok s"
  "counted (s\<lparr>ds_linked := a\<rparr>) = counted s" "counted (s\<lparr>ds_born := b\<rparr>) = counted s"
  by (simp_all add: writers_def creators_def pids_ok_def counted_def)

lemma header17:
  assumes "take 17 (bytes g) = take 17 (bytes f)" "2329 \<le> length (bytes g)" "2329 \<le> length (bytes f)"
    and "fdno g = fdno f" and i: "i = 0 \<or> i = 3 \<or> i = 4"
  shows "get_header_field g i = get_header_field f i"
  using i by (intro header_prefix [OF assms(1-4)]) (auto simp: hdr_valid_def hdr_off_def hdr_width_def)

lemma counted_joined:
  assumes c: "counted s" and f: "good_fd (ds_file s)" "pids_ok s" and p: "ds_phase s p = Has_opened"
    and j: "open_existing (ds_file s) now = Ret (r, g)"
  shows "counted (move s p Writer g)" "good_fd g"
proof -
  let ?f = "ds_file s"
  note fin = pids_finite [OF f(2)]
  have np: "p \<notin> writers s"
    using p by (simp add: writers_def)
  have "counted (move s p Writer g) \<and> good_fd g"
  proof (cases "writers s = {}")
    case False
    then obtain h where h: "open_existing ?f now = Ret (fdno ?f, h)"
      "get_header_field h 4 = int (card (writers s)) + 1"
      "\<forall>j. hdr_valid j \<and> j \<noteq> 4 \<longrightarrow> get_header_field h j = get_header_field ?f j"
      "length (bytes h) = length (bytes ?f)" "h = ?f\<lparr>bytes := bytes h\<rparr>"
      using join_open [of ?f "int (card (writers s))" now] c f(1) fin(2) by (auto simp: counted_def)
    have "g = h"
      using h(1) j by simp
    then show ?thesis
      using h False c f(1) same_fd(4) [OF h(5)] fin(1) np
      by (simp add: counted_def move_simps aw_fields)
  next
    case True
    obtain m where m: "get_header_field ?f 0 = m" "m = 0 \<or> m = 1"
      using c by (auto simp: counted_def)
    have "g = ?f\<lparr>bytes := init_header (c_u64 m) (c_u64 now)\<rparr>"
      using join_sealed [OF f(1) _ m, of now] c True j by (simp add: counted_def)
    then have "get_header_field g 3 = 79" "get_header_field g 4 = 1" "get_header_field g 0 = uint (c_u64 m)"
      "length (bytes g) = 2329" "good_fd g"
      using init_header_state [of g "c_u64 m" "c_u64 now"] f(1) m(2)
      by (auto simp: length_init_header c_u64_def good_fd_def)
    then show ?thesis
      using True m(2) by (auto simp: counted_def move_simps c_u64_def)
  qed
  then show "counted (move s p Writer g)" "good_fd g"
    by simp_all
qed

lemma counted_closed:
  assumes c: "counted s" and f: "good_fd (ds_file s)" "pids_ok s" and p: "ds_phase s p = Writer"
    and path: "47 \<in> set path" and cl: "close_database (ds_file s) x (Some path) = Ret (0, g, ren)"
  shows "counted (move s p Finished g)" "good_fd g"
proof -
  let ?f = "ds_file s" and ?n = "int (card (writers s))"
  note fin = pids_finite [OF f(2)]
  have pw: "p \<in> writers s"
    using p by (simp add: writers_def)
  then have card: "card (writers s - {p}) = card (writers s) - 1" "1 \<le> ?n"
    using fin(1) card_gt_0_iff [of "writers s"] by (auto simp: Suc_le_eq)
  obtain m where m: "get_header_field ?f 0 = m" "m = 0 \<or> m = 1"
    using c by (auto simp: counted_def)
  have aw: "get_header_field ?f 4 = ?n" "get_header_field ?f 3 = 79" "2329 \<le> length (bytes ?f)"
    using c pw by (auto simp: counted_def)
  have "counted (move s p Finished g) \<and> good_fd g"
  proof (cases "?n = 1")
    case True
    then have one: "get_header_field ?f 4 = 1"
      using aw(1) by simp
    obtain h ren' where h: "close_database ?f x (Some path) = Ret (0, h, ren')"
      "get_header_field h 4 = 0" "get_header_field h 3 = 83"
      "\<forall>j. hdr_valid j \<and> j \<noteq> 4 \<and> j \<noteq> 3 \<longrightarrow> get_header_field h j = get_header_field ?f j"
      "length (bytes h) = length (bytes ?f)" "h = ?f\<lparr>bytes := bytes h\<rparr>"
      using close_last [OF f(1) aw(3) m one path, of x] by fastforce
    have c0: "card (writers s - {p}) = 0"
      using card(1) True by simp
    then have "writers s - {p} = {}"
      using fin(1) by simp
    moreover have "g = h"
      using h(1) cl by simp
    ultimately show ?thesis
      using h aw m f(1) same_fd(4) [OF h(6)] c0 by (simp add: counted_def move_simps aw_fields)
  next
    case False
    then have n: "1 < ?n" "?n < 2 ^ 31"
      using card(2) fin(2) by simp_all
    obtain h where h: "close_database ?f x (Some path) = Ret (0, h, None)" "get_header_field h 4 = ?n - 1"
      "\<forall>j. hdr_valid j \<and> j \<noteq> 4 \<longrightarrow> get_header_field h j = get_header_field ?f j"
      "length (bytes h) = length (bytes ?f)" "h = ?f\<lparr>bytes := bytes h\<rparr>"
      using close_not_last [OF f(1) aw(3) m aw(1) n, of x "Some path"] by fastforce
    have "card (writers s - {p}) \<noteq> 0"
      using card(1) n(1) by simp
    then have "writers s - {p} \<noteq> {}"
      by (metis card.empty)
    moreover have "g = h"
      using h(1) cl by simp
    ultimately show ?thesis
      using h aw m f(1) same_fd(4) [OF h(5)] card n(1) by (simp add: counted_def move_simps aw_fields of_nat_diff)
  qed
  then show "counted (move s p Finished g)" "good_fd g"
    by simp_all
qed

lemma init_step_inv:
  assumes i: "db_inv t s" and p: "ds_phase s p = Has_created" and m: "magic = 0 \<or> magic = 1"
    and c: "open_created (ds_file s) magic now = Ret (r, g)"
  shows "db_inv (t @ [Ev_init p]) (move s p Writer g)"
proof -
  have cr: "p \<in> creators s"
    using p by (simp add: creators_def)
  then have ni: "\<not> list_ex is_init t"
    using i by (auto simp: db_inv_def)
  then have f: "good_fd (ds_file s)" "bytes (ds_file s) = []" "writers s = {}" "pids_ok s" "ds_born s"
    and "creators s - {p} = {}"
    using i cr by (auto simp: db_inv_def)
  have g: "g = (ds_file s)\<lparr>bytes := init_header (c_u64 magic) (c_u64 now)\<rparr>"
    using create_ok [OF f(1,2) m, of now] c by simp
  have st: "get_header_field g 3 = 79" "get_header_field g 4 = 1" "get_header_field g 0 = uint (c_u64 magic)"
    using init_header_state [of g "c_u64 magic" "c_u64 now"] f(1) m
    by (auto simp: g c_u64_def good_fd_def)
  have "counted (move s p Writer g)"
    using st m f(3) by (auto simp: counted_def move_simps g length_init_header c_u64_def)
  then show ?thesis
    using f p \<open>creators s - {p} = {}\<close>
    by (simp add: db_inv_def move_simps g)
qed

lemma writer_after_init: "db_inv t s \<Longrightarrow> ds_phase s p = Writer \<Longrightarrow> list_ex is_init t"
  by (auto simp: db_inv_def writers_def split: if_splits)

lemma db_step_inv:
  assumes s: "db_step s e s'" and i: "db_inv t s" and j: "is_join e \<Longrightarrow> list_ex is_init t"
  shows "db_inv (t @ [e]) s'"
  using s
proof cases
  case (step_create p)
  then show ?thesis
    using i by (auto simp: db_inv_def move_simps counted_def)
next
  case (step_open p)
  then have same: "writers (move s p Has_opened (ds_file s)) = writers s"
    "creators (move s p Has_opened (ds_file s)) = creators s"
    by (auto simp: move_simps writers_def creators_def)
  then have "counted s \<Longrightarrow> counted (move s p Has_opened (ds_file s))"
    by (simp add: counted_def move_simps(1))
  with step_open same show ?thesis
    using i by (auto simp: db_inv_def move_simps(1-3,6))
next
  case (step_init p magic now r g)
  then show ?thesis
    using init_step_inv [OF i] by blast
next
  case (step_join p now r g)
  then have "list_ex is_init t"
    using j by simp
  with i have "counted s" "good_fd (ds_file s)" "pids_ok s" "creators s = {}" "ds_born s"
    by (simp_all add: db_inv_def)
  with step_join show ?thesis
    using counted_joined [of s p now r g] \<open>list_ex is_init t\<close> by (simp add: db_inv_def move_simps)
next
  case (step_write p g)
  have "list_ex is_init t"
    by (rule writer_after_init [OF i]) fact
  with i have f: "counted s" "good_fd (ds_file s)" "pids_ok s" "creators s = {}" "ds_born s"
    by (simp_all add: db_inv_def)
  have fd: "fdno g = fdno (ds_file s)" "good_fd g"
    using arg_cong [OF step_write(6), of fdno] arg_cong [OF step_write(6), of good_fd] f(2)
    by (simp_all add: good_fd_def)
  have "get_header_field g i = get_header_field (ds_file s) i" if "i = 0 \<or> i = 3 \<or> i = 4" for i
    using header17 [OF step_write(4,5) _ fd(1) that] f(1) by (simp add: counted_def)
  moreover have "insert p (writers s) = writers s"
    using step_write by (auto simp: writers_def)
  ultimately show ?thesis
    using step_write(1-3,5) f fd(2) \<open>list_ex is_init t\<close> by (simp add: db_inv_def move_simps counted_def)
next
  case (step_close p path x g ren)
  have "list_ex is_init t"
    by (rule writer_after_init [OF i]) fact
  with i have f: "counted s" "good_fd (ds_file s)" "pids_ok s" "creators s = {}" "ds_born s"
    by (simp_all add: db_inv_def)
  show ?thesis
    using step_close f counted_closed [OF f(1-3) step_close(3-5)] \<open>list_ex is_init t\<close>
    by (simp add: db_inv_def move_simps)
qed

lemma db_exec_inv:
  assumes "db_exec (db_start f) t s" "good_fd f" "init_first t"
  shows "db_inv t s"
  using assms(1,3)
proof (induction rule: db_exec.induct)
  case exec_none
  then show ?case
    using assms(2) by (simp add: db_inv_def db_start_def pids_ok_def writers_def creators_def)
next
  case (exec_snoc t s e s')
  then show ?case
    using db_step_inv [of s e s' t] init_first_snoc [of t e] by blast
qed

section \<open>Concrete schedules\<close>

lemma demo_good: "good_fd (demo_fd d)"
  by (simp add: good_fd_def)

text \<open>The first two steps of every concrete schedule below: process 0 creates and initialises.\<close>

definition demo_created :: db_sys where
  "demo_created = \<lparr>ds_file = demo_fd [], ds_born = True, ds_linked = True, ds_phase = (\<lambda>_. Idle)(0 := Has_created)\<rparr>"

definition demo_init :: db_sys where
  "demo_init = \<lparr>ds_file = demo_fd (init_header 0 7), ds_born = True, ds_linked = True,
     ds_phase = (\<lambda>_. Idle)(0 := Writer)\<rparr>"

lemma demo_create_step: "db_step (db_start (demo_fd [])) (Ev_create 0) demo_created"
proof -
  have "demo_created = (move (db_start (demo_fd [])) 0 Has_created (ds_file (db_start (demo_fd []))))
      \<lparr>ds_born := True, ds_linked := True\<rparr>"
    by (simp add: demo_created_def db_start_def move_def demo_fd_def)
  then show ?thesis
    using db_step.step_create [of "db_start (demo_fd [])" 0] by (simp add: db_start_def)
qed

lemma demo_fd_bytes: "(demo_fd d)\<lparr>bytes := d'\<rparr> = demo_fd d'"
  by (simp add: demo_fd_def)

lemma demo_open_created: "open_created (demo_fd []) 0 7 = Ret (3, demo_fd (init_header 0 7))"
  using create_ok [OF demo_good [of "[]"], of 0 7] by (simp add: demo_fd_bytes c_u64_def)

lemma demo_exec_init: "db_exec (db_start (demo_fd [])) [Ev_create 0, Ev_init 0] demo_init"
proof -
  have "demo_init = move demo_created 0 Writer (demo_fd (init_header 0 7))"
    by (simp add: demo_init_def demo_created_def move_def)
  then have "db_step demo_created (Ev_init 0) demo_init"
    using db_step.step_init [of demo_created 0 0 7 3 "demo_fd (init_header 0 7)"] demo_open_created
    by (simp add: demo_created_def)
  then show ?thesis
    using exec_snoc [OF exec_snoc [OF exec_none demo_create_step]] by simp
qed

lemma demo_close:
  assumes s: "ds_phase s 0 = Writer" "ds_file s = f" and f: "good_fd f" "2329 \<le> length (bytes f)"
    "get_header_field f MAGIC = 0" "get_header_field f ACTIVE_WRITERS = 1"
  shows "\<exists>g. db_step s (Ev_close 0) ((move s 0 Finished g)\<lparr>ds_linked := False\<rparr>) \<and>
    get_header_field g STATE = STATE_SEALED \<and> get_header_field g MAGIC = 0 \<and> g = f\<lparr>bytes := bytes g\<rparr> \<and>
    length (bytes g) = length (bytes f) \<and> drop 2329 (bytes g) = drop 2329 (bytes f) \<and>
    (\<forall>j. hdr_valid j \<and> 263 \<le> j \<longrightarrow> get_header_field g j = get_header_field f j)"
proof -
  have p: "47 \<in> set (bytes_of ''/i.db'')"
    by (simp add: bytes_of_def)
  from close_last [OF f(1,2,3) _ f(4) p, of 0] obtain g where g:
    "close_database f 0 (Some (bytes_of ''/i.db'')) =
       Ret (0, g, Some (bytes_of ''/i.db'', snapshot_name 0 (bytes_of ''/i.db'') (c_u32 (get_header_field f SNAPSHOT_ID))))"
    "get_header_field g 3 = 83"
    "\<forall>j. hdr_valid j \<and> j \<noteq> 4 \<and> j \<noteq> 3 \<longrightarrow> get_header_field g j = get_header_field f j"
    "drop 2329 (bytes g) = drop 2329 (bytes f)" "length (bytes g) = length (bytes f)" "g = f\<lparr>bytes := bytes g\<rparr>"
    by auto
  have step: "db_step s (Ev_close 0) ((move s 0 Finished g)\<lparr>ds_linked := False\<rparr>)"
    using db_step.step_close [OF s(1) p, of 0 g] g(1) s(2) by simp
  have m: "get_header_field g MAGIC = 0"
    using g(3) [rule_format, of 0] f(3) by (simp add: aw_fields)
  have flds: "\<forall>j. hdr_valid j \<and> 263 \<le> j \<longrightarrow> get_header_field g j = get_header_field f j"
    by (intro allI impI g(3) [rule_format]) auto
  show ?thesis
    by (intro exI [of _ g] conjI step g(2,4,5,6) m flds)
qed

lemma demo_written:
  "\<exists>w. holds f_bkt f_body f_valid (bytes w) [demo_file] \<and> good_fd w \<and> fdno w = 3 \<and>
    2329 \<le> length (bytes w) \<and> get_header_field w 4 = 1 \<and> get_header_field w 0 = 0 \<and>
    db_step demo_init (Ev_write 0) (move demo_init 0 Writer w)"
proof -
  let ?f = "demo_fd (init_header 0 7)"
  have lim: "length (init_header 0 7) + length (f_body demo_file) + 4 \<le> 1000000"
    using f_valid_sizes(1) [OF demo_file_valid(1)] by (simp add: length_init_header demo_file_def)
  obtain w where w: "holds f_bkt f_body f_valid (bytes w) [demo_file]"
    "w = ?f\<lparr>bytes := bytes w, fpos := fpos w\<rparr>" "take 281 (bytes w) = take 281 (init_header 0 7)"
    using fo.append_refines [of ?f "[]" demo_file demo_file] lim
    by (auto simp: holds_init demo_file_valid f_checksum_update insert_unique_def)
  have wf: "good_fd w" "fdno w = 3"
    using arg_cong [OF w(2), of good_fd] arg_cong [OF w(2), of fdno] by (simp_all add: good_fd_def)
  have wl: "2329 \<le> length (bytes w)"
    using layoutD(3) w(1) unfolding holds_def by blast
  have "take 17 (take 281 (bytes w)) = take 17 (take 281 (init_header 0 7))"
    by (simp only: w(3))
  then have w17: "take 17 (bytes w) = take 17 (init_header 0 7)"
    by simp
  have wst: "get_header_field w 4 = 1" "get_header_field w 0 = 0"
    using header17 [of w ?f 4] header17 [of w ?f 0] w17 wl wf(2) init_header_state [of ?f 0 7]
    by (simp_all add: length_init_header)
  have "db_step demo_init (Ev_write 0) (move demo_init 0 Writer w)"
    using db_step.step_write [of demo_init 0 w] w17 wl w(2) by (simp add: demo_init_def)
  then show ?thesis
    using w(1) wf wl wst by blast
qed

section \<open>Properties\<close>

text \<open>
  C5. Counting of writers. In every schedule of any number of processes in which no process
  joins before the creator has initialised the file, once the file is initialised the
  header's \<open>ACTIVE_WRITERS\<close> is the number of processes that have the database open, and
  the state is sealed exactly when there is none.
\<close>

theorem writers_counted:
  assumes "good_fd f" "db_exec (db_start f) t s" "init_first t" "list_ex is_init t"
  shows "get_header_field (ds_file s) ACTIVE_WRITERS = int (card {p. ds_phase s p = Writer}) \<and>
    get_header_field (ds_file s) STATE =
      (if {p. ds_phase s p = Writer} = {} then STATE_SEALED else STATE_OPEN)"
  using db_exec_inv [OF assms(2,1,3)] assms(4) by (simp_all add: db_inv_def counted_def writers_def)

theorem writers_counted_witness:
  "\<exists>s. db_exec (db_start (demo_fd [])) [Ev_create 0, Ev_init 0] s \<and>
    get_header_field (ds_file s) ACTIVE_WRITERS = 1 \<and> get_header_field (ds_file s) STATE = STATE_OPEN"
proof -
  have "{p. ds_phase demo_init p = Writer} = {0}"
    by (auto simp: demo_init_def)
  then show ?thesis
    using writers_counted [OF demo_good demo_exec_init] demo_exec_init
    by (intro exI [of _ demo_init]) (simp add: init_first_def nth_Cons split: nat.splits)
qed

text \<open>
  C17. The creation race. When a second process opens the file between the creator's
  \<open>open\<close> and its \<open>initialize_snapshot\<close>, two processes have the database open and
  \<open>ACTIVE_WRITERS\<close> is 1; the first to close seals the snapshot the other still writes.
\<close>

theorem creation_race:
  "\<exists>t s s'. db_exec (db_start (demo_fd [])) t s \<and>
    {p. ds_phase s p = Writer} = {0, 1} \<and> get_header_field (ds_file s) ACTIVE_WRITERS = 1 \<and>
    db_step s (Ev_close 0) s' \<and> {p. ds_phase s' p = Writer} = {1} \<and>
    get_header_field (ds_file s') STATE = STATE_SEALED"
proof -
  define s1 where "s1 = move demo_created 1 Has_opened (demo_fd [])"
  define s2 where "s2 = move s1 1 Writer (demo_fd [])"
  define s3 where "s3 = move s2 0 Writer (demo_fd (init_header 0 7))"
  have "db_step demo_created (Ev_open 1) s1"
    using db_step.step_open [of demo_created 1] by (simp add: s1_def demo_created_def)
  moreover have "db_step s1 (Ev_join 1) s2"
    using db_step.step_join [of s1 1 0 3 "demo_fd []"] join_empty [OF demo_good [of "[]"], of 0]
    by (simp add: s1_def s2_def move_def)
  moreover have "db_step s2 (Ev_init 0) s3"
    using db_step.step_init [of s2 0 0 7 3 "demo_fd (init_header 0 7)"] demo_open_created
    by (simp add: s1_def s2_def s3_def move_def demo_created_def)
  ultimately have ex: "db_exec (db_start (demo_fd [])) ((([] @ [Ev_create 0]) @ [Ev_open 1]) @ [Ev_join 1] @ [Ev_init 0]) s3"
    using exec_snoc [OF exec_snoc [OF exec_snoc [OF exec_snoc [OF exec_none demo_create_step]]]] by simp
  have w: "{p. ds_phase s3 p = Writer} = {0, 1}"
    by (auto simp: s3_def s2_def s1_def move_def demo_created_def)
  have st: "get_header_field (demo_fd (init_header 0 7)) 4 = 1" "get_header_field (demo_fd (init_header 0 7)) 0 = 0"
    using init_header_state [of "demo_fd (init_header 0 7)" 0 7] by simp_all
  have s3: "ds_phase s3 0 = Writer" "ds_file s3 = demo_fd (init_header 0 7)"
    by (simp_all add: s3_def move_def)
  from demo_close [OF s3 demo_good _ st(2,1)] obtain g where
    g: "db_step s3 (Ev_close 0) ((move s3 0 Finished g)\<lparr>ds_linked := False\<rparr>)" "get_header_field g 3 = 83"
    by (auto simp: length_init_header)
  have "{p. ds_phase ((move s3 0 Finished g)\<lparr>ds_linked := False\<rparr>) p = Writer} = {1}"
    by (auto simp: s3_def s2_def s1_def move_def demo_created_def)
  moreover have "ds_file ((move s3 0 Finished g)\<lparr>ds_linked := False\<rparr>) = g"
    by (simp add: move_def)
  ultimately show ?thesis
    using ex w g st(1) s3(2)
    by (intro exI [of _ "[Ev_create 0, Ev_open 1, Ev_join 1, Ev_init 0]"] exI [of _ s3]
        exI [of _ "(move s3 0 Finished g)\<lparr>ds_linked := False\<rparr>"]) simp
qed

text \<open>
  C19. The rename race. A process that opens the database path before the last writer closes
  it, and takes the lock after, empties a finished snapshot: the file is sealed, holds its
  records and has been renamed, and the late opener reinitialises it with no record.
\<close>

theorem late_opener_erases:
  "\<exists>t s s'. db_exec (db_start (demo_fd [])) t s \<and> init_first t \<and>
    \<not> ds_linked s \<and> get_header_field (ds_file s) STATE = STATE_SEALED \<and>
    holds f_bkt f_body f_valid (bytes (ds_file s)) [demo_file] \<and>
    db_step s (Ev_join 1) s' \<and> holds f_bkt f_body f_valid (bytes (ds_file s')) []"
proof -
  let ?t = "[Ev_create 0, Ev_init 0, Ev_write 0, Ev_open 1, Ev_close 0]"
  from demo_written obtain w where w: "holds f_bkt f_body f_valid (bytes w) [demo_file]" "good_fd w" "fdno w = 3"
    "2329 \<le> length (bytes w)" "get_header_field w 4 = 1" "get_header_field w 0 = 0"
    and st1: "db_step demo_init (Ev_write 0) (move demo_init 0 Writer w)"
    by blast
  define s2 where "s2 = move (move demo_init 0 Writer w) 1 Has_opened w"
  have st2: "db_step (move demo_init 0 Writer w) (Ev_open 1) s2"
    using db_step.step_open [of "move demo_init 0 Writer w" 1] by (simp add: s2_def move_def demo_init_def)
  have s2: "ds_phase s2 0 = Writer" "ds_file s2 = w" "ds_phase s2 1 = Has_opened"
    by (simp_all add: s2_def move_def demo_init_def)
  from demo_close [OF s2(1,2) w(2,4,6,5)] obtain g where
    st3: "db_step s2 (Ev_close 0) ((move s2 0 Finished g)\<lparr>ds_linked := False\<rparr>)" and
    g: "get_header_field g 3 = 83" "get_header_field g 0 = 0" "g = w\<lparr>bytes := bytes g\<rparr>"
    "length (bytes g) = length (bytes w)" "drop 2329 (bytes g) = drop 2329 (bytes w)"
    "\<forall>j. hdr_valid j \<and> 263 \<le> j \<longrightarrow> get_header_field g j = get_header_field w j"
    by blast
  define s3 where "s3 = (move s2 0 Finished g)\<lparr>ds_linked := False\<rparr>"
  have ex: "db_exec (db_start (demo_fd [])) ?t s3"
    using exec_snoc [OF exec_snoc [OF exec_snoc [OF demo_exec_init st1] st2] st3] by (simp add: s3_def)
  have fd: "fdno g = fdno w" "good_fd g" "fdno w \<noteq> -1"
    using same_fd(1,4) [OF g(3)] w(2,3) by simp_all
  have gh: "holds f_bkt f_body f_valid (bytes g) [demo_file]"
    by (rule holds_cong [OF w(1) fd(3,1) g(4,5)]) (use g(6) in blast)
  have s3: "ds_phase s3 1 = Has_opened" "ds_file s3 = g" "\<not> ds_linked s3"
    using s2(3) by (simp_all add: s3_def move_def)
  have j: "open_existing g 9 = Ret (fdno g, g\<lparr>bytes := init_header 0 9\<rparr>)"
    using join_sealed [of g 0 9] fd(2) g(1,2) by (simp add: c_u64_def)
  define s4 where "s4 = move s3 1 Writer (g\<lparr>bytes := init_header 0 9\<rparr>)"
  have "db_step s3 (Ev_join 1) s4"
    unfolding s4_def using s3 j w(3) fd(1)
    by (intro db_step.step_join [where now = 9 and r = 3]) simp_all
  moreover have "holds f_bkt f_body f_valid (bytes (ds_file s4)) []"
    by (simp add: s4_def move_def holds_init)
  moreover have "init_first ?t"
    by (simp add: init_first_def nth_Cons split: nat.splits)
  ultimately show ?thesis
    using ex s3 g(1) gh by (intro exI [of _ ?t] exI [of _ s3] exI [of _ s4]) simp
qed

text \<open>
  C33. Reopening a sealed database starts a fresh snapshot with no record, in the format of
  the old file: the magic the caller asks for is ignored.
\<close>

theorem reopen_sealed_resets:
  assumes "good_fd f" "get_header_field f STATE = STATE_SEALED"
    and "get_header_field f MAGIC = m" "m = FILEOPS_MAGIC_ID \<or> m = PROC_MAGIC_ID"
  shows "\<exists>g. open_database (Some (Exists (Some f))) requested now = Ret (fdno f, Some g) \<and>
    get_header_field g MAGIC = m \<and> get_header_field g STATE = STATE_OPEN \<and>
    get_header_field g ACTIVE_WRITERS = 1 \<and> holds bkt body valid (bytes g) []"
proof -
  let ?g = "f\<lparr>bytes := init_header (c_u64 m) (c_u64 now)\<rparr>"
  have "get_header_field ?g 3 = 79" "get_header_field ?g 4 = 1" "get_header_field ?g 0 = m"
    using init_header_state [of ?g "c_u64 m" "c_u64 now"] assms(1,4) by (auto simp: good_fd_def c_u64_def)
  then show ?thesis
    using join_sealed [OF assms, of now] by (intro exI [of _ ?g]) (simp add: open_database_def holds_init)
qed

theorem reopen_sealed_resets_witness:
  "\<exists>f g. get_header_field f STATE = STATE_SEALED \<and> get_header_field f MAGIC = FILEOPS_MAGIC_ID \<and>
    open_database (Some (Exists (Some f))) PROC_MAGIC_ID 9 = Ret (3, Some g) \<and>
    get_header_field g MAGIC = FILEOPS_MAGIC_ID"
proof -
  have s: "2329 \<le> length (bytes (demo_fd (init_header 0 7)))"
    by (simp add: length_init_header)
  obtain f where f: "get_header_field f 3 = 83" "get_header_field f 0 = get_header_field (demo_fd (init_header 0 7)) 0"
    "f = (demo_fd (init_header 0 7))\<lparr>bytes := bytes f\<rparr>"
    using seal_ok [OF demo_good s] by (auto simp: aw_fields)
  have "good_fd f" "fdno f = 3" "get_header_field f 0 = 0"
    using same_fd(1,4) [OF f(3)] f(2) init_header_state [of "demo_fd (init_header 0 7)" 0 7] by (simp_all add: demo_good)
  then show ?thesis
    using reopen_sealed_resets [of f 0 1 9 f_bkt f_body f_valid] f(1) by auto
qed

text \<open>
  C23. \<open>close_database\<close> of a writer decrements the count, seals the snapshot and asks for
  the rename exactly when it was the last one, and keeps every record.
\<close>

theorem close_database_correct:
  assumes "good_fd f" "holds bkt body valid (bytes f) es" "47 \<in> set path"
    and "get_header_field f MAGIC = m" "m = FILEOPS_MAGIC_ID \<or> m = PROC_MAGIC_ID"
    and "get_header_field f ACTIVE_WRITERS = n" "1 \<le> n" "n < 2 ^ 31" "get_header_field f STATE = STATE_OPEN"
  shows "\<exists>g. close_database f explicit (Some path) = Ret (0, g,
      if n = 1 \<and> explicit = 0
      then Some (path, snapshot_name m path (c_u32 (get_header_field f SNAPSHOT_ID))) else None) \<and>
    get_header_field g ACTIVE_WRITERS = n - 1 \<and>
    get_header_field g STATE = (if n = 1 then STATE_SEALED else STATE_OPEN) \<and>
    holds bkt body valid (bytes g) es"
proof -
  have l: "2329 \<le> length (bytes f)" "fdno f \<noteq> -1"
    using assms(1,2) layoutD(3) unfolding holds_def good_fd_def by auto
  show ?thesis
  proof (cases "n = 1")
    case True
    then have one: "get_header_field f 4 = 1"
      using assms(6) by simp
    from close_last [OF assms(1) l(1) assms(4,5) one assms(3), of explicit] obtain g where
      g: "close_database f explicit (Some path) = Ret (0, g,
        if explicit = 0 then Some (path, snapshot_name m path (c_u32 (get_header_field f SNAPSHOT_ID))) else None)"
      "get_header_field g 4 = 0" "get_header_field g 3 = 83"
      "\<forall>j. hdr_valid j \<and> j \<noteq> 4 \<and> j \<noteq> 3 \<longrightarrow> get_header_field g j = get_header_field f j"
      "drop 2329 (bytes g) = drop 2329 (bytes f)" "length (bytes g) = length (bytes f)" "g = f\<lparr>bytes := bytes g\<rparr>"
      by blast
    have "holds bkt body valid (bytes g) es"
      by (rule holds_cong [OF assms(2) l(2) same_fd(1) [OF g(7)] g(6,5)]) (use g(4) in auto)
    with True g(1-3) show ?thesis
      by (intro exI [of _ g]) simp
  next
    case False
    with assms(7) have n: "1 < n"
      by simp
    from close_not_last [OF assms(1) l(1) assms(4,5,6) n assms(8), of explicit "Some path"] obtain g where
      g: "close_database f explicit (Some path) = Ret (0, g, None)" "get_header_field g 4 = n - 1"
      "\<forall>j. hdr_valid j \<and> j \<noteq> 4 \<longrightarrow> get_header_field g j = get_header_field f j"
      "drop 2329 (bytes g) = drop 2329 (bytes f)" "length (bytes g) = length (bytes f)" "g = f\<lparr>bytes := bytes g\<rparr>"
      by blast
    have "holds bkt body valid (bytes g) es"
      by (rule holds_cong [OF assms(2) l(2) same_fd(1) [OF g(6)] g(5,4)]) (use g(3) in auto)
    moreover have "get_header_field g 3 = 79"
      using g(3) [rule_format, of 3] assms(9) by (simp add: aw_fields)
    ultimately show ?thesis
      using False g(1,2) by (intro exI [of _ g]) simp
  qed
qed

theorem close_database_correct_witness:
  "\<exists>g. close_database (demo_fd (init_header 0 7)) 1 (Some (bytes_of ''/x/i.db'')) = Ret (0, g, None) \<and>
    get_header_field g STATE = STATE_SEALED \<and> holds f_bkt f_body f_valid (bytes g) []"
proof -
  have p: "47 \<in> set (bytes_of ''/x/i.db'')"
    by (simp add: bytes_of_def)
  have st: "get_header_field (demo_fd (init_header 0 7)) 3 = 79" "get_header_field (demo_fd (init_header 0 7)) 4 = 1"
    "get_header_field (demo_fd (init_header 0 7)) 0 = 0"
    using init_header_state [of "demo_fd (init_header 0 7)" 0 7] by simp_all
  show ?thesis
    using close_database_correct [OF demo_good _ p st(3) _ st(2) _ _ st(1), of f_bkt f_body f_valid "[]" 1]
    by (auto simp: holds_init)
qed

text \<open>
  C35. Opening a sealed file whose magic is unknown runs into undefined behaviour.
\<close>

theorem reopen_unknown_magic:
  assumes "good_fd f" "get_header_field f STATE = STATE_SEALED" "get_header_field f MAGIC = -1"
  shows "open_existing f now = UB"
proof -
  have "c_int (-1) = -1" "c_u64 (-1) \<noteq> 0" "c_u64 (-1) \<noteq> 1"
    by (simp_all add: c_int_id c_u64_def)
  then show ?thesis
    using assms
    by (simp add: open_existing_def good_fd_def initialize_snapshot_def set_header_field_def
        set_header_switch_def ftruncate0_def Let_def)
qed

theorem reopen_unknown_magic_witness:
  "open_existing (demo_fd [0, 0, 0, 0, 0, 0, 0, 0, 0, 0, 0, 0, 83]) 0 = UB"
  by (rule reopen_unknown_magic)
     (simp_all add: demo_good get_header_field_def hdr_read_def hdr_read_magic_def pread_def fslice_def
       bytes_of_def c_str_def)

end
