(* ===== verification/Db_Count.thy ===== *)
theory Db_Count
  imports Db_Open
begin

text \<open>
  What the two programs that fill a snapshot share: the update of \<open>RECORD_COUNT\<close> at the end
  of \<open>build_database\<close> (the same code in \<open>src/main_fileops_indexer.c\<close> and in
  \<open>src/main_proc_snapshot.c\<close>), the expected list of records, and the invariant of a file
  that is being filled, for any kind of entry.
\<close>

text \<open>
  The end of \<open>build_database\<close>, the same in the indexer and in the process snapshot: add
  the number of appended records to \<open>RECORD_COUNT\<close> under its lock.
\<close>

definition update_record_count :: "fdesc \<Rightarrow> nat \<Rightarrow> (int \<times> fdesc) outcome" where
  "update_record_count f appended_records =
     (if \<not> setlkw_ok f then Ret (-1, f) else
      let record_count = c_int (get_header_field f RECORD_COUNT) in
      c_bind (set_header_field f RECORD_COUNT (c_u64 (record_count + int appended_records))) (\<lambda>(_, f).
      if \<not> setlk_ok f then Ret (-1, f) else Ret (0, f)))"


definition insert_all :: "('e \<Rightarrow> 'k) \<Rightarrow> 'e list \<Rightarrow> 'e list \<Rightarrow> 'e list" where
  "insert_all key es new = foldl (\<lambda>es e. snd (insert_unique key e es)) es new"

text \<open>
  The state of the walk: the file holds \<open>es\<close>, and everything else the walk must keep is as
  in the file \<open>f0\<close> it started from.
\<close>

definition walking :: "('e \<Rightarrow> nat) \<Rightarrow> ('e \<Rightarrow> byte list) \<Rightarrow> ('e \<Rightarrow> bool) \<Rightarrow> fdesc \<Rightarrow> fdesc \<Rightarrow> 'e list \<Rightarrow> bool" where
  "walking bkt body valid f0 f es \<longleftrightarrow>
     good_fd f \<and> o_append f \<and> holds bkt body valid (bytes f) es \<and>
     fdno f = fdno f0 \<and> file_limit f = file_limit f0 \<and>
     (\<forall>i. 0 \<le> i \<and> i < 5 \<longrightarrow> get_header_field f i = get_header_field f0 i)"

definition recs_size :: "('e \<Rightarrow> byte list) \<Rightarrow> 'e list \<Rightarrow> nat" where
  "recs_size body es = sum_list (map (\<lambda>e. length (body e) + 4) es)"

lemma walking_fd: "walking bkt body valid f0 f es \<Longrightarrow> fdno f \<noteq> -1 \<and> 2329 \<le> length (bytes f) \<and> length (bytes f) = 2329 + recs_size body es"
  using holds_length [of bkt body valid "bytes f" es]
  by (auto simp: walking_def good_fd_def recs_size_def)

lemma walking_append:
  assumes w: "walking bkt body valid f0 f es" and h: "holds bkt body valid (bytes g) es'"
    and g: "g = f\<lparr>bytes := bytes g, fpos := fpos g\<rparr>" and t: "take 281 (bytes g) = take 281 (bytes f)"
  shows "walking bkt body valid f0 g es'" "get_header_field g RECORD_COUNT = get_header_field f RECORD_COUNT"
proof -
  have fd: "fdno g = fdno f" "good_fd g = good_fd f" "o_append g = o_append f" "file_limit g = file_limit f"
    using arg_cong [OF g, of fdno] arg_cong [OF g, of good_fd] arg_cong [OF g, of o_append] arg_cong [OF g, of file_limit]
    by (simp_all add: good_fd_def)
  have len: "2329 \<le> length (bytes g)"
    using layoutD(3) h unfolding holds_def by blast
  have same: "get_header_field g i = get_header_field f i" if "0 \<le> i" "i < 6" for i
  proof -
    have "i \<in> {0, 1, 2, 3, 4, 5}"
      using that by auto
    then show ?thesis
      using walking_fd [OF w] len fd(1)
      by (intro header_prefix [OF t]) (auto simp: hdr_valid_def hdr_off_def hdr_width_def)
  qed
  then show "walking bkt body valid f0 g es'"
    using w h fd by (simp add: walking_def)
  show "get_header_field g RECORD_COUNT = get_header_field f RECORD_COUNT"
    by (rule same) simp_all
qed

lemma update_record_count_ok:
  assumes w: "walking bkt body valid f0 f es"
  shows "\<exists>g. update_record_count f n = Ret (0, g) \<and> walking bkt body valid f0 g es \<and>
    get_header_field g RECORD_COUNT = (get_header_field f RECORD_COUNT + int n) mod 2 ^ 32"
proof -
  let ?rc = "get_header_field f 5"
  have f: "good_fd f" "fdno f \<noteq> -1" "2329 \<le> length (bytes f)" "2329 \<le> file_limit f"
    using w walking_fd [OF w] by (simp_all add: walking_def good_fd_def)
  have v: "hdr_valid 5" "hdr_storable 5 x" for x
    by (simp_all add: hdr_valid_def hdr_storable_def)
  let ?v = "c_u64 (c_int ?rc + int n)"
  obtain g where g: "set_header_field f 5 ?v = Ret (0, g)" "get_header_field g 5 = hdr_stored 5 ?v"
    "\<forall>j. hdr_valid j \<and> j \<noteq> 5 \<longrightarrow> get_header_field g j = get_header_field f j"
    "drop 2329 (bytes g) = drop 2329 (bytes f)" "length (bytes g) = length (bytes f)" "g = f\<lparr>bytes := bytes g\<rparr>"
    using set_header_field_facts [OF f(2-4) v] by blast
  have st: "hdr_stored 5 ?v = (?rc + int n) mod 2 ^ 32"
  proof -
    have "int (unat (c_u64 x) mod 256 ^ 4) = x mod 2 ^ 32" for x
      by (simp add: c_u64_def zmod_int uint_word_of_int flip: uint_nat) (simp add: mod_mod_cancel)
    moreover have "c_int x mod 2 ^ 32 = x mod 2 ^ 32" for x
    proof -
      have "uint (w :: u32) = sint w mod 2 ^ 32" for w
        using uint_word_of_int [where 'a = 32, of "sint w"] unfolding of_int_sint scast_id by simp
      from this [of "word_of_int x"] show ?thesis
        unfolding c_int_def by (simp add: uint_word_of_int)
    qed
    ultimately show ?thesis
      by (simp add: hdr_stored_def hdr_width_def) (metis mod_add_left_eq)
  qed
  have "holds bkt body valid (bytes g) es"
    using w by (intro holds_cong [OF _ f(2) same_fd(1) [OF g(6)] g(5,4)]) (use g(3) in \<open>auto simp: walking_def\<close>)
  moreover have "get_header_field g i = get_header_field f i" if "0 \<le> i" "i < 5" for i
    using g(3) that by (simp add: hdr_valid_def)
  moreover have "o_append g = o_append f"
    using arg_cong [OF g(6), of o_append] by simp
  ultimately have "walking bkt body valid f0 g es"
    using w same_fd [OF g(6)] by (simp add: walking_def)
  then show ?thesis
    using g(1,2) f(1) st same_fd(2) [OF g(6)] by (intro exI [of _ g]) (simp add: update_record_count_def good_fd_def)
qed

lemma insert_all_simps:
  "insert_all key es [] = es" "insert_all key es (e # new) = insert_all key (snd (insert_unique key e es)) new"
  "insert_all key es (a @ b) = insert_all key (insert_all key es a) b"
  by (simp_all add: insert_all_def)

lemma length_insert_unique:
  "length (snd (insert_unique key e es)) = length es + (if fst (insert_unique key e es) = 0 then 1 else 0)"
  by (simp add: insert_unique_def)

lemma insert_all_size:
  "recs_size body (insert_all key es new) \<le> recs_size body es + recs_size body new"
proof (induction new arbitrary: es)
  case (Cons e new)
  have "recs_size body (snd (insert_unique key e es)) \<le> recs_size body es + recs_size body [e]"
    by (simp add: insert_unique_def recs_size_def)
  then show ?case
    using Cons [of "snd (insert_unique key e es)"] by (simp add: insert_all_simps recs_size_def)
qed (simp add: insert_all_simps recs_size_def)

text \<open>The new records fit: the file stays within its limit and below 4 GiB.\<close>

definition room :: "('e \<Rightarrow> byte list) \<Rightarrow> fdesc \<Rightarrow> 'e list \<Rightarrow> 'e list \<Rightarrow> bool" where
  "room body f es new \<longleftrightarrow>
     HEADER_SIZE + recs_size body es + recs_size body new \<le> file_limit f \<and>
     HEADER_SIZE + recs_size body es + recs_size body new < EMPTY_BUCKET"

lemma room_split:
  assumes "room body f es (a @ b)" "file_limit g = file_limit f"
  shows "room body f es a" "room body g (insert_all key es a) b"
  using assms insert_all_size [of body key es a] by (simp_all add: room_def recs_size_def)

lemma insert_all_diff:
  "length es \<le> length (insert_all key es new)"
  "length (insert_all key es (a @ b)) - length es =
    length (insert_all key (insert_all key es a) b) - length (insert_all key es a) + (length (insert_all key es a) - length es)"
proof -
  show le: "length es \<le> length (insert_all key es new)" for es new
  proof (induction new arbitrary: es)
    case (Cons e new)
    then show ?case
      using Cons [of "snd (insert_unique key e es)"] by (simp add: insert_all_simps length_insert_unique split: if_splits)
  qed (simp add: insert_all_simps)
  show "length (insert_all key es (a @ b)) - length es =
    length (insert_all key (insert_all key es a) b) - length (insert_all key es a) + (length (insert_all key es a) - length es)"
    using le [of "es" a] le [of "insert_all key es a" b] by (simp add: insert_all_simps)
qed

text \<open>
  \<open>counts\<close>: the header count plus the records counted but not yet added to it, modulo
  the width of the field.
\<close>

definition counts :: "fdesc \<Rightarrow> nat \<Rightarrow> int \<Rightarrow> bool" where
  "counts f n c \<longleftrightarrow> (get_header_field f RECORD_COUNT + int n) mod 2 ^ 32 = c mod 2 ^ 32"

lemma counts_add: "counts f n c \<Longrightarrow> counts f (n + k) (c + int k)"
  using mod_add_cong [of "get_header_field f 5 + int n" "2 ^ 32" c "int k" "int k"]
  by (simp add: counts_def add.assoc)

lemma counts_trans:
  assumes "counts g 0 x" "counts g k c" "counts h 0 (x + y)"
  shows "counts h k (c + y)"
proof -
  let ?g = "get_header_field g 5" and ?h = "get_header_field h 5"
  have "2 ^ 32 dvd ?g - x" "2 ^ 32 dvd ?g + int k - c" "2 ^ 32 dvd ?h - (x + y)"
    using assms by (simp_all add: counts_def mod_eq_dvd_iff)
  then have "2 ^ 32 dvd (?h - (x + y)) + (?g + int k - c) - (?g - x)"
    by (metis dvd_add dvd_diff)
  moreover have "(?h - (x + y)) + (?g + int k - c) - (?g - x) = ?h + int k - (c + y)"
    by simp
  ultimately show ?thesis
    unfolding counts_def mod_eq_dvd_iff by metis
qed

lemma count_range:
  assumes "fdno f \<noteq> -1" "2329 \<le> length (bytes f)"
  shows "0 \<le> get_header_field f RECORD_COUNT" "get_header_field f RECORD_COUNT < 2 ^ 32"
proof -
  have v: "hdr_valid 5" "hdr_width 5 = 4" "hdr_off 5 + 4 \<le> length (bytes f)"
    using assms(2) by (simp_all add: hdr_valid_def hdr_width_def hdr_off_def)
  have "hdr_val (bytes f) 5 < 256 ^ 4"
    using le_nat_bound [of "fslice (bytes f) (hdr_off 5) 4"] v by (simp add: hdr_val_def length_fslice)
  then show "0 \<le> get_header_field f RECORD_COUNT" "get_header_field f RECORD_COUNT < 2 ^ 32"
    using get_header_field_eq [OF assms(1) v(1) _ assms(2)] by simp_all
qed

lemma length_recs_size: "length es \<le> recs_size body es"
  by (induction es) (simp_all add: recs_size_def)

lemma insert_all_distinct: "distinct (map key es) \<Longrightarrow> distinct (map key (insert_all key es new))"
  by (induction new arbitrary: es) (simp_all add: insert_all_simps insert_unique_distinct)

lemma final_count:
  assumes w: "walking bkt body valid f0 g (insert_all key es new)"
    and r: "room body f es new"
    and c: "counts g 0 (int (length es) + int (length (insert_all key es new) - length es))"
  shows "get_header_field g RECORD_COUNT = int (length (insert_all key es new))"
proof -
  let ?es' = "insert_all key es new"
  have "int (length es) + int (length ?es' - length es) = int (length ?es')"
    using insert_all_diff(1) [of es key new] by simp
  moreover have "int (length ?es') < 2 ^ 32"
    using length_recs_size [of ?es' body] insert_all_size [of body key es new] r by (simp add: room_def)
  ultimately show ?thesis
    using c count_range [of g] walking_fd [OF w] by (simp add: counts_def)
qed

text \<open>A run on a new file: the state before the first append, and what the close makes of it.\<close>

lemma fresh_file:
  assumes "good_fd f" "o_append f" "bytes f = []" and m: "m = 0 \<or> m = 1"
    and f'_def: "f' = f\<lparr>bytes := init_header (c_u64 m) (c_u64 now)\<rparr>"
  shows "open_database (Some (Created f)) m now = Ret (fdno f, Some f')"
    and "good_fd f'" "o_append f'" "holds bkt body valid (bytes f') []" "get_header_field f' RECORD_COUNT = 0"
    and "fdno f \<noteq> -1"
proof -
  have m': "c_u64 m = 0 \<or> c_u64 m = 1"
    using m by (auto simp: c_u64_def)
  show "open_database (Some (Created f)) m now = Ret (fdno f, Some f')"
    using create_ok [OF assms(1,3) m, of now] by (simp add: open_database_def f'_def)
  show f: "good_fd f'" "o_append f'" "holds bkt body valid (bytes f') []" "fdno f \<noteq> -1"
    using assms(1,2) by (simp_all add: holds_init f'_def good_fd_def)
  show "get_header_field f' RECORD_COUNT = 0"
    using init_header_get [of f' "c_u64 m" "c_u64 now" 5] f(4) m'
    by (simp add: hdr_valid_def hdr_stored_def init_field_def f'_def)
qed

lemma close_filled:
  assumes f: "good_fd f" and m: "m = 0 \<or> m = 1"
    and f': "f' = f\<lparr>bytes := init_header (c_u64 m) (c_u64 now)\<rparr>"
    and w: "walking bkt body valid f' g es" and p: "47 \<in> set p"
  shows "\<exists>h. close_database g x (Some p) = Ret (0, h,
      if x = 0 then Some (p, snapshot_name m p (c_u32 (get_header_field f' SNAPSHOT_ID))) else None) \<and>
    holds bkt body valid (bytes h) es \<and> get_header_field h STATE = STATE_SEALED \<and>
    get_header_field h ACTIVE_WRITERS = 0 \<and> get_header_field h MAGIC = m \<and>
    get_header_field h RECORD_COUNT = get_header_field g RECORD_COUNT"
proof -
  have m': "c_u64 m = 0 \<or> c_u64 m = 1" "uint (c_u64 m) = m"
    using m by (auto simp: c_u64_def)
  have st: "get_header_field g 0 = m" "get_header_field g 4 = 1"
    and si: "get_header_field g 2 = get_header_field f' 2"
    using w init_header_state [of f' "c_u64 m" "c_u64 now"] f m' by (simp_all add: walking_def good_fd_def f')
  have g: "good_fd g" "2329 \<le> length (bytes g)" "fdno g \<noteq> -1" "holds bkt body valid (bytes g) es"
    using w walking_fd [OF w] by (simp_all add: walking_def)
  obtain h where h: "close_database g x (Some p) = Ret (0, h,
      if x = 0 then Some (p, snapshot_name m p (c_u32 (get_header_field g 2))) else None)"
    "get_header_field h 4 = 0" "get_header_field h 3 = 83"
    "\<forall>j. hdr_valid j \<and> j \<noteq> 4 \<and> j \<noteq> 3 \<longrightarrow> get_header_field h j = get_header_field g j"
    "drop 2329 (bytes h) = drop 2329 (bytes g)" "length (bytes h) = length (bytes g)" "h = g\<lparr>bytes := bytes h\<rparr>"
    using close_last [OF g(1,2) st(1) m st(2) p, of x] by blast
  have "holds bkt body valid (bytes h) es"
    by (rule holds_cong [OF g(4,3) same_fd(1) [OF h(7)] h(6,5)]) (use h(4) in auto)
  moreover have "get_header_field h 5 = get_header_field g 5" "get_header_field h 0 = get_header_field g 0"
    using h(4) by (simp_all add: hdr_valid_def)
  ultimately show ?thesis
    using h(1-3) si st(1) by (intro exI [of _ h]) simp
qed

end
