(* ===== verification/Indexer.thy ===== *)
theory Indexer
  imports Db_Count
begin

text \<open>
  The file indexer, \<open>src/main_fileops_indexer.c\<close>: the recursive walk of a directory tree
  that appends an entry per file, the update of \<open>RECORD_COUNT\<close> at the end of each
  directory, and \<open>main\<close>. A directory tree is a value that holds what the system calls
  answer for each of its entries.
\<close>

section \<open>The code\<close>

text \<open>
  One directory entry: its name, what \<open>build_fileops_entry\<close> sees, the content a checksum
  reads, the kind the second \<open>lstat\<close> reports (\<open>None\<close> when it fails), and the directory
  behind the name. \<open>Unreadable\<close> is a failing \<open>opendir\<close>.
\<close>

record dirent_info =
  d_name :: "byte list"
  d_sys :: sys_file
  d_content :: "byte list option"
  d_again :: "file_kind option"

datatype dir = Unreadable | Listing "dirent list"
  and dirent = Dirent dirent_info dir

text \<open>How a call ends: it returns a value, or the program exits.\<close>

datatype flow = Return int | Exit int

text \<open>
  A path that is \<open>NULL\<close> or freed: the pointer has no readable bytes. The length and the
  other fields of the entry stay as they were.
\<close>

definition free_path :: "db_fileops_entry \<Rightarrow> db_fileops_entry" where
  "free_path entry = entry\<lparr>f_absolute_path := []\<rparr>"

text \<open>
  The loop body up to the recursion: build the entry, append it, free its path. The caller
  tests the build for -1 only, so after any other result it appends the entry as it is.
\<close>

definition index_one ::
  "fdesc \<Rightarrow> byte list \<Rightarrow> dirent_info \<Rightarrow> db_fileops_entry \<Rightarrow> (int \<times> fdesc \<times> db_fileops_entry) outcome" where
  "index_one f resolved_path info entry =
     c_bind (build_fileops_entry (d_sys info) resolved_path entry) (\<lambda>(ret_build_entry, entry).
     if ret_build_entry = -1 then Ret (-1, f, entry)
     else c_bind (append_fileops_entry (\<lambda>_. d_content info) f entry) (\<lambda>(ret_append_entry, f, entry).
     Ret (ret_append_entry, f, free_path entry)))"

fun build_dir :: "fdesc \<Rightarrow> byte list \<Rightarrow> dir \<Rightarrow> db_fileops_entry \<Rightarrow> (flow \<times> fdesc) outcome"
and build_entries :: "fdesc \<Rightarrow> byte list \<Rightarrow> dirent list \<Rightarrow> db_fileops_entry \<Rightarrow> nat \<Rightarrow> (flow option \<times> fdesc \<times> nat) outcome" where
  "build_dir f path Unreadable junk = Ret (Return 3, f)"
| "build_dir f path (Listing ents) junk =
     c_bind (build_entries f path ents (free_path junk) 0) (\<lambda>(early, f, appended_records).
     case early of Some fl \<Rightarrow> Ret (fl, f)
     | None \<Rightarrow> c_bind (update_record_count f appended_records) (\<lambda>(r, f). Ret (Return r, f)))"
| "build_entries f path [] entry appended_records = Ret (None, f, appended_records)"
| "build_entries f path (Dirent info sub # ents) entry appended_records =
     (if d_name info = bytes_of ''.'' \<or> d_name info = bytes_of ''..'' then
        build_entries f path ents entry appended_records
      else let resolved_path = path @ [47] @ d_name info in
      if PATH_MAX + 1 \<le> length resolved_path then Ret (Some (Return 3), f, appended_records) else
      c_bind (index_one f resolved_path info entry) (\<lambda>(ret_append_entry, f, entry).
      if ret_append_entry = -1 then Ret (Some (Return (-1)), f, appended_records) else
      let appended_records = (if ret_append_entry = 0 then appended_records + 1 else appended_records) in
      case d_again info of None \<Rightarrow> Ret (Some (Exit 1), f, appended_records) | Some kind \<Rightarrow>
      c_bind (if kind = S_DIR then build_dir f resolved_path sub entry else Ret (Return 0, f)) (\<lambda>(fl, f).
      if fl \<noteq> Return 0 then Ret (Some fl, f, appended_records)
      else build_entries f path ents entry appended_records)))"

text \<open>The arguments and \<open>main\<close>. \<open>open_db\<close> gives the result of the \<open>open\<close> calls for a path.\<close>

record index_args =
  ia_root :: "string option"
  ia_db :: string
  ia_explicit :: int

fun parse_index_args :: "string list \<Rightarrow> index_args \<Rightarrow> index_args" where
  "parse_index_args (opt # v # rest) a =
     (if opt = ''--root'' then parse_index_args rest (a\<lparr>ia_root := Some v\<rparr>)
      else if opt = ''--db'' then parse_index_args rest (a\<lparr>ia_db := v, ia_explicit := 1\<rparr>)
      else parse_index_args (v # rest) a)"
| "parse_index_args _ a = a"

record index_env =
  ie_dir :: "string \<Rightarrow> dir_info"
  ie_open :: "string \<Rightarrow> open_result"
  ie_now :: int
  ie_realpath :: "string \<Rightarrow> byte list option"
  ie_tree :: "byte list \<Rightarrow> dir"
  ie_fd_path :: "byte list option"
  ie_junk :: db_fileops_entry

text \<open>
  \<open>main\<close>: the exit code, the database file when it was opened, and the \<open>rename\<close> the
  close performs.
\<close>

definition indexer_main ::
  "string list \<Rightarrow> index_env \<Rightarrow> (int \<times> fdesc option \<times> (byte list \<times> byte list) option) outcome" where
  "indexer_main argv env =
     (if length argv \<le> 2 then Ret (1, None, None) else
      let a = parse_index_args (tl argv) \<lparr>ia_root = None, ia_db = ''./data/index.db'', ia_explicit = 0\<rparr> in
      if validate_directory (map_option (ie_dir env) (ia_root a)) \<noteq> 0 then Ret (1, None, None) else
      c_bind (open_database (Some (ie_open env (ia_db a))) FILEOPS_MAGIC_ID (ie_now env)) (\<lambda>(fd_db, db).
      case db of None \<Rightarrow> Ret (1, None, None) | Some f \<Rightarrow>
      if fd_db = -1 then Ret (1, Some f, None) else
      case Option.bind (ia_root a) (ie_realpath env) of
        None \<Rightarrow> c_bind (close_database f (ia_explicit a) (ie_fd_path env)) (\<lambda>(_, f, ren). Ret (1, Some f, ren))
      | Some abs_path_dir \<Rightarrow>
          c_bind (build_dir f abs_path_dir (ie_tree env abs_path_dir) (ie_junk env)) (\<lambda>(fl, f).
          case fl of Exit c \<Rightarrow> Ret (c, Some f, None)
          | Return r \<Rightarrow>
              c_bind (close_database f (ia_explicit a) (ie_fd_path env)) (\<lambda>(_, f, ren).
              Ret (if r \<noteq> 0 then 1 else 0, Some f, ren)))))"

section \<open>The expected records\<close>

text \<open>The entry the indexer writes for a file, and the entries of a tree in walk order.\<close>

definition file_entry :: "byte list \<Rightarrow> file_stat \<Rightarrow> byte list \<Rightarrow> u64 \<Rightarrow> db_fileops_entry" where
  "file_entry path st link checksum =
     (let text = (if st_kind st = S_LNK then symlink_text path link else path);
          n = word_of_nat (length text + 1)
      in \<lparr>f_entry_size = n + 64, f_path_len = n, f_absolute_path = text @ [0],
          f_type = (case type_name (st_kind st) of Some s \<Rightarrow> strncpy s TYPE_LEN_MAX | None \<Rightarrow> [])[15 := 0],
          f_checksum = checksum, f_size_bytes = st_size st, f_mtime = ucast (st_mtime st),
          f_hash = fnv1a path, f_dev = ucast (st_dev st), f_inode = ucast (st_ino st),
          f_next_entry_bucket = 0\<rparr>)"

definition no_stat :: file_stat where
  "no_stat = \<lparr>st_kind = S_OTHER, st_size = 0, st_mtime = 0, st_dev = 0, st_ino = 0\<rparr>"

definition info_entry :: "byte list \<Rightarrow> dirent_info \<Rightarrow> db_fileops_entry" where
  "info_entry path info =
     (let st = (case sys_lstat (d_sys info) of Some st \<Rightarrow> st | None \<Rightarrow> no_stat)
      in file_entry path st (case sys_readlink (d_sys info) of None \<Rightarrow> [] | Some link \<Rightarrow> link)
          (if st_kind st = S_REG
           then (case checksum_content (d_content info) (st_size st) of Ret c \<Rightarrow> c | _ \<Rightarrow> 0) else 0))"

definition info_ok :: "byte list \<Rightarrow> dirent_info \<Rightarrow> bool" where
  "info_ok path info \<longleftrightarrow>
     length path < PATH_MAX \<and> 0 \<notin> set path \<and> sys_malloc (d_sys info) \<and> sys_realloc (d_sys info) \<and>
     (case sys_lstat (d_sys info) of None \<Rightarrow> False | Some st \<Rightarrow>
        st_kind st \<noteq> S_OTHER \<and> d_again info = Some (st_kind st) \<and>
        (st_kind st = S_LNK \<longrightarrow> sys_readlink (d_sys info) \<noteq> None) \<and>
        (st_kind st = S_REG \<longrightarrow> (\<exists>c. checksum_content (d_content info) (st_size st) = Ret c)))"

fun tree_entries :: "byte list \<Rightarrow> dir \<Rightarrow> db_fileops_entry list"
and list_entries :: "byte list \<Rightarrow> dirent list \<Rightarrow> db_fileops_entry list" where
  "tree_entries path Unreadable = []"
| "tree_entries path (Listing ents) = list_entries path ents"
| "list_entries path [] = []"
| "list_entries path (Dirent info sub # ents) =
     (if d_name info = bytes_of ''.'' \<or> d_name info = bytes_of ''..'' then []
      else let p = path @ [47] @ d_name info in
        info_entry p info # (if d_again info = Some S_DIR then tree_entries p sub else [])) @
     list_entries path ents"

fun tree_ok :: "byte list \<Rightarrow> dir \<Rightarrow> bool"
and list_ok :: "byte list \<Rightarrow> dirent list \<Rightarrow> bool" where
  "tree_ok path Unreadable \<longleftrightarrow> False"
| "tree_ok path (Listing ents) \<longleftrightarrow> list_ok path ents"
| "list_ok path [] \<longleftrightarrow> True"
| "list_ok path (Dirent info sub # ents) \<longleftrightarrow>
     (if d_name info = bytes_of ''.'' \<or> d_name info = bytes_of ''..'' then True
      else let p = path @ [47] @ d_name info in
        info_ok p info \<and> (d_again info = Some S_DIR \<longrightarrow> tree_ok p sub)) \<and>
     list_ok path ents"

abbreviation f_walking :: "fdesc \<Rightarrow> fdesc \<Rightarrow> db_fileops_entry list \<Rightarrow> bool" where
  "f_walking \<equiv> walking f_bkt f_body f_valid"

abbreviation f_size :: "db_fileops_entry list \<Rightarrow> nat" where
  "f_size \<equiv> recs_size f_body"

abbreviation f_room :: "fdesc \<Rightarrow> db_fileops_entry list \<Rightarrow> db_fileops_entry list \<Rightarrow> bool" where
  "f_room \<equiv> room f_body"

section \<open>One file\<close>

lemma file_entry_text:
  assumes "length path < 4096" "0 \<notin> set path"
  shows "length (symlink_text path link) + 1 \<le> 4096" "0 \<notin> set (symlink_text path link)"
proof -
  have "length (if 4096 \<le> length t then take 4094 t else t) + 1 \<le> 4096" for t :: "byte list"
    by simp
  then show "length (symlink_text path link) + 1 \<le> 4096"
    unfolding symlink_text_def Let_def .
  show "0 \<notin> set (symlink_text path link)"
    using assms(2) c_str_no_nul [of "take 4095 link"]
    by (auto simp: symlink_text_def Let_def bytes_of_def dest: in_set_takeD)
qed

lemma file_entry_valid:
  assumes "length path < 4096" "0 \<notin> set path" "st_kind st \<noteq> S_OTHER"
  shows "f_valid (file_entry path st link c)"
proof -
  let ?t = "if st_kind st = S_LNK then symlink_text path link else path"
  obtain s where s: "type_name (st_kind st) = Some s"
    using assms(3) by (cases "st_kind st") (simp_all add: type_name_def)
  have t: "length ?t + 1 \<le> 4096"
    using file_entry_text(1) [OF assms(1,2), of link] assms(1) by simp
  note ty = type_name_ok(1,2) [of "replicate 16 0" "st_kind st"]
  have "unat (word_of_nat (length ?t + 1) :: u32) = length ?t + 1"
    by (rule unat_word_small [OF t])
  then show ?thesis
    using t s ty by (simp add: f_valid_def file_entry_def Let_def has_nul_def word_le_nat_alt)
qed

lemma build_file_entry:
  assumes "sys_lstat sys = Some st" "sys_malloc sys" "sys_realloc sys" "st_kind st \<noteq> S_OTHER"
    and link: "st_kind st = S_LNK \<Longrightarrow> sys_readlink sys = Some link"
    and path: "length path < 4096" "0 \<notin> set path"
  shows "build_fileops_entry sys path e =
    Ret (0, file_entry path st link (if st_kind st = S_REG then 1 else 0))"
proof -
  obtain s where s: "type_name (st_kind st) = Some s"
    using assms(4) by (cases "st_kind st") (simp_all add: type_name_def)
  let ?l = "word_of_nat (length path) :: u32"
  have ul: "unat ?l = length path"
    using path(1) by (intro unat_word_small) simp
  then have short: "\<not> 4096 \<le> ?l"
    using path(1) by (simp add: word_le_nat_alt)
  define e1 where "e1 = e\<lparr>f_size_bytes := st_size st, f_mtime := ucast (st_mtime st), f_hash := fnv1a path,
      f_dev := ucast (st_dev st), f_inode := ucast (st_ino st), f_next_entry_bucket := 0,
      f_absolute_path := path @ [0], f_path_len := ?l + 1, f_entry_size := ?l + 1 + 64,
      f_type := (strncpy s 16)[15 := 0], f_checksum := (if st_kind st = S_REG then 1 else 0)\<rparr>"
  have b: "build_fileops_entry sys path e =
      (if st_kind st = S_LNK then build_symlink sys path e1 else Ret (0, e1))"
    unfolding build_fileops_entry_def assms(1) Let_def option.case s
    using assms(2) short ul by (simp add: e1_def)
  show ?thesis
  proof (cases "st_kind st = S_LNK")
    case False
    then show ?thesis
      using b s by (cases e) (simp add: e1_def file_entry_def Let_def add.commute)
  next
    case True
    obtain n where n: "build_symlink sys path e1 = Ret (0, e1\<lparr>f_absolute_path := symlink_text path link @ [0],
        f_path_len := n, f_entry_size := n + 64\<rparr>)" "unat n = length (symlink_text path link) + 1"
      using build_symlink_ok [OF assms(3) link [OF True] path] by blast
    have "n = word_of_nat (length (symlink_text path link) + 1)"
      using n(2) by (metis of_nat_unat ucast_id)
    then show ?thesis
      using b s n(1) True by (cases e) (simp add: e1_def file_entry_def Let_def)
  qed
qed

lemma info_okE:
  assumes "info_ok path info"
  obtains st link c where "sys_lstat (d_sys info) = Some st" "st_kind st \<noteq> S_OTHER" "d_again info = Some (st_kind st)"
    and "info_entry path info = file_entry path st link c" "sys_malloc (d_sys info)" "sys_realloc (d_sys info)"
    and "st_kind st = S_LNK \<longrightarrow> sys_readlink (d_sys info) = Some link" "length path < 4096" "0 \<notin> set path"
    and "(if st_kind st = S_REG then checksum_content (d_content info) (st_size st) else Ret 0) = Ret c"
proof -
  obtain st where st: "sys_lstat (d_sys info) = Some st"
    using assms by (auto simp: info_ok_def split: option.splits)
  define link where "link = (case sys_readlink (d_sys info) of None \<Rightarrow> [] | Some link \<Rightarrow> link)"
  define c where "c = (if st_kind st = S_REG
    then (case checksum_content (d_content info) (st_size st) of Ret c \<Rightarrow> c | _ \<Rightarrow> 0) else 0)"
  have "info_entry path info = file_entry path st link c"
    by (simp add: info_entry_def st link_def c_def)
  then show ?thesis
    using assms st by (intro that [of st link c]) (auto simp: info_ok_def link_def c_def)
qed

lemma info_entry_valid: "info_ok path info \<Longrightarrow> f_valid (info_entry path info)"
  by (erule info_okE) (simp add: file_entry_valid)

lemma file_entry_checksum:
  "(file_entry path st link c)\<lparr>f_checksum := c'\<rparr> = file_entry path st link c'"
  by (simp add: file_entry_def Let_def)

lemma file_entry_sel:
  "f_checksum (file_entry path st link c) = c" "f_size_bytes (file_entry path st link c) = st_size st"
  by (simp_all add: file_entry_def Let_def)

lemma index_one_ok:
  assumes f: "good_fd f" "o_append f" and h: "holds f_bkt f_body f_valid (bytes f) es" and i: "info_ok path info"
    and lim: "length (bytes f) + length (f_body (info_entry path info)) + 4 \<le> file_limit f"
      "length (bytes f) + length (f_body (info_entry path info)) + 4 < EMPTY_BUCKET"
  shows "\<exists>g. index_one f path info e =
      Ret (fst (insert_unique f_key (info_entry path info) es), g, free_path (info_entry path info)) \<and>
    holds f_bkt f_body f_valid (bytes g) (snd (insert_unique f_key (info_entry path info) es)) \<and>
    g = f\<lparr>bytes := bytes g, fpos := fpos g\<rparr> \<and> take 281 (bytes g) = take 281 (bytes f)"
proof -
  obtain st link c where st: "sys_lstat (d_sys info) = Some st" "st_kind st \<noteq> S_OTHER"
      "d_again info = Some (st_kind st)"
    and en: "info_entry path info = file_entry path st link c" and ok: "sys_malloc (d_sys info)" "sys_realloc (d_sys info)"
    and ln: "st_kind st = S_LNK \<longrightarrow> sys_readlink (d_sys info) = Some link" and path: "length path < 4096" "0 \<notin> set path"
    and ch: "(if st_kind st = S_REG then checksum_content (d_content info) (st_size st) else Ret 0) = Ret c"
    using i by (rule info_okE)
  let ?e0 = "file_entry path st link (if st_kind st = S_REG then 1 else 0)"
  have v: "f_valid ?e0" "f_valid (file_entry path st link c)"
    by (rule file_entry_valid [OF path st(2)])+
  have len: "length (f_body ?e0) = length (f_body (file_entry path st link c))"
    using f_valid_sizes(1) [OF v(1)] f_valid_sizes(1) [OF v(2)] by (simp add: file_entry_def Let_def)
  have cs: "(if f_checksum ?e0 = 1 then checksum_content ((\<lambda>_. d_content info) (c_str (f_absolute_path ?e0))) (f_size_bytes ?e0)
      else Ret (f_checksum ?e0)) = Ret c"
    using ch by (simp add: file_entry_sel split: if_splits)
  have fd: "0 \<le> fdno f" "setlkw_ok f"
    using f(1) by (simp_all add: good_fd_def)
  have "build_fileops_entry (d_sys info) path e = Ret (0, ?e0)"
    by (rule build_file_entry [OF st(1) ok st(2) ln [rule_format] path])
  then have one: "index_one f path info e = c_bind (append_fileops_entry (\<lambda>_. d_content info) f ?e0)
      (\<lambda>(ret_append_entry, f, entry). Ret (ret_append_entry, f, free_path entry))"
    by (simp add: index_one_def)
  have "\<exists>g. append_fileops_entry (\<lambda>_. d_content info) f ?e0 =
      Ret (fst (insert_unique f_key (info_entry path info) es), g, info_entry path info) \<and>
    holds f_bkt f_body f_valid (bytes g) (snd (insert_unique f_key (info_entry path info) es)) \<and>
    g = f\<lparr>bytes := bytes g, fpos := fpos g\<rparr> \<and> take 281 (bytes g) = take 281 (bytes f)"
    using append_fileops_ok [OF fd(1) f(2) fd(2) h v(1) cs] lim
    by (simp only: len en file_entry_checksum)
  then show ?thesis
    unfolding one by (auto simp only: c_bind.simps prod.case)
qed

section \<open>The walk\<close>

lemma index_step:
  assumes w: "f_walking f0 f es" and i: "info_ok path info" and r: "f_room f es [info_entry path info]"
  shows "\<exists>g. index_one f path info e =
      Ret (fst (insert_unique f_key (info_entry path info) es), g, free_path (info_entry path info)) \<and>
    f_walking f0 g (insert_all f_key es [info_entry path info]) \<and>
    get_header_field g RECORD_COUNT = get_header_field f RECORD_COUNT"
proof -
  have f: "good_fd f" "o_append f" "holds f_bkt f_body f_valid (bytes f) es"
    using w by (simp_all add: walking_def)
  have "length (bytes f) = 2329 + f_size es"
    using walking_fd [OF w] by simp
  then have "length (bytes f) + length (f_body (info_entry path info)) + 4 \<le> file_limit f"
    "length (bytes f) + length (f_body (info_entry path info)) + 4 < EMPTY_BUCKET"
    using r by (simp_all add: room_def recs_size_def)
  from index_one_ok [OF f i this, of e] obtain g where
    g: "index_one f path info e = Ret (fst (insert_unique f_key (info_entry path info) es), g, free_path (info_entry path info))"
    "holds f_bkt f_body f_valid (bytes g) (snd (insert_unique f_key (info_entry path info) es))"
    "g = f\<lparr>bytes := bytes g, fpos := fpos g\<rparr>" "take 281 (bytes g) = take 281 (bytes f)"
    by blast
  show ?thesis
    using g(1) walking_append [OF w g(2-4)] by (auto simp: insert_all_simps)
qed

lemma dots: "d_name info = bytes_of ''.'' \<or> d_name info = bytes_of ''..'' \<Longrightarrow>
  build_entries f path (Dirent info sub # ents) e n = build_entries f path ents e n \<and>
  list_entries path (Dirent info sub # ents) = list_entries path ents"
  by auto

definition dir_done :: "fdesc \<Rightarrow> db_fileops_entry list \<Rightarrow> int \<Rightarrow> (flow \<times> fdesc) outcome \<Rightarrow> bool" where
  "dir_done f0 es c res \<longleftrightarrow> (\<exists>g. res = Ret (Return 0, g) \<and> f_walking f0 g es \<and> counts g 0 c)"

definition ents_done :: "fdesc \<Rightarrow> db_fileops_entry list \<Rightarrow> int \<Rightarrow> (flow option \<times> fdesc \<times> nat) outcome \<Rightarrow> bool" where
  "ents_done f0 es c res \<longleftrightarrow> (\<exists>g n. res = Ret (None, g, n) \<and> f_walking f0 g es \<and> counts g n c)"

lemma dir_from_ents:
  assumes "ents_done f0 es c (build_entries f path ents (free_path junk) 0)"
  shows "dir_done f0 es c (build_dir f path (Listing ents) junk)"
proof -
  obtain g n where g: "build_entries f path ents (free_path junk) 0 = Ret (None, g, n)" "f_walking f0 g es" "counts g n c"
    using assms by (auto simp: ents_done_def)
  from update_record_count_ok [OF g(2), of n] obtain h where
    h: "update_record_count g n = Ret (0, h)" "f_walking f0 h es"
    "get_header_field h RECORD_COUNT = (get_header_field g RECORD_COUNT + int n) mod 2 ^ 32"
    by blast
  then have "counts h 0 c"
    using g(3) by (simp add: counts_def)
  then show ?thesis
    using g(1) h by (simp add: dir_done_def)
qed

lemma entry_rest:
  assumes w: "f_walking f0 f es" and c: "counts f n c" and nd: "\<not> (d_name info = bytes_of ''.'' \<or> d_name info = bytes_of ''..'')"
    and p: "p = path @ [47] @ d_name info" and i: "info_ok p info" and r: "f_room f es [info_entry p info]"
  shows "\<exists>g k. f_walking f0 g (insert_all f_key es [info_entry p info]) \<and>
    counts g k (c + int (length (insert_all f_key es [info_entry p info]) - length es)) \<and>
    counts g 0 (get_header_field f RECORD_COUNT) \<and>
    (\<forall>ents. build_entries f path (Dirent info sub # ents) e n =
      c_bind (if d_again info = Some S_DIR then build_dir g p sub (free_path (info_entry p info)) else Ret (Return 0, g)) (\<lambda>(fl, h).
      if fl \<noteq> Return 0 then Ret (Some fl, h, k) else build_entries h path ents (free_path (info_entry p info)) k))"
proof -
  let ?en = "info_entry p info" and ?r = "fst (insert_unique f_key (info_entry p info) es)"
  from index_step [OF w i r, of e] obtain g where
    g: "index_one f p info e = Ret (?r, g, free_path ?en)" "f_walking f0 g (insert_all f_key es [?en])"
    "get_header_field g RECORD_COUNT = get_header_field f RECORD_COUNT"
    by blast
  define k where "k = (if ?r = 0 then n + 1 else n)"
  have "length (insert_all f_key es [?en]) - length es = k - n" "n \<le> k"
    by (simp_all add: insert_all_simps length_insert_unique k_def)
  then have cg: "counts g k (c + int (length (insert_all f_key es [?en]) - length es))"
    using counts_add [OF c, of "k - n"] g(3) by (simp add: counts_def)
  have r0: "?r \<noteq> -1"
    by (simp add: insert_unique_def)
  obtain kind where kd: "d_again info = Some kind" "length p < 4097"
    using i by (auto simp: info_ok_def split: option.splits)
  have "build_entries f path (Dirent info sub # ents) e n =
      c_bind (if d_again info = Some S_DIR then build_dir g p sub (free_path ?en) else Ret (Return 0, g)) (\<lambda>(fl, h).
      if fl \<noteq> Return 0 then Ret (Some fl, h, k) else build_entries h path ents (free_path ?en) k)" for ents
    unfolding build_entries.simps if_not_P [OF nd] Let_def p [symmetric]
    using kd g(1) r0 by (simp add: k_def cong: if_cong)
  then show ?thesis
    using g(2,3) cg by (intro exI [of _ g] exI [of _ k]) (simp add: counts_def)
qed

text \<open>One directory entry together with the tree below it, given that the subtree is walked.\<close>

lemma dirent_step:
  assumes w: "f_walking f0 f es" and c: "counts f n c" and nd: "\<not> (d_name info = bytes_of ''.'' \<or> d_name info = bytes_of ''..'')"
    and p: "p = path @ [47] @ d_name info" and i: "info_ok p info"
    and subs: "subs = (if d_again info = Some S_DIR then tree_entries p sub else [])"
    and r: "f_room f es (info_entry p info # subs)"
    and IH: "\<And>g es c e. d_again info = Some S_DIR \<Longrightarrow> f_walking f0 g es \<Longrightarrow> f_room g es (tree_entries p sub) \<Longrightarrow> counts g 0 c \<Longrightarrow>
      dir_done f0 (insert_all f_key es (tree_entries p sub))
        (c + int (length (insert_all f_key es (tree_entries p sub)) - length es)) (build_dir g p sub e)"
  shows "\<exists>h k. f_walking f0 h (insert_all f_key es (info_entry p info # subs)) \<and>
    counts h k (c + int (length (insert_all f_key es (info_entry p info # subs)) - length es)) \<and>
    (\<forall>ents. build_entries f path (Dirent info sub # ents) e n = build_entries h path ents (free_path (info_entry p info)) k)"
proof -
  let ?en = "info_entry p info" and ?isd = "d_again info = Some S_DIR"
  let ?es1 = "insert_all f_key es [?en]"
  let ?es2 = "insert_all f_key ?es1 subs"
  have all: "info_entry p info # subs = [?en] @ subs"
    by simp
  note r1 = room_split [OF r [unfolded all] refl]
  obtain g k where g: "f_walking f0 g ?es1" "counts g k (c + int (length ?es1 - length es))"
    "counts g 0 (get_header_field f RECORD_COUNT)"
    and be: "\<And>ents. build_entries f path (Dirent info sub # ents) e n =
      c_bind (if ?isd then build_dir g p sub (free_path ?en) else Ret (Return 0, g)) (\<lambda>(fl, h).
      if fl \<noteq> Return 0 then Ret (Some fl, h, k) else build_entries h path ents (free_path ?en) k)"
    using entry_rest [OF w c nd p i r1(1)] by blast
  have lim: "file_limit g = file_limit f"
    using g(1) w by (simp add: walking_def)
  have "\<exists>h. (if ?isd then build_dir g p sub (free_path ?en) else Ret (Return 0, g)) = Ret (Return 0, h) \<and>
      f_walking f0 h ?es2 \<and> counts h k (c + int (length ?es1 - length es) + int (length ?es2 - length ?es1))"
  proof (cases ?isd)
    case True
    then have "f_room g ?es1 (tree_entries p sub)"
      using room_split(2) [OF r [unfolded all] lim] by (simp add: subs)
    from IH [OF True g(1) this g(3), of "free_path ?en"] obtain h where
      "build_dir g p sub (free_path ?en) = Ret (Return 0, h)" "f_walking f0 h ?es2"
      "counts h 0 (get_header_field f RECORD_COUNT + int (length ?es2 - length ?es1))"
      using True by (auto simp: dir_done_def subs)
    then show ?thesis
      using True counts_trans [OF g(3,2)] by (intro exI [of _ h]) simp
  next
    case False
    then show ?thesis
      using g by (intro exI [of _ g]) (simp add: subs insert_all_simps)
  qed
  then obtain h where h: "f_walking f0 h ?es2" "counts h k (c + int (length ?es1 - length es) + int (length ?es2 - length ?es1))"
    "\<forall>ents. build_entries f path (Dirent info sub # ents) e n = build_entries h path ents (free_path ?en) k"
    unfolding be by auto
  have "c + int (length ?es1 - length es) + int (length ?es2 - length ?es1) =
      c + int (length (insert_all f_key es (?en # subs)) - length es)"
    using insert_all_diff(1) [of es f_key "[?en]"] insert_all_diff(1) [of ?es1 f_key subs]
    unfolding all insert_all_simps(3) by linarith
  with h show ?thesis
    unfolding all insert_all_simps(3) by (intro exI [of _ h] exI [of _ k]) simp
qed

lemma walk_ok:
  "f_walking f0 f es \<Longrightarrow> tree_ok path d \<Longrightarrow> f_room f es (tree_entries path d) \<Longrightarrow> counts f 0 c \<Longrightarrow>
   dir_done f0 (insert_all f_key es (tree_entries path d))
     (c + int (length (insert_all f_key es (tree_entries path d)) - length es)) (build_dir f path d e)"
  "f_walking f0 f es \<Longrightarrow> list_ok path ents \<Longrightarrow> f_room f es (list_entries path ents) \<Longrightarrow> counts f n c \<Longrightarrow>
   ents_done f0 (insert_all f_key es (list_entries path ents))
     (c + int (length (insert_all f_key es (list_entries path ents)) - length es)) (build_entries f path ents e n)"
proof (induction path d and path ents arbitrary: f es c e and f es c e n rule: tree_entries_list_entries.induct)
  case (1 path)
  then show ?case by simp
next
  case (2 path ents)
  then show ?case
    by (simp add: dir_from_ents del: build_dir.simps)
next
  case (3 path)
  then show ?case
    by (auto simp: ents_done_def insert_all_simps)
next
  case (4 path info sub ents)
  show ?case
  proof (cases "d_name info = bytes_of ''.'' \<or> d_name info = bytes_of ''..''")
    case True
    have "list_ok path ents"
      using "4.prems"(2) by simp
    then show ?thesis
      using "4.IH"(2) "4.prems" dots [OF True] by simp
  next
    case False
    define p where "p = path @ [47] @ d_name info"
    let ?isd = "d_again info = Some S_DIR"
    define subs where "subs = (if ?isd then tree_entries p sub else [])"
    let ?one = "info_entry p info # subs"
    have all: "list_entries path (Dirent info sub # ents) = ?one @ list_entries path ents"
      using False by (simp add: p_def subs_def Let_def)
    have ok: "info_ok p info" "?isd \<Longrightarrow> tree_ok p sub" "list_ok path ents"
      using "4.prems"(2) False by (auto simp: p_def Let_def)
    note room = "4.prems"(3) [unfolded all]
    obtain h k where h: "f_walking f0 h (insert_all f_key es ?one)"
      "counts h k (c + int (length (insert_all f_key es ?one) - length es))"
      "build_entries f path (Dirent info sub # ents) e n = build_entries h path ents (free_path (info_entry p info)) k"
      using dirent_step [OF "4.prems"(1,4) False p_def ok(1) subs_def room_split(1) [OF room refl]
          "4.IH"(1) [OF False p_def _ _ ok(2)]] by blast
    have "file_limit h = file_limit f"
      using h(1) "4.prems"(1) by (simp add: walking_def)
    note fin = "4.IH"(2) [OF h(1) ok(3) room_split(2) [OF room this] h(2), of "free_path (info_entry p info)"]
    have "c + int (length (insert_all f_key es ?one) - length es) +
        int (length (insert_all f_key (insert_all f_key es ?one) (list_entries path ents)) - length (insert_all f_key es ?one)) =
      c + int (length (insert_all f_key (insert_all f_key es ?one) (list_entries path ents)) - length es)"
      using insert_all_diff(1) [of es f_key ?one] insert_all_diff(1) [of "insert_all f_key es ?one" f_key "list_entries path ents"]
      by linarith
    with fin show ?thesis
      unfolding h(3) all insert_all_simps(3) by simp
  qed
qed

text \<open>
  The walk up to any point of a listing. Behind the first file the entry is \<open>spent\<close>: its
  path is freed, its length is still that of the last file.
\<close>

definition spent :: "db_fileops_entry \<Rightarrow> bool" where
  "spent e \<longleftrightarrow> f_absolute_path e = [] \<and> 0 < unat (f_path_len e)"

lemma spent_info: "info_ok p info \<Longrightarrow> spent (free_path (info_entry p info))"
  using info_entry_valid [of p info]
  by (auto simp: spent_def free_path_def f_valid_def has_nul_def unat_gt_0 dest!: length_pos_if_in_set)

lemma append_spent:
  assumes "spent e" "0 \<le> fdno f"
  shows "append_fileops_entry fs f e = UB"
proof -
  have "c_bind (checksum_content c n) (\<lambda>_. UB) = (UB :: (int \<times> fdesc \<times> db_fileops_entry) outcome)" for c n
    by (simp add: checksum_content_def Let_def split: option.splits)
  moreover have "copy_fields [] (fileops_fields (e\<lparr>f_checksum := x\<rparr>)) = UB" for x
    using assms(1) by (simp add: spent_def fileops_fields_def)
  ultimately show ?thesis
    using assms(2) by (simp add: append_fileops_entry_def Let_def)
qed

lemma walk_prefix:
  "f_walking f0 f es \<Longrightarrow> list_ok path pre \<Longrightarrow> f_room f es (list_entries path pre) \<Longrightarrow> counts f n c \<Longrightarrow>
   \<exists>g e' k. build_entries f path (pre @ rest) e n = build_entries g path rest e' k \<and>
     f_walking f0 g (insert_all f_key es (list_entries path pre)) \<and>
     (spent e \<or> list_entries path pre \<noteq> [] \<longrightarrow> spent e')"
proof (induction pre arbitrary: f es c e n)
  case Nil
  then show ?case
    by (auto simp: insert_all_simps)
next
  case (Cons d pre)
  obtain info sub where d: "d = Dirent info sub"
    by (cases d)
  show ?case
  proof (cases "d_name info = bytes_of ''.'' \<or> d_name info = bytes_of ''..''")
    case True
    have "list_ok path pre"
      using Cons.prems(2) d by simp
    then show ?thesis
      using Cons.IH [of f es n c e] Cons.prems dots [OF True] unfolding d append_Cons by simp
  next
    case False
    define p where "p = path @ [47] @ d_name info"
    define subs where "subs = (if d_again info = Some S_DIR then tree_entries p sub else [])"
    let ?one = "info_entry p info # subs"
    have all: "list_entries path (d # pre) = ?one @ list_entries path pre"
      using False by (simp add: p_def subs_def Let_def d)
    have ok: "info_ok p info" "d_again info = Some S_DIR \<Longrightarrow> tree_ok p sub" "list_ok path pre"
      using Cons.prems(2) False by (auto simp: p_def Let_def d)
    note room = Cons.prems(3) [unfolded all]
    obtain h k where h: "f_walking f0 h (insert_all f_key es ?one)"
      "counts h k (c + int (length (insert_all f_key es ?one) - length es))"
      "build_entries f path (d # pre @ rest) e n = build_entries h path (pre @ rest) (free_path (info_entry p info)) k"
      using dirent_step [OF Cons.prems(1,4) False p_def ok(1) subs_def room_split(1) [OF room refl]
          walk_ok(1) [OF _ ok(2)]] unfolding d by blast
    have "file_limit h = file_limit f"
      using h(1) Cons.prems(1) by (simp add: walking_def)
    from Cons.IH [OF h(1) ok(3) room_split(2) [OF room this] h(2), of "free_path (info_entry p info)"]
    show ?thesis
      unfolding append_Cons [of d] h(3) all insert_all_simps(3) using spent_info [OF ok(1)] by simp
  qed
qed

lemma build_dir_ok:
  assumes "good_fd f" "o_append f" "holds f_bkt f_body f_valid (bytes f) es"
    and t: "tree_ok path d" and r: "f_room f es (tree_entries path d)"
    and rc: "get_header_field f RECORD_COUNT = int (length es)"
  shows "\<exists>g. build_dir f path d junk = Ret (Return 0, g) \<and>
    f_walking f g (insert_all f_key es (tree_entries path d)) \<and>
    get_header_field g RECORD_COUNT = int (length (insert_all f_key es (tree_entries path d)))"
proof -
  let ?es' = "insert_all f_key es (tree_entries path d)"
  have w: "f_walking f f es"
    using assms(1-3) by (simp add: walking_def)
  have "counts f 0 (int (length es))"
    by (simp add: counts_def rc)
  from walk_ok(1) [OF w t r this] obtain g where
    g: "build_dir f path d junk = Ret (Return 0, g)" "f_walking f g ?es'"
    "counts g 0 (int (length es) + int (length ?es' - length es))"
    by (auto simp: dir_done_def)
  have "get_header_field g RECORD_COUNT = int (length ?es')"
    by (rule final_count [OF g(2) r g(3)])
  with g(1,2) show ?thesis
    by blast
qed

lemma info_entry_size:
  assumes "info_ok path info"
  shows "length (f_body (info_entry path info)) + 4 \<le> 4160"
  using f_valid_sizes(1,2) [OF info_entry_valid [OF assms]] by simp

definition demo_info :: "string \<Rightarrow> file_kind \<Rightarrow> dirent_info" where
  "demo_info name kind =
     \<lparr>d_name = bytes_of name,
      d_sys = \<lparr>sys_lstat = Some \<lparr>st_kind = kind, st_size = 0, st_mtime = 5, st_dev = 1, st_ino = 9\<rparr>,
               sys_readlink = None, sys_malloc = True, sys_realloc = True\<rparr>,
      d_content = None, d_again = Some kind\<rparr>"

definition demo_tree :: dir where
  "demo_tree = Listing [Dirent (demo_info ''.'' S_DIR) Unreadable,
     Dirent (demo_info ''d'' S_DIR) (Listing [Dirent (demo_info ''x'' S_FIFO) Unreadable])]"

lemma demo_info_ok:
  "info_ok (bytes_of ''/r/d'') (demo_info ''d'' S_DIR)" "info_ok (bytes_of ''/r/d/x'') (demo_info ''x'' S_FIFO)"
  by (simp_all add: info_ok_def demo_info_def bytes_of_def)

lemma demo_tree_facts:
  "tree_ok (bytes_of ''/r'') demo_tree"
  "tree_entries (bytes_of ''/r'') demo_tree =
     [info_entry (bytes_of ''/r/d'') (demo_info ''d'' S_DIR), info_entry (bytes_of ''/r/d/x'') (demo_info ''x'' S_FIFO)]"
proof -
  have n: "d_name (demo_info s k) = bytes_of s" "d_again (demo_info s k) = Some k" for s k
    by (simp_all add: demo_info_def)
  have b: "bytes_of ''/r'' @ [47] @ bytes_of ''d'' = bytes_of ''/r/d''"
    "bytes_of ''/r/d'' @ [47] @ bytes_of ''x'' = bytes_of ''/r/d/x''"
    "bytes_of ''d'' \<noteq> bytes_of ''.''" "bytes_of ''d'' \<noteq> bytes_of ''..''"
    "bytes_of ''x'' \<noteq> bytes_of ''.''" "bytes_of ''x'' \<noteq> bytes_of ''..''"
    by (simp_all add: bytes_of_def)
  show "tree_ok (bytes_of ''/r'') demo_tree"
    unfolding demo_tree_def tree_ok.simps list_ok.simps n Let_def b using demo_info_ok b by simp
  show "tree_entries (bytes_of ''/r'') demo_tree =
     [info_entry (bytes_of ''/r/d'') (demo_info ''d'' S_DIR), info_entry (bytes_of ''/r/d/x'') (demo_info ''x'' S_FIFO)]"
    unfolding demo_tree_def tree_entries.simps list_entries.simps n Let_def b using b by simp
qed

lemma demo_room: "f_room (demo_fd d) [] (tree_entries (bytes_of ''/r'') demo_tree)"
  using info_entry_size [OF demo_info_ok(1)] info_entry_size [OF demo_info_ok(2)]
  by (simp add: room_def demo_tree_facts(2) recs_size_def)

lemma demo_keys: "f_key (info_entry (bytes_of ''/r/d'') (demo_info ''d'' S_DIR)) \<noteq>
  f_key (info_entry (bytes_of ''/r/d/x'') (demo_info ''x'' S_FIFO))"
  by (simp add: f_key_def info_entry_def demo_info_def file_entry_def Let_def bytes_of_def)

definition demo_env :: index_env where
  "demo_env =
     \<lparr>ie_dir = (\<lambda>_. \<lparr>dir_stat_ok = True, dir_is_dir = True, dir_access = True\<rparr>),
      ie_open = (\<lambda>_. Created (demo_fd [])), ie_now = 7, ie_realpath = (\<lambda>_. Some (bytes_of ''/r'')),
      ie_tree = (\<lambda>_. demo_tree), ie_fd_path = Some (bytes_of ''/w/data/index.db''), ie_junk = demo_file\<rparr>"

section \<open>Properties\<close>

text \<open>
  C9. The walk. On a snapshot that holds the entries \<open>es\<close> and counts them, indexing a
  readable tree succeeds, leaves a well-formed snapshot that holds \<open>es\<close> followed by the
  entries of the tree in walk order (each key once), and \<open>RECORD_COUNT\<close> is again the
  number of records; magic, version, id, state and writer count are unchanged.
\<close>

theorem build_database_correct:
  assumes "good_fd f" "o_append f" "holds f_bkt f_body f_valid (bytes f) es"
    and "tree_ok path d" "f_room f es (tree_entries path d)"
    and "get_header_field f RECORD_COUNT = int (length es)"
  shows "\<exists>g. build_dir f path d junk = Ret (Return 0, g) \<and>
    holds f_bkt f_body f_valid (bytes g) (insert_all f_key es (tree_entries path d)) \<and>
    get_header_field g RECORD_COUNT = int (length (insert_all f_key es (tree_entries path d))) \<and>
    (\<forall>i. 0 \<le> i \<and> i < 5 \<longrightarrow> get_header_field g i = get_header_field f i)"
  using build_dir_ok [OF assms, of junk] unfolding walking_def by blast

theorem build_database_correct_witness:
  "\<exists>g. build_dir (demo_fd (init_header 0 7)) (bytes_of ''/r'') demo_tree demo_file = Ret (Return 0, g) \<and>
    get_header_field g RECORD_COUNT = 2"
proof -
  have "get_header_field (demo_fd (init_header 0 7)) 5 = 0"
    using init_header_get [of "demo_fd (init_header 0 7)" 0 7 5]
    by (simp add: hdr_valid_def hdr_stored_def init_field_def)
  moreover have "length (insert_all f_key [] (tree_entries (bytes_of ''/r'') demo_tree)) = 2"
    using demo_keys by (simp add: demo_tree_facts(2) insert_all_simps insert_unique_def)
  ultimately show ?thesis
    using build_database_correct [OF demo_good [of "init_header 0 7"] _ _ demo_tree_facts(1) demo_room, of demo_file]
    by (auto simp: holds_init)
qed

text \<open>
  C3. The indexer end to end. Run on a readable tree with a database path that does not
  exist yet, \<open>main\<close> exits with 0 and leaves a sealed snapshot that holds exactly the
  entries of the tree, each key once, counts them, and is renamed unless \<open>--db\<close> was given.
\<close>

theorem indexer_main_correct:
  assumes "2 < length argv"
    and a: "a = parse_index_args (tl argv) \<lparr>ia_root = None, ia_db = ''./data/index.db'', ia_explicit = 0\<rparr>"
    and "ia_root a = Some root" "validate_directory (Some (ie_dir env root)) = 0"
    and "ie_open env (ia_db a) = Created f" "good_fd f" "o_append f" "bytes f = []"
    and "ie_realpath env root = Some path" "tree_ok path (ie_tree env path)"
    and "f_room f [] (tree_entries path (ie_tree env path))" "ie_fd_path env = Some q" "47 \<in> set q"
  shows "\<exists>g n. indexer_main argv env =
      Ret (0, Some g, if ia_explicit a = 0 then Some (q, snapshot_name FILEOPS_MAGIC_ID q n) else None) \<and>
    holds f_bkt f_body f_valid (bytes g) (insert_all f_key [] (tree_entries path (ie_tree env path))) \<and>
    distinct (map f_key (insert_all f_key [] (tree_entries path (ie_tree env path)))) \<and>
    get_header_field g STATE = STATE_SEALED \<and> get_header_field g ACTIVE_WRITERS = 0 \<and>
    get_header_field g MAGIC = FILEOPS_MAGIC_ID \<and>
    get_header_field g RECORD_COUNT = int (length (insert_all f_key [] (tree_entries path (ie_tree env path))))"
proof -
  let ?new = "tree_entries path (ie_tree env path)"
  define f' where "f' = f\<lparr>bytes := init_header (c_u64 0) (c_u64 (ie_now env))\<rparr>"
  note fresh = fresh_file [OF assms(6-8) disjI1 [OF refl] f'_def]
  have room: "f_room f' [] ?new"
    using assms(11) by (simp add: room_def f'_def)
  have rc: "get_header_field f' RECORD_COUNT = int (length [])"
    using fresh(5) by simp
  from build_dir_ok [OF fresh(2,3,4) assms(10) room rc, of "ie_junk env"] obtain g where
    g: "build_dir f' path (ie_tree env path) (ie_junk env) = Ret (Return 0, g)"
    "f_walking f' g (insert_all f_key [] ?new)"
    "get_header_field g RECORD_COUNT = int (length (insert_all f_key [] ?new))"
    by blast
  obtain h where h: "close_database g (ia_explicit a) (Some q) = Ret (0, h,
      if ia_explicit a = 0 then Some (q, snapshot_name 0 q (c_u32 (get_header_field f' SNAPSHOT_ID))) else None)"
    "holds f_bkt f_body f_valid (bytes h) (insert_all f_key [] ?new)" "get_header_field h STATE = STATE_SEALED"
    "get_header_field h ACTIVE_WRITERS = 0" "get_header_field h MAGIC = 0"
    "get_header_field h RECORD_COUNT = get_header_field g RECORD_COUNT"
    using close_filled [OF assms(6) disjI1 [OF refl] f'_def g(2) assms(13), of "ia_explicit a"] by blast
  have "indexer_main argv env = Ret (0, Some h,
      if ia_explicit a = 0 then Some (q, snapshot_name 0 q (c_u32 (get_header_field f' SNAPSHOT_ID))) else None)"
    using assms(1,3-5,9,12) fresh(1,6) g(1) h(1)
    by (simp add: indexer_main_def a [symmetric] Let_def)
  then show ?thesis
    using h(2-6) g(3) insert_all_distinct [of f_key "[]" ?new]
    by (intro exI [of _ h] exI [of _ "c_u32 (get_header_field f' SNAPSHOT_ID)"]) simp
qed

theorem indexer_main_correct_witness:
  "\<exists>g ren. indexer_main [''fileops_indexer'', ''--root'', ''r''] demo_env = Ret (0, Some g, ren) \<and>
    get_header_field g STATE = STATE_SEALED \<and> get_header_field g RECORD_COUNT = 2"
proof -
  have n: "length (insert_all f_key [] (tree_entries (bytes_of ''/r'') demo_tree)) = 2"
    using demo_keys by (simp add: demo_tree_facts(2) insert_all_simps insert_unique_def)
  have q: "47 \<in> set (bytes_of ''/w/data/index.db'')"
    by (simp add: bytes_of_def)
  show ?thesis
    using indexer_main_correct [of "[''fileops_indexer'', ''--root'', ''r'']"
        "\<lparr>ia_root = Some ''r'', ia_db = ''./data/index.db'', ia_explicit = 0\<rparr>" "''r''" demo_env "demo_fd []" "bytes_of ''/r''"
        "bytes_of ''/w/data/index.db''"] demo_tree_facts(1) demo_room [of "[]"] demo_good [of "[]"] n q
    by (auto simp: demo_env_def validate_directory_def)
qed

text \<open>
  C40. A file that vanishes between \<open>readdir\<close> and \<open>lstat\<close>, behind at least one file of the
  same directory: \<open>build_fileops_entry\<close> leaves the entry alone and returns 1, the indexer
  only tests for -1, and the append copies the path of the last file, which the loop has
  freed. Up to there the walk goes well, so the run as a whole is undefined.
\<close>

theorem vanished_file:
  assumes "good_fd f" "o_append f" "holds f_bkt f_body f_valid (bytes f) es"
    and "list_ok path pre" "list_entries path pre \<noteq> []" "f_room f es (list_entries path pre)"
    and "d_name info \<noteq> bytes_of ''.''" "d_name info \<noteq> bytes_of ''..''"
    and "length (path @ [47] @ d_name info) \<le> PATH_MAX" "sys_lstat (d_sys info) = None"
  shows "build_dir f path (Listing (pre @ Dirent info sub # rest)) junk = UB"
proof -
  have w: "f_walking f f es" "counts f 0 (get_header_field f RECORD_COUNT)"
    using assms(1-3) by (simp_all add: walking_def counts_def)
  obtain g e' k where g: "build_entries f path (pre @ Dirent info sub # rest) (free_path junk) 0 =
      build_entries g path (Dirent info sub # rest) e' k" "f_walking f g (insert_all f_key es (list_entries path pre))" "spent e'"
    using walk_prefix [OF w(1) assms(4,6) w(2)] assms(5) by blast
  have "append_fileops_entry (\<lambda>_. d_content info) g e' = UB"
    using g(2,3) by (intro append_spent) (simp_all add: walking_def good_fd_def)
  then have "index_one g (path @ [47] @ d_name info) info e' = UB"
    using assms(10) by (simp add: index_one_def build_fileops_entry_def)
  then show ?thesis
    using assms(7-9) by (simp add: g(1))
qed

theorem vanished_file_witness:
  "build_dir (demo_fd (init_header 0 7)) (bytes_of ''/r'')
     (Listing [Dirent (demo_info ''d'' S_FIFO) Unreadable, Dirent ((demo_info ''x'' S_REG)
       \<lparr>d_sys := \<lparr>sys_lstat = None, sys_readlink = None, sys_malloc = True, sys_realloc = True\<rparr>\<rparr>) Unreadable]) demo_file = UB"
proof -
  have ok: "info_ok (bytes_of ''/r/d'') (demo_info ''d'' S_FIFO)"
    by (simp add: info_ok_def demo_info_def bytes_of_def)
  have "list_ok (bytes_of ''/r'') [Dirent (demo_info ''d'' S_FIFO) Unreadable]"
    "list_entries (bytes_of ''/r'') [Dirent (demo_info ''d'' S_FIFO) Unreadable] =
      [info_entry (bytes_of ''/r/d'') (demo_info ''d'' S_FIFO)]"
    using ok by (simp_all add: Let_def demo_info_def bytes_of_def)
  moreover have "f_room (demo_fd (init_header 0 7)) [] [info_entry (bytes_of ''/r/d'') (demo_info ''d'' S_FIFO)]"
    using info_entry_size [OF ok] by (simp add: room_def recs_size_def)
  ultimately show ?thesis
    using vanished_file [of "demo_fd (init_header 0 7)" "[]" "bytes_of ''/r''" "[Dirent (demo_info ''d'' S_FIFO) Unreadable]"
        "(demo_info ''x'' S_REG)\<lparr>d_sys := \<lparr>sys_lstat = None, sys_readlink = None, sys_malloc = True, sys_realloc = True\<rparr>\<rparr>"
        Unreadable "[]" demo_file] demo_good [of "init_header 0 7"]
    by (simp add: holds_init demo_info_def bytes_of_def)
qed

end
