(* ===== verification/Proc_Snapshot.thy ===== *)
theory Proc_Snapshot
  imports Db_Count Proc
begin

text \<open>
  The process snapshot, \<open>src/main_proc_snapshot.c\<close>: collecting the pids from \<open>/proc\<close>,
  the loop that builds and appends an entry per process, and \<open>main\<close>. What the system
  answers is an argument: the names in \<open>/proc\<close> and the files of each process.
\<close>

section \<open>The code\<close>

definition MAX_PID_COUNT :: nat where
  "MAX_PID_COUNT = 4096"

text \<open>
  \<open>strtol\<close> in base 10: the value, cut to \<open>long\<close>, and the rest at \<open>end\<close>. Without digits
  the rest is the whole string and the value 0.
\<close>

definition strtol :: "byte list \<Rightarrow> int \<times> byte list" where
  "strtol s =
     (case scan_int s of None \<Rightarrow> (0, s)
      | Some ((neg, n), rest) \<Rightarrow> (if neg then max (- int n) (- (2 ^ 63)) else min (int n) (2 ^ 63 - 1), rest))"

text \<open>
  The loop of \<open>build_buffer\<close>: the value goes through a \<open>uint32_t\<close> into an \<open>int\<close>; every
  name that is a number to its end is taken, until the buffer is full.
\<close>

fun fill_pids :: "byte list list \<Rightarrow> int list \<Rightarrow> int list" where
  "fill_pids [] pids = pids"
| "fill_pids (d_name # ents) pids =
     (if MAX_PID_COUNT \<le> length pids then pids else
      let (pid, endp) = strtol d_name in
      if endp = [] then fill_pids ents (pids @ [sint (word_of_int pid :: u32)]) else fill_pids ents pids)"

definition build_buffer :: "byte list list option \<Rightarrow> int \<times> int list" where
  "build_buffer proc_dir =
     (case proc_dir of None \<Rightarrow> (-1, []) | Some ents \<Rightarrow>
      let pids = fill_pids ents [] in (int (length pids), pids))"

text \<open>
  The loop of \<open>build_database\<close>: \<open>None\<close> as the first component means that it ran to its
  end. \<open>proc_entry\<close> is the struct on the stack, reused by every round.
\<close>

fun snapshot_loop ::
  "(int \<Rightarrow> proc_sys) \<Rightarrow> fdesc \<Rightarrow> int list \<Rightarrow> db_proc_entry \<Rightarrow> nat \<Rightarrow> (int option \<times> fdesc \<times> nat) outcome" where
  "snapshot_loop sys f [] proc_entry appended_records = Ret (None, f, appended_records)"
| "snapshot_loop sys f (pid # pids) proc_entry appended_records =
     c_bind (build_proc_entry (sys pid) pid proc_entry) (\<lambda>(ret_build_proc, proc_entry).
     if ret_build_proc = -1 then Ret (Some 2, f, appended_records)
     else if ret_build_proc = 0 then
       c_bind (append_proc_entry f proc_entry) (\<lambda>(ret_append, f).
       if ret_append = -1 then Ret (Some 2, f, appended_records)
       else snapshot_loop sys f pids proc_entry (if ret_append = 0 then appended_records + 1 else appended_records))
     else snapshot_loop sys f pids proc_entry appended_records)"

definition build_database :: "(int \<Rightarrow> proc_sys) \<Rightarrow> fdesc \<Rightarrow> int list \<Rightarrow> db_proc_entry \<Rightarrow> (int \<times> fdesc) outcome" where
  "build_database sys f pids proc_entry =
     c_bind (snapshot_loop sys f pids proc_entry 0) (\<lambda>(early, f, appended_records).
     case early of Some r \<Rightarrow> Ret (r, f) | None \<Rightarrow> update_record_count f appended_records)"

fun parse_snapshot_args :: "string list \<Rightarrow> string \<times> int \<Rightarrow> string \<times> int" where
  "parse_snapshot_args (opt # v # rest) a =
     (if opt = ''--db'' then parse_snapshot_args rest (v, 1) else parse_snapshot_args (v # rest) a)"
| "parse_snapshot_args _ a = a"

record snapshot_env =
  se_open :: "string \<Rightarrow> open_result"
  se_now :: int
  se_proc :: "byte list list option"
  se_sys :: "int \<Rightarrow> proc_sys"
  se_fd_path :: "byte list option"
  se_junk :: db_proc_entry

text \<open>
  \<open>main\<close>: the exit code, the database file when it was opened, and the \<open>rename\<close> the
  close performs. The result of \<open>build_buffer\<close> is not tested: when \<open>/proc\<close> cannot be
  read, its count of -1 makes the loop do nothing.
\<close>

definition proc_main ::
  "string list \<Rightarrow> snapshot_env \<Rightarrow> (int \<times> fdesc option \<times> (byte list \<times> byte list) option) outcome" where
  "proc_main argv env =
     (let (dest, use_explicit_path) = parse_snapshot_args (tl argv) (''./data/proc.db'', 0) in
      c_bind (open_database (Some (se_open env dest)) PROC_MAGIC_ID (se_now env)) (\<lambda>(fd_db, db).
      if fd_db = -1 then Ret (1, db, None) else
      case db of None \<Rightarrow> UB | Some f \<Rightarrow>
      let (pids_count, pids_buffer) = build_buffer (se_proc env) in
      c_bind (build_database (se_sys env) f (take (nat pids_count) pids_buffer) (se_junk env)) (\<lambda>(r, f).
      c_bind (close_database f use_explicit_path (se_fd_path env)) (\<lambda>(_, f, ren).
      Ret (if r \<noteq> 0 then 1 else 0, Some f, ren)))))"

section \<open>The expected records\<close>

text \<open>A process that is gone when one of its files is opened.\<close>

definition vanished :: "proc_sys \<Rightarrow> bool" where
  "vanished sys \<longleftrightarrow>
     (case pr_comm sys of Gone \<Rightarrow> True | Denied \<Rightarrow> False | File comm err \<Rightarrow>
        comm \<noteq> [] \<and> \<not> err \<and>
        (case pr_cmdline sys of Gone \<Rightarrow> True | Denied \<Rightarrow> False | File args err \<Rightarrow> \<not> err \<and> pr_stat sys = Gone))"

text \<open>\<open>procs\<close> gives the live processes; all others are gone.\<close>

definition procs_ok :: "(int \<Rightarrow> proc_sys) \<Rightarrow> (int \<Rightarrow> live option) \<Rightarrow> int list \<Rightarrow> bool" where
  "procs_ok sys procs pids \<longleftrightarrow>
     list_all (\<lambda>pid. \<bar>pid\<bar> < 2 ^ 32 \<and>
       (case procs pid of None \<Rightarrow> vanished (sys pid) | Some l \<Rightarrow> live_ok (sys pid) l)) pids"

definition proc_entries :: "(int \<Rightarrow> live option) \<Rightarrow> int list \<Rightarrow> db_proc_entry list" where
  "proc_entries procs pids = List.map_filter (\<lambda>pid. map_option (live_entry pid) (procs pid)) pids"

section \<open>The pids\<close>

lemma scan_int_digits: "scan_int (dec_digits n) = Some ((False, n), [])"
proof -
  note p = dec_digits_props [of n]
  obtain d ds where ds: "dec_digits n = d # ds"
    using p by (cases "dec_digits n") auto
  have tw: "takeWhile is_digit ds = ds" "dropWhile is_digit ds = []" "is_digit d"
    using p ds by (simp_all add: list_all_iff)
  have "\<not> is_space d" "d \<noteq> 45" "d \<noteq> 43" "digits_value (dec_digits n) = n"
    using p ds by simp_all
  then show ?thesis
    unfolding ds by (simp add: scan_int_def tw)
qed

lemma strtol_digits: "n < 2 ^ 31 \<Longrightarrow> strtol (dec_digits n) = (int n, [])"
  by (simp add: strtol_def scan_int_digits)

lemma strtol_other:
  assumes "s \<noteq> []" "\<not> is_digit (last s)"
  shows "snd (strtol s) \<noteq> []"
proof (cases "scan_int s")
  case (Some r)
  obtain neg n rest where r: "r = ((neg, n), rest)"
    by (cases r) auto
  obtain t where t: "rest = dropWhile is_digit t" "takeWhile is_digit t \<noteq> []" "\<exists>u. s = u @ t"
  proof -
    let ?s = "dropWhile is_space s"
    have u: "\<exists>u. s = u @ ?s" "\<exists>u. s = u @ tl ?s"
      by (metis takeWhile_dropWhile_id) (metis takeWhile_dropWhile_id append.assoc append_Cons append_Nil list.collapse tl_Nil append_Nil2)
    obtain v where v: "v = ?s \<or> v = tl ?s" "rest = dropWhile is_digit v" "takeWhile is_digit v \<noteq> []"
      using Some unfolding scan_int_def Let_def r
      by (cases ?s) (auto split: if_splits simp del: dropWhile.simps takeWhile.simps takeWhile_eq_Nil_iff)
    with u that [of v] show ?thesis
      by blast
  qed
  then have "t \<noteq> []"
    by auto
  moreover obtain u where "s = u @ t"
    using t(3) by blast
  ultimately have "t \<noteq> []" "last t = last s"
    by simp_all
  then have "dropWhile is_digit t \<noteq> []"
    using assms(2) by (metis dropWhile_eq_Nil_conv last_in_set)
  then show ?thesis
    using Some r t(1) by (simp add: strtol_def)
qed (simp add: strtol_def assms(1))

text \<open>The pids a listing of \<open>/proc\<close> stands for.\<close>

datatype proc_name = Pid nat | Other "byte list"

definition name_bytes :: "proc_name \<Rightarrow> byte list" where
  "name_bytes p = (case p of Pid n \<Rightarrow> dec_digits n | Other s \<Rightarrow> s)"

definition name_ok :: "proc_name \<Rightarrow> bool" where
  "name_ok p \<longleftrightarrow> (case p of Pid n \<Rightarrow> n < 2 ^ 31 | Other s \<Rightarrow> s \<noteq> [] \<and> \<not> is_digit (last s))"

definition name_pids :: "proc_name list \<Rightarrow> int list" where
  "name_pids = List.map_filter (\<lambda>p. case p of Pid n \<Rightarrow> Some (int n) | Other _ \<Rightarrow> None)"

lemma name_pids_simps:
  "name_pids [] = []" "name_pids (Pid n # ps) = int n # name_pids ps" "name_pids (Other s # ps) = name_pids ps"
  by (simp_all add: name_pids_def map_filter_simps)

lemma sint_pid: "n < 2 ^ 31 \<Longrightarrow> sint (word_of_int (int n) :: u32) = int n"
  by (simp add: signed_of_nat signed_take_bit_int_eq_self)

lemma fill_pids_ok:
  "list_all name_ok ps \<Longrightarrow> length pids \<le> MAX_PID_COUNT \<Longrightarrow>
   fill_pids (map name_bytes ps) pids = take MAX_PID_COUNT (pids @ name_pids ps)"
proof (induction ps arbitrary: pids)
  case (Cons p ps)
  show ?case
  proof (cases "length pids = MAX_PID_COUNT")
    case False
    then have l: "length pids < MAX_PID_COUNT"
      using Cons.prems(2) by simp
    show ?thesis
    proof (cases p)
      case (Pid n)
      then have n: "n < 2 ^ 31"
        using Cons.prems(1) by (simp add: name_ok_def)
      show ?thesis
        using Cons.IH [of "pids @ [int n]"] Cons.prems(1) l Pid n sint_pid [OF n]
        by (simp add: name_bytes_def strtol_digits name_pids_simps)
    next
      case (Other s)
      then have "snd (strtol s) \<noteq> []"
        using Cons.prems(1) by (intro strtol_other) (simp_all add: name_ok_def)
      then show ?thesis
        using Cons.IH [of pids] Cons.prems l Other
        by (auto simp: name_bytes_def name_pids_simps split: prod.split)
    qed
  qed (simp add: Cons.prems)
qed (simp add: name_pids_simps)

section \<open>The loop\<close>

abbreviation p_walking :: "fdesc \<Rightarrow> fdesc \<Rightarrow> db_proc_entry list \<Rightarrow> bool" where
  "p_walking \<equiv> walking p_bkt p_body p_valid"

abbreviation p_room :: "fdesc \<Rightarrow> db_proc_entry list \<Rightarrow> db_proc_entry list \<Rightarrow> bool" where
  "p_room \<equiv> room p_body"

lemma build_vanished: "vanished sys \<Longrightarrow> \<exists>e'. build_proc_entry sys pid e = Ret (1, e')"
proof -
  assume v: "vanished sys"
  have rd: "fst (read_chars n bs False acc) = [] \<longleftrightarrow> acc = [] \<and> (bs = [] \<or> n = 0)" "snd (read_chars n bs False acc) \<noteq> -1"
    for n acc and bs :: "byte list"
    by (induction n bs False acc rule: read_chars.induct) auto
  show ?thesis
    using v rd
    by (auto simp: vanished_def build_proc_entry_def terminate_comm_def Let_def split: proc_file.splits prod.splits)
       (metis fst_conv snd_conv zero_neq_numeral)+
qed

lemma proc_entries_Cons:
  "proc_entries procs (pid # pids) = proc_entries procs [pid] @ proc_entries procs pids"
  "proc_entries procs [pid] = (case procs pid of None \<Rightarrow> [] | Some l \<Rightarrow> [live_entry pid l])"
  by (simp_all add: proc_entries_def map_filter_simps split: option.splits)

lemma append_step:
  assumes w: "p_walking f0 f es" and v: "p_valid e" and r: "p_room f es [e]"
  shows "\<exists>g. append_proc_entry f e = Ret (fst (insert_unique p_pid e es), g) \<and>
    p_walking f0 g (insert_all p_pid es [e]) \<and> get_header_field g RECORD_COUNT = get_header_field f RECORD_COUNT"
proof -
  have f: "0 \<le> fdno f" "o_append f" "setlkw_ok f" "holds p_bkt p_body p_valid (bytes f) es"
    using w by (simp_all add: walking_def good_fd_def)
  have "length (bytes f) + length (p_body e) + 4 \<le> file_limit f"
    "length (bytes f) + length (p_body e) + 4 < EMPTY_BUCKET"
    using r walking_fd [OF w] by (simp_all add: room_def recs_size_def)
  from append_proc_ok [OF f v this] obtain g where
    g: "append_proc_entry f e = Ret (fst (insert_unique p_pid e es), g)"
    "holds p_bkt p_body p_valid (bytes g) (snd (insert_unique p_pid e es))"
    "g = f\<lparr>bytes := bytes g, fpos := fpos g\<rparr>" "take 281 (bytes g) = take 281 (bytes f)"
    by blast
  show ?thesis
    using g(1) walking_append [OF w g(2-4)] by (auto simp: insert_all_simps)
qed

lemma snapshot_loop_ok:
  assumes "p_walking f0 f es" "procs_ok sys procs pids" "p_room f es (proc_entries procs pids)" "counts f n c"
  shows "\<exists>g k. snapshot_loop sys f pids e n = Ret (None, g, k) \<and>
    p_walking f0 g (insert_all p_pid es (proc_entries procs pids)) \<and>
    counts g k (c + int (length (insert_all p_pid es (proc_entries procs pids)) - length es))"
  using assms
proof (induction pids arbitrary: f es e n c)
  case Nil
  then show ?case
    by (simp add: proc_entries_def map_filter_simps insert_all_simps)
next
  case (Cons pid pids)
  note all = proc_entries_Cons(1) [of procs pid pids]
  have ok: "procs_ok sys procs pids" "\<bar>pid\<bar> < 2 ^ 32"
    "case procs pid of None \<Rightarrow> vanished (sys pid) | Some l \<Rightarrow> live_ok (sys pid) l"
    using Cons.prems(2) by (simp_all add: procs_ok_def)
  show ?case
  proof (cases "procs pid")
    case None
    then obtain e' where "build_proc_entry (sys pid) pid e = Ret (1, e')"
      using ok(3) build_vanished by fastforce
    then show ?thesis
      using Cons.IH [OF Cons.prems(1) ok(1) _ Cons.prems(4), of e'] Cons.prems(3) None all
      by (simp add: proc_entries_Cons(2))
  next
    case (Some l)
    let ?en = "live_entry pid l" and ?r = "fst (insert_unique p_pid (live_entry pid l) es)"
    let ?es1 = "insert_all p_pid es [?en]" and ?k = "if ?r = 0 then n + 1 else n"
    have b: "build_proc_entry (sys pid) pid e = Ret (0, ?en)" "p_valid ?en"
      using build_live [OF _ ok(2), of "sys pid" l] ok(3) Some by simp_all
    have r: "p_room f es ([?en] @ proc_entries procs pids)"
      using Cons.prems(3) all Some by (simp add: proc_entries_Cons(2))
    from append_step [OF Cons.prems(1) b(2) room_split(1) [OF r refl]] obtain g where
      g: "append_proc_entry f ?en = Ret (?r, g)" "p_walking f0 g ?es1"
      "get_header_field g RECORD_COUNT = get_header_field f RECORD_COUNT"
      by blast
    have lim: "file_limit g = file_limit f"
      using g(2) Cons.prems(1) by (simp add: walking_def)
    have "length ?es1 - length es = ?k - n" "n \<le> ?k"
      by (simp_all add: insert_all_simps length_insert_unique)
    then have "counts g ?k (c + int (length ?es1 - length es))"
      using counts_add [OF Cons.prems(4), of "?k - n"] g(3) by (simp add: counts_def)
    note fin = Cons.IH [OF g(2) ok(1) room_split(2) [OF r lim] this, of ?en]
    have "snapshot_loop sys f (pid # pids) e n = snapshot_loop sys g pids ?en ?k"
      using b(1) g(1) by (simp add: insert_unique_def)
    then show ?thesis
      using fin insert_all_diff(2) [where key = p_pid and es = es and a = "[?en]" and b = "proc_entries procs pids"] Some all
      by (simp add: proc_entries_Cons(2) insert_all_simps add.assoc add.commute)
  qed
qed

lemma build_database_ok:
  assumes "good_fd f" "o_append f" "holds p_bkt p_body p_valid (bytes f) es"
    and ok: "procs_ok sys procs pids" and r: "p_room f es (proc_entries procs pids)"
    and rc: "get_header_field f RECORD_COUNT = int (length es)"
  shows "\<exists>g. build_database sys f pids e = Ret (0, g) \<and>
    p_walking f g (insert_all p_pid es (proc_entries procs pids)) \<and>
    get_header_field g RECORD_COUNT = int (length (insert_all p_pid es (proc_entries procs pids)))"
proof -
  have w: "p_walking f f es" "counts f 0 (int (length es))"
    using assms(1-3) rc by (simp_all add: walking_def counts_def)
  from snapshot_loop_ok [OF w(1) ok r w(2), of e] obtain g k where
    g: "snapshot_loop sys f pids e 0 = Ret (None, g, k)" "p_walking f g (insert_all p_pid es (proc_entries procs pids))"
    "counts g k (int (length es) + int (length (insert_all p_pid es (proc_entries procs pids)) - length es))"
    by blast
  from update_record_count_ok [OF g(2), of k] obtain h where
    h: "update_record_count g k = Ret (0, h)" "p_walking f h (insert_all p_pid es (proc_entries procs pids))"
    "get_header_field h RECORD_COUNT = (get_header_field g RECORD_COUNT + int k) mod 2 ^ 32"
    by blast
  have "counts h 0 (int (length es) + int (length (insert_all p_pid es (proc_entries procs pids)) - length es))"
    using g(3) h(3) by (simp add: counts_def)
  then show ?thesis
    using g(1) h(1,2) final_count [OF h(2) r] by (simp add: build_database_def)
qed

lemma build_buffer_ok:
  assumes "list_all name_ok ps"
  shows "build_buffer (Some (map name_bytes ps)) =
    (int (length (take MAX_PID_COUNT (name_pids ps))), take MAX_PID_COUNT (name_pids ps))"
  using fill_pids_ok [OF assms, of "[]"] by (simp add: build_buffer_def)

definition demo_procs :: "int \<Rightarrow> live option" where
  "demo_procs pid = (if pid = 7 then Some demo_live else None)"

definition demo_gone :: proc_sys where
  "demo_gone = demo_sys\<lparr>pr_cmdline := Gone\<rparr>"

definition demo_names :: "proc_name list" where
  "demo_names = [Other (bytes_of ''.''), Pid 7, Other (bytes_of ''7x''), Pid 8]"

definition demo_snapshot_env :: snapshot_env where
  "demo_snapshot_env =
     \<lparr>se_open = (\<lambda>_. Created (demo_fd [])), se_now = 7, se_proc = Some (map name_bytes demo_names),
      se_sys = (\<lambda>pid. if pid = 7 then demo_sys else demo_gone), se_fd_path = Some (bytes_of ''/w/data/proc.db''),
      se_junk = demo_proc\<rparr>"

lemma demo_names_ok:
  "list_all name_ok demo_names" "take MAX_PID_COUNT (name_pids demo_names) = [7, 8]"
  by (simp_all add: demo_names_def name_ok_def name_pids_simps bytes_of_def is_digit_def MAX_PID_COUNT_def)

lemma demo_procs_ok:
  "procs_ok (\<lambda>pid. if pid = 7 then demo_sys else demo_gone) demo_procs [7, 8]"
  "proc_entries demo_procs [7, 8] = [live_entry 7 demo_live]"
proof -
  have "vanished demo_gone"
    by (simp add: vanished_def demo_gone_def demo_sys_def)
  then show "procs_ok (\<lambda>pid. if pid = 7 then demo_sys else demo_gone) demo_procs [7, 8]"
    using demo_live_ok by (simp add: procs_ok_def demo_procs_def)
  show "proc_entries demo_procs [7, 8] = [live_entry 7 demo_live]"
    by (simp add: proc_entries_def demo_procs_def map_filter_simps)
qed

lemma demo_proc_room: "p_room (demo_fd []) [] [live_entry 7 demo_live]"
proof -
  note v = p_valid_sizes [OF build_live(2) [OF demo_live_ok, of 7]]
  have "length (p_body (live_entry 7 demo_live)) \<le> 1621"
    using v(1-4) by simp
  then show ?thesis
    by (simp add: room_def recs_size_def)
qed

section \<open>Properties\<close>

text \<open>
  C38. The scan of \<open>/proc\<close>. From a listing of names that are decimal numbers or end in
  another character, \<open>build_buffer\<close> takes exactly the numbers, in order, up to the 4096 its
  buffer has room for.
\<close>

theorem build_buffer_correct:
  assumes "list_all name_ok ps"
  shows "build_buffer (Some (map name_bytes ps)) =
    (int (length (take MAX_PID_COUNT (name_pids ps))), take MAX_PID_COUNT (name_pids ps))"
  by (rule build_buffer_ok [OF assms])

theorem build_buffer_correct_witness:
  "build_buffer (Some (map name_bytes demo_names)) = (2, [7, 8])"
  using build_buffer_correct [OF demo_names_ok(1)] by (simp add: demo_names_ok(2))

text \<open>
  C11. The process snapshot end to end. Run with a database path that does not exist yet,
  \<open>main\<close> exits with 0 and leaves a sealed snapshot that holds one entry for each live
  process among the pids it collected, in order, counts them, and is renamed unless
  \<open>--db\<close> was given; processes that vanish on the way are left out.
\<close>

theorem proc_main_correct:
  assumes a: "parse_snapshot_args (tl argv) (''./data/proc.db'', 0) = (dest, x)"
    and "se_open env dest = Created f" "good_fd f" "o_append f" "bytes f = []"
    and d: "se_proc env = Some (map name_bytes ps)" "list_all name_ok ps" "pids = take MAX_PID_COUNT (name_pids ps)"
    and "procs_ok (se_sys env) procs pids" "p_room f [] (proc_entries procs pids)"
    and "se_fd_path env = Some q" "47 \<in> set q"
  shows "\<exists>g n. proc_main argv env = Ret (0, Some g, if x = 0 then Some (q, snapshot_name PROC_MAGIC_ID q n) else None) \<and>
    holds p_bkt p_body p_valid (bytes g) (insert_all p_pid [] (proc_entries procs pids)) \<and>
    get_header_field g STATE = STATE_SEALED \<and> get_header_field g ACTIVE_WRITERS = 0 \<and>
    get_header_field g MAGIC = PROC_MAGIC_ID \<and>
    get_header_field g RECORD_COUNT = int (length (insert_all p_pid [] (proc_entries procs pids)))"
proof -
  let ?new = "proc_entries procs pids"
  define f' where "f' = f\<lparr>bytes := init_header (c_u64 1) (c_u64 (se_now env))\<rparr>"
  note fresh = fresh_file [OF assms(3-5) disjI2 [OF refl] f'_def]
  have b: "build_buffer (se_proc env) = (int (length pids), pids)"
    using build_buffer_ok [OF d(2)] d(1,3) by simp
  have room: "p_room f' [] ?new"
    using assms(10) by (simp add: room_def f'_def)
  have rc: "get_header_field f' RECORD_COUNT = int (length [])"
    using fresh(5) by simp
  from build_database_ok [OF fresh(2,3,4) assms(9) room rc, of "se_junk env"] obtain g where
    g: "build_database (se_sys env) f' pids (se_junk env) = Ret (0, g)" "p_walking f' g (insert_all p_pid [] ?new)"
    "get_header_field g RECORD_COUNT = int (length (insert_all p_pid [] ?new))"
    by blast
  obtain h where h: "close_database g x (Some q) = Ret (0, h,
      if x = 0 then Some (q, snapshot_name 1 q (c_u32 (get_header_field f' SNAPSHOT_ID))) else None)"
    "holds p_bkt p_body p_valid (bytes h) (insert_all p_pid [] ?new)" "get_header_field h STATE = STATE_SEALED"
    "get_header_field h ACTIVE_WRITERS = 0" "get_header_field h MAGIC = 1"
    "get_header_field h RECORD_COUNT = get_header_field g RECORD_COUNT"
    using close_filled [OF assms(3) disjI2 [OF refl] f'_def g(2) assms(12), of x] by blast
  have "proc_main argv env = Ret (0, Some h,
      if x = 0 then Some (q, snapshot_name 1 q (c_u32 (get_header_field f' SNAPSHOT_ID))) else None)"
    using assms(2,11) fresh(1,6) a b g(1) h(1) by (simp add: proc_main_def)
  then show ?thesis
    using h(2-6) g(3)
    by (intro exI [of _ h] exI [of _ "c_u32 (get_header_field f' SNAPSHOT_ID)"]) simp
qed

theorem proc_main_correct_witness:
  "\<exists>g ren. proc_main [''proc_snapshot''] demo_snapshot_env = Ret (0, Some g, ren) \<and>
    holds p_bkt p_body p_valid (bytes g) [live_entry 7 demo_live] \<and> get_header_field g RECORD_COUNT = 1"
proof -
  have q: "47 \<in> set (bytes_of ''/w/data/proc.db'')"
    by (simp add: bytes_of_def)
  show ?thesis
    using proc_main_correct [of "[''proc_snapshot'']" "''./data/proc.db''" 0 demo_snapshot_env "demo_fd []" demo_names
        "[7, 8]" demo_procs "bytes_of ''/w/data/proc.db''"] demo_procs_ok demo_names_ok demo_proc_room demo_good [of "[]"] q
    by (auto simp: demo_snapshot_env_def insert_all_simps insert_unique_def)
qed

text \<open>
  C39. When \<open>/proc\<close> cannot be read the program does not notice: it exits with 0, and what
  it leaves is a sealed snapshot with no records.
\<close>

theorem proc_unreadable:
  assumes "parse_snapshot_args (tl argv) (''./data/proc.db'', 0) = (dest, x)"
    and "se_open env dest = Created f" "good_fd f" "o_append f" "bytes f = []"
    and "se_proc env = None" "se_fd_path env = Some q" "47 \<in> set q"
  shows "\<exists>g ren. proc_main argv env = Ret (0, Some g, ren) \<and> holds p_bkt p_body p_valid (bytes g) [] \<and>
    get_header_field g STATE = STATE_SEALED"
proof -
  define f' where "f' = f\<lparr>bytes := init_header (c_u64 1) (c_u64 (se_now env))\<rparr>"
  note fresh = fresh_file [OF assms(3-5) disjI2 [OF refl] f'_def]
  have "p_walking f' f' []"
    using fresh(2-4) by (simp add: walking_def)
  from update_record_count_ok [OF this, of 0] obtain g where
    g: "update_record_count f' 0 = Ret (0, g)" "p_walking f' g []"
    by blast
  obtain h ren where h: "close_database g x (Some q) = Ret (0, h, ren)"
    "holds p_bkt p_body p_valid (bytes h) []" "get_header_field h STATE = STATE_SEALED"
    using close_filled [OF assms(3) disjI2 [OF refl] f'_def g(2) assms(8), of x] by blast
  have "proc_main argv env = Ret (0, Some h, ren)"
    using assms(1,2,6,7) fresh(1,6) g(1) h(1) by (simp add: proc_main_def build_buffer_def build_database_def)
  with h(2,3) show ?thesis
    by blast
qed

theorem proc_unreadable_witness:
  "\<exists>g ren. proc_main [''proc_snapshot''] (demo_snapshot_env\<lparr>se_proc := None\<rparr>) = Ret (0, Some g, ren) \<and>
    holds p_bkt p_body p_valid (bytes g) []"
proof -
  have q: "47 \<in> set (bytes_of ''/w/data/proc.db'')"
    by (simp add: bytes_of_def)
  show ?thesis
    using proc_unreadable [of "[''proc_snapshot'']" "''./data/proc.db''" 0 "demo_snapshot_env\<lparr>se_proc := None\<rparr>" "demo_fd []"
        "bytes_of ''/w/data/proc.db''"] demo_good [of "[]"] q
    by (auto simp: demo_snapshot_env_def)
qed

end
