(* ===== verification/Sha256.thy ===== *)
theory Sha256
  imports Prelude
begin

unbundle bit_operations_syntax

text \<open>
  SHA-256 as \<open>src/sha256.c\<close> computes it: a context that is filled byte by byte, the
  transformation of a full block, the padding. The reference is the hash function of FIPS
  180-4, with the message schedule as a recursive function, rotations as word operations and
  the padding of a whole message; the lemmas show that any sequence of \<open>sha256_update\<close>
  calls followed by \<open>sha256_final\<close> computes it.
\<close>

section \<open>The code\<close>

record sha256_ctx =
  sx_data :: "byte list"
  sx_datalen :: u32
  sx_bitlen :: u64
  sx_state :: "u32 list"

definition ROTRIGHT :: "u32 \<Rightarrow> nat \<Rightarrow> u32" where
  "ROTRIGHT a b = drop_bit b a OR push_bit (32 - b) a"

definition CH :: "u32 \<Rightarrow> u32 \<Rightarrow> u32 \<Rightarrow> u32" where
  "CH x y z = (x AND y) XOR (NOT x AND z)"

definition MAJ :: "u32 \<Rightarrow> u32 \<Rightarrow> u32 \<Rightarrow> u32" where
  "MAJ x y z = (x AND y) XOR (x AND z) XOR (y AND z)"

definition EP0 :: "u32 \<Rightarrow> u32" where
  "EP0 x = ROTRIGHT x 2 XOR ROTRIGHT x 13 XOR ROTRIGHT x 22"

definition EP1 :: "u32 \<Rightarrow> u32" where
  "EP1 x = ROTRIGHT x 6 XOR ROTRIGHT x 11 XOR ROTRIGHT x 25"

definition SIG0 :: "u32 \<Rightarrow> u32" where
  "SIG0 x = ROTRIGHT x 7 XOR ROTRIGHT x 18 XOR drop_bit 3 x"

definition SIG1 :: "u32 \<Rightarrow> u32" where
  "SIG1 x = ROTRIGHT x 17 XOR ROTRIGHT x 19 XOR drop_bit 10 x"

definition sha_k :: "u32 list" where
  "sha_k =
     [0x428a2f98, 0x71374491, 0xb5c0fbcf, 0xe9b5dba5, 0x3956c25b, 0x59f111f1, 0x923f82a4, 0xab1c5ed5] @
     [0xd807aa98, 0x12835b01, 0x243185be, 0x550c7dc3, 0x72be5d74, 0x80deb1fe, 0x9bdc06a7, 0xc19bf174] @
     [0xe49b69c1, 0xefbe4786, 0x0fc19dc6, 0x240ca1cc, 0x2de92c6f, 0x4a7484aa, 0x5cb0a9dc, 0x76f988da] @
     [0x983e5152, 0xa831c66d, 0xb00327c8, 0xbf597fc7, 0xc6e00bf3, 0xd5a79147, 0x06ca6351, 0x14292967] @
     [0x27b70a85, 0x2e1b2138, 0x4d2c6dfc, 0x53380d13, 0x650a7354, 0x766a0abb, 0x81c2c92e, 0x92722c85] @
     [0xa2bfe8a1, 0xa81a664b, 0xc24b8b70, 0xc76c51a3, 0xd192e819, 0xd6990624, 0xf40e3585, 0x106aa070] @
     [0x19a4c116, 0x1e376c08, 0x2748774c, 0x34b0bcb5, 0x391c0cb3, 0x4ed8aa4a, 0x5b9cca4f, 0x682e6ff3] @
     [0x748f82ee, 0x78a5636f, 0x84c87814, 0x8cc70208, 0x90befffa, 0xa4506ceb, 0xbef9a3f7, 0xc67178f2]"

text \<open>The eight working variables, and the body of the main loop.\<close>

type_synonym regs = "u32 \<times> u32 \<times> u32 \<times> u32 \<times> u32 \<times> u32 \<times> u32 \<times> u32"

definition sha_round :: "u32 list \<Rightarrow> regs \<Rightarrow> nat \<Rightarrow> regs" where
  "sha_round m r i =
     (let (a, b, c, d, e, f, g, h) = r;
          t1 = h + EP1 e + CH e f g + sha_k ! i + m ! i;
          t2 = EP0 a + MAJ a b c
      in (t1 + t2, a, b, c, d + t1, e, f, g))"

definition sha_words :: "byte list \<Rightarrow> u32 list" where
  "sha_words data =
     map (\<lambda>i. push_bit 24 (ucast (data ! (4 * i))) OR push_bit 16 (ucast (data ! (4 * i + 1))) OR
       push_bit 8 (ucast (data ! (4 * i + 2))) OR ucast (data ! (4 * i + 3))) [0..<16]"

definition sha_next :: "u32 list \<Rightarrow> nat \<Rightarrow> u32" where
  "sha_next m i = SIG1 (m ! (i - 2)) + m ! (i - 7) + SIG0 (m ! (i - 15)) + m ! (i - 16)"

definition sha_schedule :: "byte list \<Rightarrow> u32 list" where
  "sha_schedule data = foldl (\<lambda>m i. m @ [sha_next m i]) (sha_words data) [16..<64]"

definition sha256_transform :: "sha256_ctx \<Rightarrow> byte list \<Rightarrow> sha256_ctx" where
  "sha256_transform ctx data =
     (let m = sha_schedule data; s = sx_state ctx;
          (a, b, c, d, e, f, g, h) =
            foldl (sha_round m) (s ! 0, s ! 1, s ! 2, s ! 3, s ! 4, s ! 5, s ! 6, s ! 7) [0..<64]
      in ctx\<lparr>sx_state := [s ! 0 + a, s ! 1 + b, s ! 2 + c, s ! 3 + d, s ! 4 + e, s ! 5 + f, s ! 6 + g, s ! 7 + h]\<rparr>)"

definition sha256_init :: "sha256_ctx \<Rightarrow> sha256_ctx" where
  "sha256_init ctx =
     ctx\<lparr>sx_datalen := 0, sx_bitlen := 0,
         sx_state := [0x6a09e667, 0xbb67ae85, 0x3c6ef372, 0xa54ff53a, 0x510e527f, 0x9b05688c, 0x1f83d9ab, 0x5be0cd19]\<rparr>"

definition sha_update_byte :: "sha256_ctx \<Rightarrow> byte \<Rightarrow> sha256_ctx outcome" where
  "sha_update_byte ctx b =
     (if 64 \<le> sx_datalen ctx then UB else
      let ctx = ctx\<lparr>sx_data := (sx_data ctx)[unat (sx_datalen ctx) := b], sx_datalen := sx_datalen ctx + 1\<rparr> in
      if sx_datalen ctx = 64 then
        let ctx = sha256_transform ctx (sx_data ctx) in
        Ret (ctx\<lparr>sx_bitlen := sx_bitlen ctx + 512, sx_datalen := 0\<rparr>)
      else Ret ctx)"

fun sha_update_loop :: "sha256_ctx \<Rightarrow> byte list \<Rightarrow> sha256_ctx outcome" where
  "sha_update_loop ctx [] = Ret ctx"
| "sha_update_loop ctx (b # bs) = c_bind (sha_update_byte ctx b) (\<lambda>ctx. sha_update_loop ctx bs)"

text \<open>
  \<open>len\<close> is a \<open>size_t\<close> and the loop counter a 32-bit word: from \<open>2 ^ 32\<close> on the loop does
  not end, and a length behind the end of the buffer is read out of bounds.
\<close>

definition sha256_update :: "sha256_ctx \<Rightarrow> byte list \<Rightarrow> nat \<Rightarrow> sha256_ctx outcome" where
  "sha256_update ctx data len =
     (if length data < len then UB else if 2 ^ 32 \<le> len then Diverge
      else sha_update_loop ctx (take len data))"

text \<open>The loops \<open>while (i < n) data[i++] = 0\<close>.\<close>

function zero_to :: "nat \<Rightarrow> nat \<Rightarrow> byte list \<Rightarrow> byte list" where
  "zero_to i n data = (if i < n then zero_to (i + 1) n (data[i := 0]) else data)"
  by auto
termination by (relation "measure (\<lambda>(i, n, _). n - i)") auto

declare zero_to.simps [simp del]

definition sha_length_bytes :: "u64 \<Rightarrow> byte list \<Rightarrow> byte list" where
  "sha_length_bytes bitlen data =
     data[63 := ucast bitlen, 62 := ucast (drop_bit 8 bitlen), 61 := ucast (drop_bit 16 bitlen),
          60 := ucast (drop_bit 24 bitlen), 59 := ucast (drop_bit 32 bitlen), 58 := ucast (drop_bit 40 bitlen),
          57 := ucast (drop_bit 48 bitlen), 56 := ucast (drop_bit 56 bitlen)]"

definition sha256_final :: "sha256_ctx \<Rightarrow> (byte list \<times> sha256_ctx) outcome" where
  "sha256_final ctx =
     (if 64 \<le> sx_datalen ctx then UB else
      let i = unat (sx_datalen ctx);
          ctx = (if sx_datalen ctx < 56
                 then ctx\<lparr>sx_data := zero_to (i + 1) 56 ((sx_data ctx)[i := 0x80])\<rparr>
                 else let ctx = ctx\<lparr>sx_data := zero_to (i + 1) 64 ((sx_data ctx)[i := 0x80])\<rparr>;
                          ctx = sha256_transform ctx (sx_data ctx)
                      in ctx\<lparr>sx_data := replicate 56 0 @ drop 56 (sx_data ctx)\<rparr>);
          ctx = ctx\<lparr>sx_bitlen := sx_bitlen ctx + ucast (sx_datalen ctx * 8)\<rparr>;
          ctx = ctx\<lparr>sx_data := sha_length_bytes (sx_bitlen ctx) (sx_data ctx)\<rparr>;
          ctx = sha256_transform ctx (sx_data ctx)
      in Ret (map (\<lambda>n. ucast (drop_bit (24 - n mod 4 * 8) (sx_state ctx ! (n div 4)) AND 0xff)) [0..<32], ctx))"

text \<open>A message in pieces, one \<open>sha256_update\<close> per piece.\<close>

primrec sha_update_all :: "sha256_ctx \<Rightarrow> byte list list \<Rightarrow> sha256_ctx outcome" where
  "sha_update_all ctx [] = Ret ctx"
| "sha_update_all ctx (c # cs) = c_bind (sha256_update ctx c (length c)) (\<lambda>ctx. sha_update_all ctx cs)"

section \<open>The reference\<close>

definition ref_Ch :: "u32 \<Rightarrow> u32 \<Rightarrow> u32 \<Rightarrow> u32" where
  "ref_Ch x y z = (x AND y) XOR (NOT x AND z)"

definition ref_Maj :: "u32 \<Rightarrow> u32 \<Rightarrow> u32 \<Rightarrow> u32" where
  "ref_Maj x y z = (x AND y) XOR (x AND z) XOR (y AND z)"

definition big_sigma :: "nat \<Rightarrow> nat \<Rightarrow> nat \<Rightarrow> u32 \<Rightarrow> u32" where
  "big_sigma r s t x = word_rotr r x XOR word_rotr s x XOR word_rotr t x"

definition small_sigma :: "nat \<Rightarrow> nat \<Rightarrow> nat \<Rightarrow> u32 \<Rightarrow> u32" where
  "small_sigma r s t x = word_rotr r x XOR word_rotr s x XOR drop_bit t x"

definition be_word :: "byte list \<Rightarrow> u32" where
  "be_word bs = word_of_nat (le_nat (rev bs))"

definition be_bytes :: "nat \<Rightarrow> nat \<Rightarrow> byte list" where
  "be_bytes k n = rev (le_bytes k n)"

fun ref_W :: "byte list \<Rightarrow> nat \<Rightarrow> u32" where
  "ref_W block t =
     (if t < 16 then be_word (fslice block (4 * t) 4)
      else small_sigma 17 19 10 (ref_W block (t - 2)) + ref_W block (t - 7) +
           small_sigma 7 18 3 (ref_W block (t - 15)) + ref_W block (t - 16))"

declare ref_W.simps [simp del]

definition ref_step :: "byte list \<Rightarrow> nat \<Rightarrow> regs \<Rightarrow> regs" where
  "ref_step block t r =
     (case r of (a, b, c, d, e, f, g, h) \<Rightarrow>
      let T1 = h + big_sigma 6 11 25 e + ref_Ch e f g + sha_k ! t + ref_W block t;
          T2 = big_sigma 2 13 22 a + ref_Maj a b c
      in (T1 + T2, a, b, c, d + T1, e, f, g))"

primrec ref_rounds :: "byte list \<Rightarrow> nat \<Rightarrow> regs \<Rightarrow> regs" where
  "ref_rounds block 0 r = r"
| "ref_rounds block (Suc t) r = ref_step block t (ref_rounds block t r)"

definition ref_compress :: "regs \<Rightarrow> byte list \<Rightarrow> regs" where
  "ref_compress H block =
     (case (H, ref_rounds block 64 H) of ((a, b, c, d, e, f, g, h), (a', b', c', d', e', f', g', h')) \<Rightarrow>
      (a + a', b + b', c + c', d + d', e + e', f + f', g + g', h + h'))"

definition ref_H0 :: regs where
  "ref_H0 = (0x6a09e667, 0xbb67ae85, 0x3c6ef372, 0xa54ff53a, 0x510e527f, 0x9b05688c, 0x1f83d9ab, 0x5be0cd19)"

function blocks :: "byte list \<Rightarrow> byte list list" where
  "blocks bs = (if length bs < 64 then [] else take 64 bs # blocks (drop 64 bs))"
  by auto
termination by (relation "measure length") auto

declare blocks.simps [simp del]

text \<open>A 1 bit, zero bits, and the length in bits as a 64-bit number, up to a full block.\<close>

definition ref_pad :: "byte list \<Rightarrow> byte list" where
  "ref_pad msg = msg @ [0x80] @ replicate ((119 - length msg mod 64) mod 64) 0 @ be_bytes 8 (8 * length msg)"

definition regs_bytes :: "regs \<Rightarrow> byte list" where
  "regs_bytes r =
     (case r of (a, b, c, d, e, f, g, h) \<Rightarrow>
      concat (map (\<lambda>w. be_bytes 4 (unat w)) [a, b, c, d, e, f, g, h]))"

definition ref_sha256 :: "byte list \<Rightarrow> byte list" where
  "ref_sha256 msg = regs_bytes (foldl ref_compress ref_H0 (blocks (ref_pad msg)))"

section \<open>One block\<close>

lemma ROTRIGHT_word_rotr: "0 < b \<Longrightarrow> b < 32 \<Longrightarrow> ROTRIGHT a b = word_rotr b a"
proof (rule bit_word_eqI)
  fix n assume b: "0 < b" "b < 32" and n: "n < LENGTH(32)"
  show "bit (ROTRIGHT a b) n \<longleftrightarrow> bit (word_rotr b a) n"
  proof (cases "n + b < 32")
    case True
    then have "\<not> 32 - b \<le> n"
      by simp
    then show ?thesis
      using b n True by (simp add: ROTRIGHT_def bit_or_iff bit_drop_bit_eq bit_push_bit_iff bit_word_rotr_iff add.commute)
  next
    case False
    then have "(n + b) mod 32 = n + b - 32"
      using b n by (simp add: mod_if)
    moreover have "32 - b \<le> n" "\<not> bit a (b + n)"
      using False by (simp, auto dest: bit_imp_le_length)
    ultimately show ?thesis
      using b n False by (simp add: ROTRIGHT_def bit_or_iff bit_drop_bit_eq bit_push_bit_iff bit_word_rotr_iff)
  qed
qed

lemmas sha_functions = ref_Ch_def CH_def ref_Maj_def MAJ_def big_sigma_def small_sigma_def
  EP0_def EP1_def SIG0_def SIG1_def

lemma sha_sigmas:
  "SIG1 x = small_sigma 17 19 10 x" "SIG0 x = small_sigma 7 18 3 x"
  "EP0 x = big_sigma 2 13 22 x" "EP1 x = big_sigma 6 11 25 x" "CH x y z = ref_Ch x y z" "MAJ x y z = ref_Maj x y z"
  by (simp_all add: sha_functions ROTRIGHT_word_rotr)

lemma be_word_4:
  "be_word [a, b, c, d] = push_bit 24 (ucast a) OR push_bit 16 (ucast b) OR push_bit 8 (ucast c) OR ucast d"
proof -
  let ?A = "push_bit 24 (ucast a) :: u32" and ?B = "push_bit 16 (ucast b) :: u32"
    and ?C = "push_bit 8 (ucast c) :: u32" and ?D = "ucast d :: u32"
  have apart: "?C OR ?D = ?C + ?D" "?B OR ?C OR ?D = ?B + (?C OR ?D)" "?A OR ?B OR ?C OR ?D = ?A + (?B OR ?C OR ?D)"
    by (rule disjunctive_add [symmetric]; auto simp: bit_simps dest: bit_imp_le_length)+
  have "?A OR ?B OR ?C OR ?D = ?A + (?B + (?C + ?D))"
    unfolding apart(3) unfolding apart(2) unfolding apart(1) ..
  also have "\<dots> = word_of_nat (unat a * 2 ^ 24 + unat b * 2 ^ 16 + unat c * 2 ^ 8 + unat d)"
    by (simp add: push_bit_eq_mult)
  finally show ?thesis
    by (simp add: be_word_def algebra_simps)
qed

lemma fslice_4: "off + 4 \<le> length xs \<Longrightarrow> fslice xs off 4 = [xs ! off, xs ! (off + 1), xs ! (off + 2), xs ! (off + 3)]"
  by (rule nth_equalityI) (auto simp: fslice_def nth_append less_Suc_eq numeral_eq_Suc)

lemma sha_words_ref: "length block = 64 \<Longrightarrow> t < 16 \<Longrightarrow> sha_words block ! t = ref_W block t"
  by (simp add: sha_words_def ref_W.simps fslice_4 be_word_4)

lemma foldl_extend:
  assumes "length m0 = n" "n \<le> k" "\<And>m i. n \<le> i \<Longrightarrow> i < k \<Longrightarrow> length m = i \<Longrightarrow> (\<forall>t<i. m ! t = w t) \<Longrightarrow> g m i = w i"
    "\<forall>t<n. m0 ! t = w t"
  shows "length (foldl (\<lambda>m i. m @ [g m i]) m0 [n..<k]) = k \<and> (\<forall>t<k. foldl (\<lambda>m i. m @ [g m i]) m0 [n..<k] ! t = w t)"
  using assms(2,3)
proof (induction k rule: dec_induct)
  case base
  then show ?case using assms(1,4) by simp
next
  case (step k)
  let ?m = "foldl (\<lambda>m i. m @ [g m i]) m0 [n..<k]"
  have IH: "length ?m = k" "\<forall>t<k. ?m ! t = w t"
    using step.IH step.prems by simp_all
  moreover have "g ?m k = w k"
    using step.prems IH step.hyps by simp
  ultimately show ?case
    using step.hyps by (auto simp: nth_append less_Suc_eq)
qed

lemma sha_schedule_ref:
  assumes "length block = 64" "t < 64"
  shows "sha_schedule block ! t = ref_W block t"
proof -
  have l: "length (sha_words block) = 16"
    by (simp add: sha_words_def)
  have w: "\<forall>t<16. sha_words block ! t = ref_W block t"
    using sha_words_ref [OF assms(1)] by simp
  have g: "sha_next m i = ref_W block i"
    if "16 \<le> i" "i < 64" "length m = i" "\<forall>t<i. m ! t = ref_W block t" for m i
    using that by (simp add: ref_W.simps [of block i] sha_next_def sha_sigmas)
  have "(16::nat) \<le> 64"
    by simp
  from foldl_extend [where g = sha_next and w = "ref_W block", OF l this g w] assms(2) show ?thesis
    unfolding sha_schedule_def by blast
qed

lemma sha_rounds_ref:
  assumes "length block = 64"
  shows "n \<le> 64 \<Longrightarrow> foldl (sha_round (sha_schedule block)) r [0..<n] = ref_rounds block n r"
proof (induction n)
  case (Suc n)
  then show ?case
    using sha_schedule_ref [OF assms, of n]
    by (simp add: sha_round_def ref_step_def sha_sigmas split: prod.split)
qed simp

text \<open>The state array as the eight reference words.\<close>

definition state_regs :: "u32 list \<Rightarrow> regs" where
  "state_regs s = (s ! 0, s ! 1, s ! 2, s ! 3, s ! 4, s ! 5, s ! 6, s ! 7)"

lemma sha256_transform_ref:
  assumes "length block = 64"
  shows "state_regs (sx_state (sha256_transform ctx block)) = ref_compress (state_regs (sx_state ctx)) block"
    and "length (sx_state (sha256_transform ctx block)) = 8"
    and "sx_data (sha256_transform ctx block) = sx_data ctx"
      "sx_datalen (sha256_transform ctx block) = sx_datalen ctx"
      "sx_bitlen (sha256_transform ctx block) = sx_bitlen ctx"
  unfolding sha256_transform_def Let_def sha_rounds_ref [OF assms order_refl]
  by (simp_all add: state_regs_def ref_compress_def split: prod.split)

section \<open>The stream\<close>

lemma blocks_simps:
  "length bs < 64 \<Longrightarrow> blocks bs = []"
  "length b = 64 \<Longrightarrow> blocks (b @ bs) = b # blocks bs"
  by (simp_all add: blocks.simps [of bs] blocks.simps [of "b @ bs"])

lemma blocks_append: "64 dvd length xs \<Longrightarrow> blocks (xs @ ys) = blocks xs @ blocks ys"
proof (induction xs rule: blocks.induct)
  case (1 xs)
  show ?case
  proof (cases "length xs < 64")
    case True
    then have "xs = []"
      using 1(2) by (auto dest: dvd_imp_le)
    then show ?thesis
      by (simp add: blocks_simps)
  next
    case False
    have "64 dvd length (drop 64 xs)"
      using 1(2) False by (simp add: dvd_minus_self)
    then have "blocks (drop 64 xs @ ys) = blocks (drop 64 xs) @ blocks ys"
      using 1(1) False by blast
    moreover have "blocks (take 64 xs @ (drop 64 xs @ ys)) = take 64 xs # blocks (drop 64 xs @ ys)"
      "blocks (take 64 xs @ drop 64 xs) = take 64 xs # blocks (drop 64 xs)"
      using False by (intro blocks_simps(2); simp)+
    moreover have "take 64 xs @ drop 64 xs @ ys = xs @ ys"
      by (simp flip: append_assoc)
    ultimately show ?thesis
      by simp
  qed
qed

text \<open>
  \<open>absorbed ctx pre rest\<close>: the context has taken in \<open>pre @ rest\<close>, where \<open>pre\<close> is the
  full blocks it has transformed and \<open>rest\<close> waits in its buffer.
\<close>

definition absorbed :: "sha256_ctx \<Rightarrow> byte list \<Rightarrow> byte list \<Rightarrow> bool" where
  "absorbed ctx pre rest \<longleftrightarrow>
     64 dvd length pre \<and> length rest < 64 \<and> length (sx_data ctx) = 64 \<and>
     sx_datalen ctx = word_of_nat (length rest) \<and> take (length rest) (sx_data ctx) = rest \<and>
     sx_bitlen ctx = word_of_nat (8 * length pre) \<and> length (sx_state ctx) = 8 \<and>
     state_regs (sx_state ctx) = foldl ref_compress ref_H0 (blocks pre)"

lemma absorbed_init: "length (sx_data ctx) = 64 \<Longrightarrow> absorbed (sha256_init ctx) [] []"
  by (simp add: absorbed_def sha256_init_def state_regs_def ref_H0_def blocks_simps)

lemma unat_of_small: "n < 2 ^ 32 \<Longrightarrow> unat (word_of_nat n :: u32) = n"
  by (simp only: unat_of_nat) simp

lemma datalen_facts:
  assumes "absorbed ctx pre rest"
  shows "unat (sx_datalen ctx) = length rest" "sx_datalen ctx < 64" "sx_datalen ctx < 56 \<longleftrightarrow> length rest < 56"
    "sx_datalen ctx + 1 = 64 \<longleftrightarrow> length rest = 63"
proof -
  have l: "length rest < 64" "sx_datalen ctx = word_of_nat (length rest)"
    using assms by (simp_all add: absorbed_def)
  then show u: "unat (sx_datalen ctx) = length rest"
    by (simp add: unat_of_small)
  then show "sx_datalen ctx < 64" "sx_datalen ctx < 56 \<longleftrightarrow> length rest < 56"
    using l(1) by (simp_all add: word_less_nat_alt)
  have "sx_datalen ctx + 1 = 64 \<longleftrightarrow> unat (sx_datalen ctx + word_of_nat 1) = 64"
    by (simp add: word_unat_eq_iff)
  also have "\<dots> \<longleftrightarrow> length rest = 63"
    using u l(1) unat_add_nat [of "sx_datalen ctx" 1] by simp
  finally show "sx_datalen ctx + 1 = 64 \<longleftrightarrow> length rest = 63" .
qed

lemma take_update_next: "n < length xs \<Longrightarrow> take (Suc n) (xs[n := x]) = take n xs @ [x]"
  by (simp add: take_Suc_conv_app_nth)

lemma absorb_byte:
  assumes a: "absorbed ctx pre rest"
  shows "\<exists>ctx' pre' rest'. sha_update_byte ctx b = Ret ctx' \<and> absorbed ctx' pre' rest' \<and> pre' @ rest' = pre @ rest @ [b]"
proof -
  note d = datalen_facts [OF a]
  define data where "data = (sx_data ctx)[length rest := b]"
  have s: "length rest < 64" "length (sx_data ctx) = 64" "take (length rest) (sx_data ctx) = rest" "64 dvd length pre"
    using a by (simp_all add: absorbed_def)
  have data: "length data = 64" "take (Suc (length rest)) data = rest @ [b]"
    using s take_update_next [of "length rest" "sx_data ctx" b] by (simp_all add: data_def)
  show ?thesis
  proof (cases "length rest = 63")
    case False
    let ?c = "ctx\<lparr>sx_data := data, sx_datalen := sx_datalen ctx + 1\<rparr>"
    have "sha_update_byte ctx b = Ret ?c"
      using d False by (simp add: sha_update_byte_def Let_def data_def not_le)
    moreover have "absorbed ?c pre (rest @ [b])"
      using a data False by (simp add: absorbed_def add.commute)
    ultimately show ?thesis
      by (intro exI [of _ ?c] exI [of _ pre] exI [of _ "rest @ [b]"]) simp
  next
    case True
    then have all: "data = rest @ [b]"
      using data by simp
    let ?t = "sha256_transform (ctx\<lparr>sx_data := data, sx_datalen := 64\<rparr>) data"
    let ?c = "?t\<lparr>sx_bitlen := sx_bitlen ?t + 512, sx_datalen := 0\<rparr>"
    note t = sha256_transform_ref [OF data(1), of "ctx\<lparr>sx_data := data, sx_datalen := 64\<rparr>"]
    have "sha_update_byte ctx b = Ret ?c"
      using d True by (simp add: sha_update_byte_def Let_def data_def not_le)
    moreover have "blocks (pre @ data) = blocks pre @ [data]"
      using blocks_append [OF s(4), of data] blocks_simps(2) [OF data(1), of "[]"] by (simp add: blocks_simps)
    then have "absorbed ?c (pre @ data) []"
      using a t data(1) by (simp add: absorbed_def algebra_simps)
    ultimately show ?thesis
      using all by (intro exI [of _ ?c] exI [of _ "pre @ data"] exI [of _ "[]"]) simp
  qed
qed

lemma absorb_loop:
  "absorbed ctx pre rest \<Longrightarrow> \<exists>ctx' pre' rest'. sha_update_loop ctx bs = Ret ctx' \<and> absorbed ctx' pre' rest' \<and> pre' @ rest' = pre @ rest @ bs"
proof (induction bs arbitrary: ctx pre rest)
  case (Cons b bs)
  obtain c p r where "sha_update_byte ctx b = Ret c" "absorbed c p r" "p @ r = pre @ rest @ [b]"
    using absorb_byte [OF Cons.prems] by blast
  with Cons.IH [of c p r] show ?case
    by (metis append.assoc append_Cons append_Nil c_bind.simps(1) sha_update_loop.simps(2))
qed auto

section \<open>The padding\<close>

lemma zero_to_eq: "i \<le> n \<Longrightarrow> n \<le> length d \<Longrightarrow> zero_to i n d = take i d @ replicate (n - i) 0 @ drop n d"
proof (induction i n d rule: zero_to.induct)
  case (1 i n d)
  show ?case
  proof (cases "i < n")
    case True
    then have "zero_to (i + 1) n (d[i := 0]) = take (i + 1) (d[i := 0]) @ replicate (n - (i + 1)) 0 @ drop n d"
      using 1 by simp
    moreover have "take (i + 1) (d[i := 0]) = take i d @ [0]"
      using True 1(3) take_update_next [of i d 0] by simp
    moreover have "replicate (n - i) (0 :: byte) = 0 # replicate (n - (i + 1)) 0"
      using True by (metis Suc_diff_Suc Suc_eq_plus1 replicate_Suc)
    ultimately show ?thesis
      using True by (subst zero_to.simps) simp
  next
    case False
    then show ?thesis
      using 1(2) by (subst zero_to.simps) simp
  qed
qed

lemma ucast_drop_bit: "(ucast (drop_bit k w) :: byte) = word_of_nat (unat w div 2 ^ k)"
proof -
  have "unat (drop_bit k w) = unat w div 2 ^ k"
    by (simp only: unat_drop_bit_eq) (simp only: drop_bit_eq_div)
  then show ?thesis
    by (metis of_nat_unat)
qed

lemma ucast_mask8: "(ucast (x AND 0xff) :: byte) = ucast (x :: u32)"
proof -
  have m: "(0xff :: u32) = mask 8"
    by (simp add: mask_eq_decr_exp)
  show ?thesis
    unfolding m by (auto intro!: bit_word_eqI simp: bit_simps)
qed

lemma le_bytes_div:
  "le_bytes 4 n = map (\<lambda>k. word_of_nat (n div 2 ^ k)) [0, 8, 16, 24]"
  "le_bytes 8 n = map (\<lambda>k. word_of_nat (n div 2 ^ k)) [0, 8, 16, 24, 32, 40, 48, 56]"
proof -
  have n: "4 = Suc (Suc (Suc (Suc 0)))" "8 = Suc (Suc (Suc (Suc (Suc (Suc (Suc (Suc 0)))))))"
    by simp_all
  show "le_bytes 4 n = map (\<lambda>k. word_of_nat (n div 2 ^ k)) [0, 8, 16, 24]"
    unfolding n(1) le_bytes.simps by (simp flip: div_mult2_eq)
  show "le_bytes 8 n = map (\<lambda>k. word_of_nat (n div 2 ^ k)) [0, 8, 16, 24, 32, 40, 48, 56]"
    unfolding n(2) le_bytes.simps by (simp flip: div_mult2_eq)
qed

lemma be_bytes_4: "be_bytes 4 (unat (w :: u32)) = map (\<lambda>k. ucast (drop_bit k w)) [24, 16, 8, 0]"
  unfolding be_bytes_def le_bytes_div ucast_drop_bit by simp

lemma be_bytes_8: "be_bytes 8 (unat (w :: u64)) = map (\<lambda>k. ucast (drop_bit k w)) [56, 48, 40, 32, 24, 16, 8, 0]"
  unfolding be_bytes_def le_bytes_div ucast_drop_bit by simp

lemma length_8: "length xs = 8 \<Longrightarrow> \<exists>a b c d e f g h. xs = [a, b, c, d, e, f, g, h]"
  by (auto simp: numeral_eq_Suc length_Suc_conv)

lemma sha_length_bytes_eq:
  assumes "length d = 64"
  shows "sha_length_bytes b d = take 56 d @ be_bytes 8 (unat b)"
proof -
  have "length (drop 56 d) = 8"
    using assms by simp
  then obtain x0 x1 x2 x3 x4 x5 x6 x7 where x: "drop 56 d = [x0, x1, x2, x3, x4, x5, x6, x7]"
    using length_8 by blast
  define t where "t = take 56 d"
  have d: "d = t @ [x0, x1, x2, x3, x4, x5, x6, x7]" "length t = 56"
    using x assms append_take_drop_id [of 56 d] by (simp_all add: t_def)
  show ?thesis
    unfolding be_bytes_8 sha_length_bytes_def d(1) using d(2) by (simp add: list_update_append)
qed

lemma digest_bytes:
  "length s = 8 \<Longrightarrow>
    map (\<lambda>n. ucast (drop_bit (24 - n mod 4 * 8) (s ! (n div 4)) AND 0xff)) [0..<32] = regs_bytes (state_regs s)"
proof -
  have u: "[0..<32] = [0, 1, 2, 3, 4, 5, 6, 7, 8, 9, 10, 11, 12, 13, 14, 15, 16, 17, 18, 19, 20, 21, 22, 23, 24, 25, 26,
      27, 28, 29, 30, 31::nat]"
    by (simp add: upt_rec)
  show ?thesis
    unfolding u ucast_mask8 by (simp add: regs_bytes_def state_regs_def be_bytes_4)
qed

lemma ucast_datalen: "n < 64 \<Longrightarrow> (ucast ((word_of_nat n :: u32) * 8) :: u64) = word_of_nat (8 * n)"
proof -
  assume n: "n < 64"
  have "(word_of_nat n :: u32) * 8 = word_of_nat (n * 8)"
    by simp
  moreover have "unat (word_of_nat (n * 8) :: u32) = n * 8"
    using n by (intro unat_of_small) simp
  ultimately show ?thesis
    by (metis mult.commute of_nat_unat)
qed

lemma be_bytes_word: "be_bytes 8 (unat (word_of_nat n :: u64)) = be_bytes 8 n"
proof -
  have "unat (word_of_nat n :: u64) = n mod 256 ^ 8"
    by (simp only: unat_of_nat) simp
  then show ?thesis
    by (simp only: be_bytes_def le_bytes_mod)
qed

lemma length_be_bytes [simp]: "length (be_bytes k n) = k"
  by (simp add: be_bytes_def)

text \<open>The padded message, in the two cases the code distinguishes.\<close>

lemma ref_pad_cases:
  assumes "64 dvd length pre" "length rest < 64"
  shows "ref_pad (pre @ rest) = pre @
    (if length rest < 56 then (rest @ [0x80] @ replicate (55 - length rest) 0) @ be_bytes 8 (8 * length (pre @ rest))
     else (rest @ [0x80] @ replicate (63 - length rest) 0) @ replicate 56 0 @ be_bytes 8 (8 * length (pre @ rest)))"
proof -
  have m: "length (pre @ rest) mod 64 = length rest"
    using assms by (auto elim!: dvdE)
  have k: "(119 - length rest) mod 64 = (if length rest < 56 then 55 - length rest else (63 - length rest) + 56)"
    using assms(2) by (auto simp: mod_if)
  show ?thesis
    unfolding ref_pad_def m k by (simp add: replicate_add)
qed

text \<open>\<open>finish\<close>: the end of \<open>sha256_final\<close>, from a context whose last block lacks only the length.\<close>

lemma finish_block:
  fixes n :: u64
  assumes d: "length (sx_data c) = 64" "take 56 (sx_data c) = b" and s: "length (sx_state c) = 8"
    "state_regs (sx_state c) = foldl ref_compress ref_H0 (blocks p)" and p: "64 dvd length p"
    and c'_def: "c' = sha256_transform (c\<lparr>sx_data := sha_length_bytes n (sx_data c)\<rparr>) (sha_length_bytes n (sx_data c))"
  shows "map (\<lambda>n. ucast (drop_bit (24 - n mod 4 * 8) (sx_state c' ! (n div 4)) AND 0xff)) [0..<32] =
    regs_bytes (foldl ref_compress ref_H0 (blocks (p @ b @ be_bytes 8 (unat n))))"
proof -
  let ?b = "b @ be_bytes 8 (unat n)"
  have e: "sha_length_bytes n (sx_data c) = ?b"
    using sha_length_bytes_eq [OF d(1)] d(2) by simp
  have l: "length ?b = 64"
    using d by auto
  note t = sha256_transform_ref [OF l, of "c\<lparr>sx_data := ?b\<rparr>"]
  have "blocks (p @ ?b) = blocks p @ [?b]"
    using blocks_append [OF p, of ?b] blocks_simps(2) [OF l, of "[]"] by (simp add: blocks_simps)
  moreover have "state_regs (sx_state c') = ref_compress (state_regs (sx_state c)) ?b" "length (sx_state c') = 8"
    unfolding c'_def e using t by simp_all
  ultimately show ?thesis
    using digest_bytes [of "sx_state c'"] s by simp
qed

lemma final_absorbed:
  assumes a: "absorbed ctx pre rest"
  shows "\<exists>ctx'. sha256_final ctx = Ret (ref_sha256 (pre @ rest), ctx')"
proof -
  note d = datalen_facts [OF a]
  have s: "length rest < 64" "length (sx_data ctx) = 64" "take (length rest) (sx_data ctx) = rest" "64 dvd length pre"
    "sx_datalen ctx = word_of_nat (length rest)" "sx_bitlen ctx = word_of_nat (8 * length pre)"
    "length (sx_state ctx) = 8" "state_regs (sx_state ctx) = foldl ref_compress ref_H0 (blocks pre)"
    using a by (simp_all add: absorbed_def)
  let ?l = "length rest" and ?d = "(sx_data ctx)[length rest := 0x80]"
  have n: "sx_bitlen ctx + ucast (sx_datalen ctx * 8) = word_of_nat (8 * length (pre @ rest))" (is "?n = _")
    unfolding s(5,6) ucast_datalen [OF s(1)] by (simp add: algebra_simps)
  have t: "take (?l + 1) ?d = rest @ [0x80]"
    using take_update_next [of ?l "sx_data ctx" "0x80"] s(1-3) by simp
  note z = zero_to_eq [of "?l + 1" _ ?d, unfolded t]
  show ?thesis
  proof (cases "?l < 56")
    case True
    let ?b = "rest @ [0x80] @ replicate (55 - ?l) 0" and ?c = "ctx\<lparr>sx_data := zero_to (?l + 1) 56 ?d\<rparr>"
    have zd: "zero_to (?l + 1) 56 ?d = ?b @ drop 56 ?d"
      using z [of 56] True s(2) by simp
    have "length ?b = 56"
      using True by simp
    then have "take 56 (?b @ drop 56 ?d) = ?b"
      by (metis append_eq_conv_conj)
    then have tb: "take 56 (sx_data ?c) = ?b"
      unfolding zd [symmetric] by simp
    have c: "length (sx_data ?c) = 64" "length (sx_state ?c) = 8"
      "state_regs (sx_state ?c) = foldl ref_compress ref_H0 (blocks pre)"
      using zd True s by simp_all
    let ?c2 = "?c\<lparr>sx_bitlen := ?n\<rparr>"
    have pad: "pre @ ?b @ be_bytes 8 (unat ?n) = ref_pad (pre @ rest)"
      unfolding n be_bytes_word ref_pad_cases [OF s(4,1)] using True by simp
    show ?thesis
      using finish_block [where c = ?c2 and n = ?n and b = ?b, OF _ _ _ _ s(4) refl] c tb pad d True
      by (simp add: sha256_final_def Let_def ref_sha256_def not_le)
  next
    case False
    let ?b = "rest @ [0x80] @ replicate (63 - ?l) 0" and ?t = "sha256_transform (ctx\<lparr>sx_data := zero_to (?l + 1) 64 ?d\<rparr>) (zero_to (?l + 1) 64 ?d)"
    have zd: "zero_to (?l + 1) 64 ?d = ?b"
      using z [of 64] s(1,2) by simp
    have b: "length ?b = 64"
      using s(1) by simp
    note r = sha256_transform_ref [OF b, of "ctx\<lparr>sx_data := ?b\<rparr>", folded zd]
    let ?c = "?t\<lparr>sx_data := replicate 56 0 @ drop 56 (sx_data ?t)\<rparr>"
    have p: "64 dvd length (pre @ ?b)" "blocks (pre @ ?b) = blocks pre @ [?b]"
      using s(4) b blocks_append [OF s(4), of ?b] blocks_simps(2) [OF b, of "[]"]
      by (simp_all add: blocks_simps)
    have c: "length (sx_data ?c) = 64" "take 56 (sx_data ?c) = replicate 56 0" "length (sx_state ?c) = 8"
      "state_regs (sx_state ?c) = foldl ref_compress ref_H0 (blocks (pre @ ?b))"
      using r s p(2) b zd by simp_all
    let ?c2 = "?c\<lparr>sx_bitlen := ?n\<rparr>"
    have pad: "(pre @ ?b) @ replicate 56 0 @ be_bytes 8 (unat ?n) = ref_pad (pre @ rest)"
      unfolding n be_bytes_word ref_pad_cases [OF s(4,1)] using False by simp
    show ?thesis
      using finish_block [where c = ?c2 and n = ?n, OF _ _ _ _ p(1) refl] c pad d False r
      by (simp add: sha256_final_def Let_def ref_sha256_def not_le)
  qed
qed

lemma absorb_all:
  "absorbed ctx pre rest \<Longrightarrow> \<forall>c\<in>set cs. length c < 2 ^ 32 \<Longrightarrow>
   \<exists>ctx' pre' rest'. sha_update_all ctx cs = Ret ctx' \<and> absorbed ctx' pre' rest' \<and> pre' @ rest' = pre @ rest @ concat cs"
proof (induction cs arbitrary: ctx pre rest)
  case (Cons c cs)
  obtain x p r where x: "sha_update_loop ctx c = Ret x" "absorbed x p r" "p @ r = pre @ rest @ c"
    using absorb_loop [OF Cons.prems(1)] by blast
  have "sha_update_all ctx (c # cs) = sha_update_all x cs"
    using x(1) Cons.prems(2) by (simp add: sha256_update_def)
  moreover obtain y p' r' where y: "sha_update_all x cs = Ret y" "absorbed y p' r'" "p' @ r' = p @ r @ concat cs"
    using Cons.IH [OF x(2)] Cons.prems(2) by auto
  moreover have "p @ r @ concat cs = pre @ rest @ concat (c # cs)"
    using x(3) by (metis append.assoc concat.simps(2))
  ultimately show ?case
    by metis
qed auto

section \<open>The constants\<close>

text \<open>
  The round constants are the first 32 bits of the fractional parts of the cube roots of the
  first 64 primes, the initial values those of the square roots of the first 8.
\<close>

definition frac_root :: "nat \<Rightarrow> nat \<Rightarrow> u32 \<Rightarrow> bool" where
  "frac_root k p w \<longleftrightarrow>
     (\<exists>c. (c * 2 ^ 32 + unat w) ^ k \<le> p * 2 ^ (32 * k) \<and> p * 2 ^ (32 * k) < (c * 2 ^ 32 + unat w + 1) ^ k)"

definition small_primes :: "nat list" where
  "small_primes = filter (\<lambda>n. list_all (\<lambda>d. n = d \<or> n mod d \<noteq> 0) [2..<18]) [2..<312]"

lemma small_primes_eq: "small_primes = [
    2, 3, 5, 7, 11, 13, 17, 19, 23, 29, 31, 37, 41, 43, 47, 53, 59, 61, 67, 71, 73, 79, 83,
    89, 97, 101, 103, 107, 109, 113, 127, 131, 137, 139, 149, 151, 157, 163, 167, 173, 179,
    181, 191, 193, 197, 199, 211, 223, 227, 229, 233, 239, 241, 251, 257, 263, 269, 271, 277,
    281, 283, 293, 307, 311]"
  by (simp add: small_primes_def upt_rec)

lemma frac_roots:
  "list_all2 (\<lambda>(c, w) p. (c * 2 ^ 32 + unat w) ^ k \<le> p * 2 ^ (32 * k) \<and> p * 2 ^ (32 * k) < (c * 2 ^ 32 + unat w + 1) ^ k)
     (zip cs ws) ps \<Longrightarrow> length cs = length ws \<Longrightarrow> list_all2 (frac_root k) ps ws"
  by (auto simp: list_all2_conv_all_nth frac_root_def)

lemma sha_k_roots: "list_all2 (frac_root 3) small_primes sha_k"
  by (rule frac_roots [where cs = "[1, 1, 1, 1, 2, 2, 2, 2, 2, 3, 3, 3, 3, 3, 3, 3, 3, 3, 4, 4, 4, 4, 4, 4, 4, 4, 4, 4, 4, 4, 5, 5, 5, 5, 5, 5, 5, 5, 5, 5, 5, 5, 5, 5, 5, 5, 5, 6, 6, 6, 6, 6, 6, 6, 6, 6, 6, 6, 6, 6, 6, 6, 6, 6]"]) (simp_all add: small_primes_eq sha_k_def)

lemma sha_h_roots: "list_all2 (frac_root 2) (take 8 small_primes) (sx_state (sha256_init ctx))"
  by (rule frac_roots [where cs = "[1, 1, 2, 2, 3, 3, 4, 4]"]) (simp_all add: small_primes_eq sha256_init_def)

definition sha_start :: sha256_ctx where
  "sha_start = \<lparr>sx_data = replicate 64 0, sx_datalen = 0, sx_bitlen = 0, sx_state = replicate 8 0\<rparr>"

section \<open>Properties\<close>

text \<open>
  C4. However a message is cut into pieces, \<open>sha256_init\<close>, a \<open>sha256_update\<close> per piece and
  \<open>sha256_final\<close> return the SHA-256 digest of the message, as FIPS 180-4 defines it.
\<close>

theorem sha256_correct:
  assumes "length (sx_data ctx) = 64" "\<forall>c\<in>set cs. length c < 2 ^ 32"
  shows "\<exists>ctx'. c_bind (sha_update_all (sha256_init ctx) cs) sha256_final = Ret (ref_sha256 (concat cs), ctx')"
proof -
  obtain x p r where "sha_update_all (sha256_init ctx) cs = Ret x" "absorbed x p r" "p @ r = concat cs"
    using absorb_all [OF absorbed_init [OF assms(1)] assms(2)] by auto
  then show ?thesis
    using final_absorbed [of x p r] by auto
qed

theorem sha256_correct_witness:
  "\<exists>ctx'. c_bind (sha_update_all (sha256_init sha_start) [bytes_of ''a'', bytes_of ''bc'']) sha256_final =
    Ret (ref_sha256 (bytes_of ''abc''), ctx')"
  using sha256_correct [of sha_start "[bytes_of ''a'', bytes_of ''bc'']"]
  by (simp add: sha_start_def bytes_of_def)

text \<open>
  The constants of the code are the ones the standard prescribes: the table holds the
  first 32 bits of the fractional parts of the cube roots of the first 64 primes (a number
  below 324 with no divisor below 18 but itself is prime), and \<open>sha256_init\<close> sets the state
  to those of the square roots of the first 8.
\<close>

theorem sha256_constants:
  "list_all2 (frac_root 3) small_primes sha_k \<and>
   list_all2 (frac_root 2) (take 8 small_primes) (sx_state (sha256_init ctx))"
  by (rule conjI [OF sha_k_roots sha_h_roots])

end
