(* ===== verification/Inv_Types.thy ===== *)
theory Inv_Types
  imports Prelude
begin

text \<open>
  The shared memory of the inventory, \<open>include/inv_ipc.h\<close> and the initialisation in
  \<open>src/inv_ipc.c\<close>: the header, the queue of jobs, the channel of results, and the stack of
  worker statistics, mapped by the manager and by every worker. A semaphore is its value;
  \<open>sem_init\<close> succeeds or fails as the argument \<open>sem_ok\<close> says. The two queues have the same
  fields, so they share one record.
\<close>

section \<open>The structures\<close>

abbreviation (input) CAPACITY :: nat where "CAPACITY \<equiv> 2048"

abbreviation (input) INV_PATH_MAX :: nat where "INV_PATH_MAX \<equiv> 4096"

abbreviation (input) INV_VERSION :: int where "INV_VERSION \<equiv> 100"

record header =
  h_magic :: "byte list"
  h_version :: int
  h_max_depth :: int
  h_workers :: int
  h_simulate_work_ms :: int
  h_capacity :: int
  h_active :: byte
  h_queued_jobs :: int
  h_active_jobs :: int
  h_queued_results :: int

record job_t =
  j_depth :: int
  j_name :: "byte list"

record result =
  r_abs_path :: "byte list"
  r_size :: u32
  r_mtime :: u32
  r_mode :: u32
  r_uid :: u32
  r_gid :: u32
  r_sha :: "byte list"

record worker_stats =
  w_worker_id :: u32
  w_pid :: u32
  w_exit_status :: u32
  w_jobs_processed :: u32
  w_files_emitted :: u32
  w_bytes_emitted :: u64
  w_wall_time_ms :: u64
  w_user_cpu_us :: u64
  w_sys_cpu_us :: u64

text \<open>\<open>struct job_queue\<close> and \<open>struct result_channels\<close>.\<close>

record 'a channel =
  ch_capacity :: int
  ch_head :: nat
  ch_tail :: nat
  ch_empty :: nat
  ch_full :: nat
  ch_mutex :: nat
  ch_slots :: "'a list"

record worker_stack =
  ws_count :: int
  ws_mutex :: nat
  ws_wstats :: "worker_stats list"

record shared_data =
  sd_hdr :: header
  sd_jq :: "job_t channel"
  sd_rc :: "result channel"
  sd_ws :: worker_stack

text \<open>The two values of \<open>active\<close>.\<close>

definition ACTIVE :: byte where "ACTIVE = of_char (CHR ''A'')"
definition ENDED :: byte where "ENDED = of_char (CHR ''E'')"

lemma active_ended [simp]: "ACTIVE \<noteq> ENDED" "ENDED \<noteq> ACTIVE"
  by (simp_all add: ACTIVE_def ENDED_def)

section \<open>Initialisation\<close>

definition init_header :: "header \<Rightarrow> int \<Rightarrow> int \<Rightarrow> int \<Rightarrow> int \<Rightarrow> int \<times> header" where
  "init_header hdr workers max_depth capacity simulate_work_ms =
     (0, hdr\<lparr>h_magic := bytes_of ''IPC4'' @ [0], h_version := INV_VERSION, h_max_depth := max_depth,
             h_workers := workers, h_capacity := capacity, h_simulate_work_ms := simulate_work_ms,
             h_active := ACTIVE, h_queued_jobs := 0, h_active_jobs := 0, h_queued_results := 0\<rparr>)"

text \<open>
  \<open>init_job_queue\<close> and \<open>init_result_channels\<close>: three \<open>sem_init\<close> calls, each of which may
  fail; the fields set before a failure stay.
\<close>

definition init_channel :: "(nat \<Rightarrow> bool) \<Rightarrow> 'a channel \<Rightarrow> int \<times> 'a channel" where
  "init_channel sem_ok ch =
     (let ch = ch\<lparr>ch_capacity := int CAPACITY, ch_head := 0, ch_tail := 0\<rparr> in
      if \<not> sem_ok 0 then (-1, ch) else
      let ch = ch\<lparr>ch_empty := CAPACITY\<rparr> in
      if \<not> sem_ok 1 then (-1, ch) else
      let ch = ch\<lparr>ch_full := 0\<rparr> in
      if \<not> sem_ok 2 then (-1, ch) else (0, ch\<lparr>ch_mutex := 1\<rparr>))"

definition init_job_queue :: "(nat \<Rightarrow> bool) \<Rightarrow> job_t channel \<Rightarrow> int \<times> job_t channel" where
  "init_job_queue = init_channel"

definition init_result_channels :: "(nat \<Rightarrow> bool) \<Rightarrow> result channel \<Rightarrow> int \<times> result channel" where
  "init_result_channels = init_channel"

definition init_worker_stack :: "bool \<Rightarrow> worker_stack \<Rightarrow> int \<times> worker_stack" where
  "init_worker_stack sem_ok ws =
     (let ws = ws\<lparr>ws_count := 0\<rparr> in if \<not> sem_ok then (-1, ws) else (0, ws\<lparr>ws_mutex := 1\<rparr>))"

definition init_shared_data ::
  "(nat \<Rightarrow> bool) \<Rightarrow> shared_data \<Rightarrow> int \<Rightarrow> int \<Rightarrow> int \<Rightarrow> int \<Rightarrow> int \<times> shared_data" where
  "init_shared_data sem_ok sd workers max_depth capacity simulate_work_ms =
     (let (r, hdr) = init_header (sd_hdr sd) workers max_depth capacity simulate_work_ms;
          sd = sd\<lparr>sd_hdr := hdr\<rparr> in
      if r = -1 then (-1, sd) else
      let (r, jq) = init_job_queue sem_ok (sd_jq sd); sd = sd\<lparr>sd_jq := jq\<rparr> in
      if r = -1 then (-1, sd) else
      let (r, rc) = init_result_channels (\<lambda>i. sem_ok (i + 3)) (sd_rc sd); sd = sd\<lparr>sd_rc := rc\<rparr> in
      if r = -1 then (-1, sd) else
      let (r, ws) = init_worker_stack (sem_ok 6) (sd_ws sd); sd = sd\<lparr>sd_ws := ws\<rparr> in
      if r = -1 then (-1, sd) else (0, sd))"

text \<open>The mapping after \<open>memset\<close>: every byte 0.\<close>

definition zero_header :: header where
  "zero_header = \<lparr>h_magic = replicate 5 0, h_version = 0, h_max_depth = 0, h_workers = 0, h_simulate_work_ms = 0,
     h_capacity = 0, h_active = 0, h_queued_jobs = 0, h_active_jobs = 0, h_queued_results = 0\<rparr>"

definition zero_job :: job_t where
  "zero_job = \<lparr>j_depth = 0, j_name = []\<rparr>"

definition zero_result :: result where
  "zero_result = \<lparr>r_abs_path = [], r_size = 0, r_mtime = 0, r_mode = 0, r_uid = 0, r_gid = 0, r_sha = replicate 32 0\<rparr>"

definition zero_stats :: worker_stats where
  "zero_stats = \<lparr>w_worker_id = 0, w_pid = 0, w_exit_status = 0, w_jobs_processed = 0, w_files_emitted = 0,
     w_bytes_emitted = 0, w_wall_time_ms = 0, w_user_cpu_us = 0, w_sys_cpu_us = 0\<rparr>"

definition zero_channel :: "'a \<Rightarrow> 'a channel" where
  "zero_channel x = \<lparr>ch_capacity = 0, ch_head = 0, ch_tail = 0, ch_empty = 0, ch_full = 0, ch_mutex = 0,
     ch_slots = replicate CAPACITY x\<rparr>"

definition zero_shared :: shared_data where
  "zero_shared = \<lparr>sd_hdr = zero_header, sd_jq = zero_channel zero_job, sd_rc = zero_channel zero_result,
     sd_ws = \<lparr>ws_count = 0, ws_mutex = 0, ws_wstats = replicate CAPACITY zero_stats\<rparr>\<rparr>"

text \<open>
  \<open>start_ipc\<close>. \<open>open_ok\<close>, \<open>truncate_ok\<close> and \<open>map_ok\<close> say whether the system calls before
  the initialisation succeed. \<open>None\<close> is the NULL left in \<open>*sd\<close>.
\<close>

definition start_ipc ::
  "bool \<Rightarrow> bool \<Rightarrow> bool \<Rightarrow> (nat \<Rightarrow> bool) \<Rightarrow> int \<Rightarrow> int \<Rightarrow> int \<Rightarrow> int \<Rightarrow> int \<times> shared_data option" where
  "start_ipc open_ok truncate_ok map_ok sem_ok workers max_depth capacity simulate_work_ms =
     (if \<not> open_ok then (-1, None) else if \<not> truncate_ok then (-1, None) else if \<not> map_ok then (-1, None) else
      let (r, sd) = init_shared_data sem_ok zero_shared workers max_depth capacity simulate_work_ms in
      if r = -1 then (-1, None) else (0, Some sd))"

text \<open>
  \<open>get_mapped_data\<close>: the file as it is mapped, or \<open>None\<close> when \<open>open\<close> or \<open>mmap\<close> fails. With
  a wrong magic the caller keeps the pointer to the data that was unmapped, the second
  component says that it is dangling.
\<close>

datatype mapping = Null | Dangling | Mapped shared_data

definition get_mapped_data :: "shared_data option \<Rightarrow> (int \<times> mapping) outcome" where
  "get_mapped_data file =
     (case file of None \<Rightarrow> Ret (-1, Null)
      | Some sd \<Rightarrow> c_bind (strcmp_eq (h_magic (sd_hdr sd)) (bytes_of ''IPC4'' @ [0])) (\<lambda>eq.
          Ret (if eq then (0, Mapped sd) else (-1, Dangling))))"

section \<open>The initial state\<close>

lemma start_ipc_ok:
  "start_ipc True True True (\<lambda>_. True) workers max_depth capacity ms =
    (0, Some \<lparr>sd_hdr = \<lparr>h_magic = bytes_of ''IPC4'' @ [0], h_version = 100, h_max_depth = max_depth, h_workers = workers,
        h_simulate_work_ms = ms, h_capacity = capacity, h_active = ACTIVE, h_queued_jobs = 0, h_active_jobs = 0,
        h_queued_results = 0\<rparr>,
      sd_jq = (zero_channel zero_job)\<lparr>ch_capacity := 2048, ch_empty := 2048, ch_mutex := 1\<rparr>,
      sd_rc = (zero_channel zero_result)\<lparr>ch_capacity := 2048, ch_empty := 2048, ch_mutex := 1\<rparr>,
      sd_ws = \<lparr>ws_count = 0, ws_mutex = 1, ws_wstats = replicate 2048 zero_stats\<rparr>\<rparr>)"
  by (simp add: start_ipc_def init_shared_data_def init_header_def init_job_queue_def init_result_channels_def
      init_channel_def init_worker_stack_def zero_shared_def zero_header_def zero_channel_def)

lemma start_then_map:
  assumes "start_ipc True True True (\<lambda>_. True) workers max_depth capacity ms = (0, Some sd)"
  shows "get_mapped_data (Some sd) = Ret (0, Mapped sd)"
  using assms unfolding start_ipc_ok
  by (auto simp: get_mapped_data_def strcmp_eq_def has_nul_def bytes_of_def)

end
