(* ===== verification/Inv_Queue.thy ===== *)
theory Inv_Queue
  imports Inv_Types
begin

text \<open>
  The two bounded queues of \<open>src/inv_ipc.c\<close>, and the stack of worker statistics, as the
  functions run when no other process interferes (a wait on a semaphore with the value 0
  never returns then). The lemmas relate the array and its two positions to the list the
  queue stands for, and show that both queues are bounded FIFO queues, the contract the
  manager and the workers rely on. \<open>Inv_Sched\<close> has the same queues under every schedule.
\<close>

section \<open>The critical sections\<close>

definition ch_put :: "'a \<Rightarrow> 'a channel \<Rightarrow> 'a channel" where
  "ch_put x ch =
     ch\<lparr>ch_slots := (ch_slots ch)[ch_tail ch := x], ch_tail := (ch_tail ch + 1) mod CAPACITY\<rparr>"

definition ch_take :: "'a channel \<Rightarrow> 'a \<times> 'a channel" where
  "ch_take ch = (ch_slots ch ! ch_head ch, ch\<lparr>ch_head := (ch_head ch + 1) mod CAPACITY\<rparr>)"

section \<open>The functions\<close>

text \<open>
  A semaphore operation on one of the fields: \<open>sem_wait\<close> of a value 0 does not return. The
  retry after \<open>EINTR\<close> is part of the wait.
\<close>

definition wait_empty :: "'a channel \<Rightarrow> 'a channel outcome" where
  "wait_empty ch = (if ch_empty ch = 0 then Diverge else Ret (ch\<lparr>ch_empty := ch_empty ch - 1\<rparr>))"

definition wait_full :: "'a channel \<Rightarrow> 'a channel outcome" where
  "wait_full ch = (if ch_full ch = 0 then Diverge else Ret (ch\<lparr>ch_full := ch_full ch - 1\<rparr>))"

definition wait_mutex :: "'a channel \<Rightarrow> 'a channel outcome" where
  "wait_mutex ch = (if ch_mutex ch = 0 then Diverge else Ret (ch\<lparr>ch_mutex := ch_mutex ch - 1\<rparr>))"

definition post_empty :: "'a channel \<Rightarrow> 'a channel" where
  "post_empty ch = ch\<lparr>ch_empty := ch_empty ch + 1\<rparr>"

definition post_full :: "'a channel \<Rightarrow> 'a channel" where
  "post_full ch = ch\<lparr>ch_full := ch_full ch + 1\<rparr>"

definition post_mutex :: "'a channel \<Rightarrow> 'a channel" where
  "post_mutex ch = ch\<lparr>ch_mutex := ch_mutex ch + 1\<rparr>"

definition set_queued_jobs :: "int \<Rightarrow> shared_data \<Rightarrow> shared_data" where
  "set_queued_jobs d sd = sd\<lparr>sd_hdr := (sd_hdr sd)\<lparr>h_queued_jobs := h_queued_jobs (sd_hdr sd) + d\<rparr>\<rparr>"

definition set_queued_results :: "int \<Rightarrow> shared_data \<Rightarrow> shared_data" where
  "set_queued_results d sd = sd\<lparr>sd_hdr := (sd_hdr sd)\<lparr>h_queued_results := h_queued_results (sd_hdr sd) + d\<rparr>\<rparr>"

definition enqueue_job :: "(byte list \<Rightarrow> byte list option) \<Rightarrow> job_t \<Rightarrow> shared_data \<Rightarrow> (int \<times> shared_data) outcome" where
  "enqueue_job realpath job sd =
     (case realpath (j_name job) of None \<Rightarrow> Ret (-1, sd) | Some abs_path \<Rightarrow>
      let temp_job = \<lparr>j_depth = j_depth job, j_name = abs_path\<rparr> in
      c_bind (wait_empty (sd_jq sd)) (\<lambda>jq. c_bind (wait_mutex jq) (\<lambda>jq.
      let jq = ch_put temp_job jq;
          sd = set_queued_jobs 1 sd
      in Ret (0, sd\<lparr>sd_jq := post_full (post_mutex jq)\<rparr>))))"

text \<open>The job is returned through a pointer; with the result 1 the target is left alone.\<close>

definition dequeue_job :: "job_t \<Rightarrow> shared_data \<Rightarrow> (int \<times> job_t \<times> shared_data) outcome" where
  "dequeue_job job sd =
     c_bind (wait_full (sd_jq sd)) (\<lambda>jq.
     if h_active (sd_hdr sd) = ENDED then Ret (1, job, sd\<lparr>sd_jq := post_full jq\<rparr>) else
     c_bind (wait_mutex jq) (\<lambda>jq.
     let (job, jq) = ch_take jq;
         sd = set_queued_jobs (-1) sd
     in Ret (0, job, sd\<lparr>sd_jq := post_empty (post_mutex jq)\<rparr>)))"

definition enqueue_result :: "result \<Rightarrow> shared_data \<Rightarrow> (int \<times> shared_data) outcome" where
  "enqueue_result res sd =
     c_bind (wait_empty (sd_rc sd)) (\<lambda>rc. c_bind (wait_mutex rc) (\<lambda>rc.
     let rc = ch_put res rc;
         sd = set_queued_results 1 sd
     in Ret (0, sd\<lparr>sd_rc := post_full (post_mutex rc)\<rparr>)))"

definition dequeue_result :: "result \<Rightarrow> shared_data \<Rightarrow> (int \<times> result \<times> shared_data) outcome" where
  "dequeue_result res sd =
     (if h_active (sd_hdr sd) = ENDED then Ret (1, res, sd\<lparr>sd_rc := post_full (sd_rc sd)\<rparr>)
      else if ch_full (sd_rc sd) = 0 then Ret (2, res, sd) else
      let rc = (sd_rc sd)\<lparr>ch_full := ch_full (sd_rc sd) - 1\<rparr> in
      c_bind (wait_mutex rc) (\<lambda>rc.
      let (res, rc) = ch_take rc;
          sd = set_queued_results (-1) sd
      in Ret (0, res, sd\<lparr>sd_rc := post_empty (post_mutex rc)\<rparr>)))"

text \<open>
  The statistics stack. Both functions return with the mutex held when they fail, so the
  next call on the stack never returns.
\<close>

definition push_worker_stats :: "worker_stats \<Rightarrow> shared_data \<Rightarrow> (int \<times> shared_data) outcome" where
  "push_worker_stats wstats sd =
     (let ws = sd_ws sd in
      if ws_mutex ws = 0 then Diverge else
      let ws = ws\<lparr>ws_mutex := ws_mutex ws - 1\<rparr> in
      if int CAPACITY \<le> ws_count ws then Ret (-1, sd\<lparr>sd_ws := ws\<rparr>) else
      if ws_count ws < 0 then UB else
      let ws = ws\<lparr>ws_wstats := (ws_wstats ws)[nat (ws_count ws) := wstats], ws_count := ws_count ws + 1\<rparr>
      in Ret (0, sd\<lparr>sd_ws := ws\<lparr>ws_mutex := ws_mutex ws + 1\<rparr>\<rparr>))"

definition pop_worker_stats :: "worker_stats \<Rightarrow> shared_data \<Rightarrow> (int \<times> worker_stats \<times> shared_data) outcome" where
  "pop_worker_stats wstats sd =
     (let ws = sd_ws sd in
      if ws_mutex ws = 0 then Diverge else
      let ws = ws\<lparr>ws_mutex := ws_mutex ws - 1\<rparr> in
      if ws_count ws \<le> 0 then Ret (-1, wstats, sd\<lparr>sd_ws := ws\<rparr>) else
      if int CAPACITY < ws_count ws then UB else
      let ws = ws\<lparr>ws_count := ws_count ws - 1\<rparr>
      in Ret (0, ws_wstats ws ! nat (ws_count ws), sd\<lparr>sd_ws := ws\<lparr>ws_mutex := ws_mutex ws + 1\<rparr>\<rparr>))"

section \<open>The ring\<close>

text \<open>The \<open>n\<close> elements from \<open>head\<close> on, around the end of the array.\<close>

definition ring_view :: "nat \<Rightarrow> nat \<Rightarrow> 'a list \<Rightarrow> 'a list" where
  "ring_view head n xs = map (\<lambda>k. xs ! ((head + k) mod length xs)) [0..<n]"

lemma length_ring_view [simp]: "length (ring_view h n xs) = n"
  by (simp add: ring_view_def)

lemma ring_view_0 [simp]: "ring_view h 0 xs = []"
  by (simp add: ring_view_def)

lemma ring_apart:
  assumes "k < n" "n < L"
  shows "(h + n) mod L \<noteq> (h + k) mod (L :: nat)"
proof
  assume "(h + n) mod L = (h + k) mod L"
  then have "L dvd (h + n) - (h + k)"
    using assms by (intro mod_eq_dvd_iff_nat [THEN iffD1]) auto
  then show False
    using assms by (auto dest: dvd_imp_le)
qed

lemma ring_view_put:
  assumes "n < length xs"
  shows "ring_view h (Suc n) (xs[(h + n) mod length xs := x]) = ring_view h n xs @ [x]"
proof -
  have "(h + n) mod length xs < length xs"
    using assms by (intro mod_less_divisor) auto
  then show ?thesis
    using assms ring_apart [of _ n "length xs" h] by (simp add: ring_view_def nth_list_update cong: map_cong)
qed

lemma ring_view_take:
  assumes "h < length xs"
  shows "ring_view h (Suc n) xs = xs ! h # ring_view ((h + 1) mod length xs) n xs"
proof -
  have "[0..<Suc n] = 0 # map Suc [0..<n]"
    by (metis map_Suc_upt upt_conv_Cons zero_less_Suc)
  moreover have "((h + 1) mod length xs + k) mod length xs = (h + Suc k) mod length xs" for k
    by (simp add: mod_add_left_eq)
  ultimately show ?thesis
    using assms by (simp add: ring_view_def comp_def)
qed

text \<open>\<open>ch_holds ch xs\<close>: the channel's array and positions represent the list \<open>xs\<close>.\<close>

definition ch_holds :: "'a channel \<Rightarrow> 'a list \<Rightarrow> bool" where
  "ch_holds ch xs \<longleftrightarrow>
     length (ch_slots ch) = CAPACITY \<and> ch_head ch < CAPACITY \<and> length xs \<le> CAPACITY \<and>
     ch_tail ch = (ch_head ch + length xs) mod CAPACITY \<and> ring_view (ch_head ch) (length xs) (ch_slots ch) = xs"

lemma ch_holds_init: "ch_holds ((zero_channel x)\<lparr>ch_capacity := c, ch_empty := e, ch_mutex := m\<rparr>) []"
  by (simp add: ch_holds_def zero_channel_def)

lemma ch_holds_put:
  assumes h: "ch_holds ch xs" and n: "length xs < CAPACITY"
  shows "ch_holds (ch_put x ch) (xs @ [x])"
proof -
  have c: "length (ch_slots ch) = 2048" "ch_tail ch = (ch_head ch + length xs) mod 2048"
    "ring_view (ch_head ch) (length xs) (ch_slots ch) = xs" "ch_head ch < 2048"
    using h by (simp_all add: ch_holds_def)
  have "(ch_tail ch + 1) mod 2048 = (ch_head ch + (length xs + 1)) mod 2048"
    unfolding c(2) by (simp add: mod_Suc_eq)
  moreover have "ring_view (ch_head ch) (Suc (length xs)) ((ch_slots ch)[ch_tail ch := x]) = xs @ [x]"
    using ring_view_put [of "length xs" "ch_slots ch" "ch_head ch" x] c n by simp
  ultimately show ?thesis
    using c n by (simp add: ch_holds_def ch_put_def)
qed

lemma ch_holds_take:
  assumes h: "ch_holds ch (x # xs)"
  shows "fst (ch_take ch) = x" "ch_holds (snd (ch_take ch)) xs"
proof -
  have c: "length (ch_slots ch) = 2048" "ch_tail ch = (ch_head ch + Suc (length xs)) mod 2048"
    "ring_view (ch_head ch) (Suc (length xs)) (ch_slots ch) = x # xs" "ch_head ch < 2048" "length xs < 2048"
    using h by (simp_all add: ch_holds_def)
  have v: "ch_slots ch ! ch_head ch = x" "ring_view ((ch_head ch + 1) mod 2048) (length xs) (ch_slots ch) = xs"
    using c(3) ring_view_take [of "ch_head ch" "ch_slots ch" "length xs"] c(1,4) by simp_all
  have "ch_tail ch = ((ch_head ch + 1) mod 2048 + length xs) mod 2048"
    unfolding c(2) by (simp add: mod_add_left_eq)
  then show "fst (ch_take ch) = x" "ch_holds (snd (ch_take ch)) xs"
    using v c by (simp_all add: ch_take_def ch_holds_def)
qed

lemma ch_holds_sems [simp]:
  "ch_holds (ch\<lparr>ch_empty := n\<rparr>) xs = ch_holds ch xs" "ch_holds (ch\<lparr>ch_full := n\<rparr>) xs = ch_holds ch xs"
  "ch_holds (ch\<lparr>ch_mutex := n\<rparr>) xs = ch_holds ch xs"
  by (simp_all add: ch_holds_def)

lemma ch_put_sems [simp]:
  "ch_empty (ch_put x ch) = ch_empty ch" "ch_full (ch_put x ch) = ch_full ch" "ch_mutex (ch_put x ch) = ch_mutex ch"
  "ch_empty (snd (ch_take ch)) = ch_empty ch" "ch_full (snd (ch_take ch)) = ch_full ch"
  "ch_mutex (snd (ch_take ch)) = ch_mutex ch"
  by (simp_all add: ch_put_def ch_take_def)

section \<open>The interface of a bounded queue\<close>

text \<open>Several calls in a row.\<close>

fun enq_all :: "('x \<Rightarrow> 's \<Rightarrow> (int \<times> 's) outcome) \<Rightarrow> 'x list \<Rightarrow> 's \<Rightarrow> 's outcome" where
  "enq_all enq [] s = Ret s"
| "enq_all enq (x # xs) s = c_bind (enq x s) (\<lambda>(_, s). enq_all enq xs s)"

fun deq_all :: "('s \<Rightarrow> (int \<times> 'x \<times> 's) outcome) \<Rightarrow> nat \<Rightarrow> 's \<Rightarrow> ('x list \<times> 's) outcome" where
  "deq_all deq 0 s = Ret ([], s)"
| "deq_all deq (Suc n) s = c_bind (deq s) (\<lambda>(_, x, s). c_bind (deq_all deq n s) (\<lambda>(xs, s). Ret (x # xs, s)))"

text \<open>
  What the worker and the manager rely on: an enqueue adds its element (as \<open>norm\<close> stores
  it) at the end or waits when the queue is full, a dequeue returns the first element.
\<close>

locale bounded_queue =
  fixes enq :: "'x \<Rightarrow> 's \<Rightarrow> (int \<times> 's) outcome" and deq :: "'s \<Rightarrow> (int \<times> 'x \<times> 's) outcome"
    and norm :: "'x \<Rightarrow> 'x option" and inv :: "'s \<Rightarrow> 'x list \<Rightarrow> bool" and cap :: nat
  assumes enq_room: "inv s xs \<Longrightarrow> norm x = Some y \<Longrightarrow> length xs < cap \<Longrightarrow> \<exists>t. enq x s = Ret (0, t) \<and> inv t (xs @ [y])"
    and enq_full: "inv s xs \<Longrightarrow> norm x = Some y \<Longrightarrow> cap \<le> length xs \<Longrightarrow> enq x s = Diverge"
    and deq_first: "inv s (x # xs) \<Longrightarrow> \<exists>t. deq s = Ret (0, x, t) \<and> inv t xs"
begin

lemma enq_all_ok:
  "inv s xs \<Longrightarrow> list_all2 (\<lambda>x y. norm x = Some y) zs ys \<Longrightarrow> length xs + length ys \<le> cap \<Longrightarrow>
   \<exists>t. enq_all enq zs s = Ret t \<and> inv t (xs @ ys)"
proof (induction zs arbitrary: s xs ys)
  case (Cons z zs)
  then obtain y ys' where ys: "ys = y # ys'" "norm z = Some y" "list_all2 (\<lambda>x y. norm x = Some y) zs ys'"
    by (cases ys) auto
  then obtain u where u: "enq z s = Ret (0, u)" "inv u (xs @ [y])"
    using enq_room [OF Cons.prems(1) ys(2)] Cons.prems(3) by auto
  with Cons.IH [OF u(2) ys(3)] Cons.prems(3) show ?case
    by (auto simp: ys(1))
qed simp

lemma deq_all_ok: "inv s (xs @ ys) \<Longrightarrow> \<exists>t. deq_all deq (length xs) s = Ret (xs, t) \<and> inv t ys"
proof (induction xs arbitrary: s)
  case (Cons x xs)
  then obtain t where "deq s = Ret (0, x, t)" "inv t (xs @ ys)"
    using deq_first [of s x "xs @ ys"] by auto
  with Cons.IH [of t] show ?case
    by auto
qed simp

lemma fifo_roundtrip:
  assumes "inv s []" "list_all2 (\<lambda>x y. norm x = Some y) zs ys" "length ys \<le> cap"
  shows "\<exists>t. c_bind (enq_all enq zs s) (deq_all deq (length ys)) = Ret (ys, t) \<and> inv t []"
proof -
  obtain t where t: "enq_all enq zs s = Ret t" "inv t ys"
    using enq_all_ok [OF assms(1,2)] assms(3) by auto
  then show ?thesis
    using deq_all_ok [of t ys "[]"] by simp
qed

end

text \<open>The state of a queue no process is using, in shared memory that is still active.\<close>

definition ch_idle :: "'a channel \<Rightarrow> 'a list \<Rightarrow> bool" where
  "ch_idle ch xs \<longleftrightarrow>
     ch_holds ch xs \<and> ch_mutex ch = 1 \<and> ch_full ch = length xs \<and> ch_empty ch + length xs = CAPACITY"

definition jobs_inv :: "shared_data \<Rightarrow> job_t list \<Rightarrow> bool" where
  "jobs_inv sd xs \<longleftrightarrow>
     ch_idle (sd_jq sd) xs \<and> h_queued_jobs (sd_hdr sd) = int (length xs) \<and> h_active (sd_hdr sd) \<noteq> ENDED"

definition results_inv :: "shared_data \<Rightarrow> result list \<Rightarrow> bool" where
  "results_inv sd xs \<longleftrightarrow>
     ch_idle (sd_rc sd) xs \<and> h_queued_results (sd_hdr sd) = int (length xs) \<and> h_active (sd_hdr sd) \<noteq> ENDED"

definition job_norm :: "(byte list \<Rightarrow> byte list option) \<Rightarrow> job_t \<Rightarrow> job_t option" where
  "job_norm realpath job = map_option (\<lambda>p. job\<lparr>j_name := p\<rparr>) (realpath (j_name job))"

lemmas sem_defs = wait_empty_def wait_full_def wait_mutex_def post_empty_def post_full_def post_mutex_def

lemma enqueue_job_room:
  assumes "jobs_inv sd xs" "job_norm realpath x = Some y" "length xs < CAPACITY"
  shows "\<exists>t. enqueue_job realpath x sd = Ret (0, t) \<and> jobs_inv t (xs @ [y]) \<and>
    sd_rc t = sd_rc sd \<and> sd_ws t = sd_ws sd \<and>
    sd_hdr t = (sd_hdr sd)\<lparr>h_queued_jobs := h_queued_jobs (sd_hdr sd) + 1\<rparr>"
proof -
  obtain p where p: "realpath (j_name x) = Some p" "y = \<lparr>j_depth = j_depth x, j_name = p\<rparr>"
    using assms(2) by (cases x) (auto simp: job_norm_def)
  show ?thesis
    using assms(1,3) p ch_holds_put [of "sd_jq sd" xs y]
    by (auto simp: enqueue_job_def jobs_inv_def ch_idle_def sem_defs set_queued_jobs_def Let_def ch_put_def ch_holds_def)
qed

lemma dequeue_job_first:
  assumes "jobs_inv sd (x # xs)"
  shows "\<exists>t. dequeue_job j sd = Ret (0, x, t) \<and> jobs_inv t xs \<and> sd_rc t = sd_rc sd \<and> sd_ws t = sd_ws sd \<and>
    sd_hdr t = (sd_hdr sd)\<lparr>h_queued_jobs := h_queued_jobs (sd_hdr sd) - 1\<rparr>"
proof -
  have c: "ch_holds (sd_jq sd) (x # xs)"
    using assms by (simp add: jobs_inv_def ch_idle_def)
  show ?thesis
    using assms ch_holds_take [OF c]
    by (auto simp: dequeue_job_def jobs_inv_def ch_idle_def sem_defs set_queued_jobs_def ch_take_def ch_holds_def)
qed

lemma enqueue_result_room:
  assumes "results_inv sd xs" "length xs < CAPACITY"
  shows "\<exists>t. enqueue_result x sd = Ret (0, t) \<and> results_inv t (xs @ [x]) \<and>
    sd_jq t = sd_jq sd \<and> sd_ws t = sd_ws sd \<and>
    sd_hdr t = (sd_hdr sd)\<lparr>h_queued_results := h_queued_results (sd_hdr sd) + 1\<rparr>"
  using assms ch_holds_put [of "sd_rc sd" xs x]
  by (auto simp: enqueue_result_def results_inv_def ch_idle_def sem_defs set_queued_results_def Let_def ch_put_def ch_holds_def)

lemma dequeue_result_first:
  assumes "results_inv sd (x # xs)"
  shows "\<exists>t. dequeue_result r sd = Ret (0, x, t) \<and> results_inv t xs \<and> sd_jq t = sd_jq sd \<and> sd_ws t = sd_ws sd \<and>
    sd_hdr t = (sd_hdr sd)\<lparr>h_queued_results := h_queued_results (sd_hdr sd) - 1\<rparr>"
proof -
  have c: "ch_holds (sd_rc sd) (x # xs)"
    using assms by (simp add: results_inv_def ch_idle_def)
  show ?thesis
    using assms ch_holds_take [OF c]
    by (auto simp: dequeue_result_def results_inv_def ch_idle_def sem_defs set_queued_results_def ch_take_def ch_holds_def)
qed

interpretation jobs: bounded_queue "enqueue_job realpath" "dequeue_job j" "job_norm realpath" jobs_inv CAPACITY for realpath j
proof
  fix s xs x y
  show "jobs_inv s xs \<Longrightarrow> job_norm realpath x = Some y \<Longrightarrow> length xs < CAPACITY \<Longrightarrow>
      \<exists>t. enqueue_job realpath x s = Ret (0, t) \<and> jobs_inv t (xs @ [y])"
    using enqueue_job_room by blast
  show "jobs_inv s xs \<Longrightarrow> job_norm realpath x = Some y \<Longrightarrow> CAPACITY \<le> length xs \<Longrightarrow> enqueue_job realpath x s = Diverge"
    by (auto simp: jobs_inv_def ch_idle_def enqueue_job_def job_norm_def wait_empty_def split: option.splits)
  show "jobs_inv s (x # xs) \<Longrightarrow> \<exists>t. dequeue_job j s = Ret (0, x, t) \<and> jobs_inv t xs"
    using dequeue_job_first by blast
qed

interpretation results: bounded_queue enqueue_result "dequeue_result r" Some results_inv CAPACITY for r
proof
  fix s xs x y
  show "results_inv s xs \<Longrightarrow> Some x = Some y \<Longrightarrow> length xs < CAPACITY \<Longrightarrow>
      \<exists>t. enqueue_result x s = Ret (0, t) \<and> results_inv t (xs @ [y])"
    using enqueue_result_room by blast
  show "results_inv s xs \<Longrightarrow> Some x = Some y \<Longrightarrow> CAPACITY \<le> length xs \<Longrightarrow> enqueue_result x s = Diverge"
    by (auto simp: results_inv_def ch_idle_def enqueue_result_def wait_empty_def)
  show "results_inv s (x # xs) \<Longrightarrow> \<exists>t. dequeue_result r s = Ret (0, x, t) \<and> results_inv t xs"
    using dequeue_result_first by blast
qed

text \<open>The first state.\<close>

lemma start_ipc_inv:
  assumes "start_ipc True True True (\<lambda>_. True) workers max_depth capacity ms = (0, Some sd)"
  shows "jobs_inv sd []" "results_inv sd []" "sd_ws sd = \<lparr>ws_count = 0, ws_mutex = 1, ws_wstats = replicate 2048 zero_stats\<rparr>"
    "h_max_depth (sd_hdr sd) = max_depth" "h_workers (sd_hdr sd) = workers" "h_active_jobs (sd_hdr sd) = 0"
  using assms unfolding start_ipc_ok
  by (auto simp: jobs_inv_def results_inv_def ch_idle_def ch_holds_def zero_channel_def)

lemma start_ipc_demo: "\<exists>sd. start_ipc True True True (\<lambda>_. True) 2 1024 2048 0 = (0, Some sd)"
  unfolding start_ipc_ok by simp

section \<open>The statistics stack\<close>

definition stats_hold :: "shared_data \<Rightarrow> worker_stats list \<Rightarrow> bool" where
  "stats_hold sd xs \<longleftrightarrow>
     ws_mutex (sd_ws sd) = 1 \<and> ws_count (sd_ws sd) = int (length xs) \<and> length xs \<le> CAPACITY \<and>
     length (ws_wstats (sd_ws sd)) = CAPACITY \<and> take (length xs) (ws_wstats (sd_ws sd)) = xs"

lemma push_stats_ok:
  assumes "stats_hold sd xs" "length xs < CAPACITY"
  shows "\<exists>t. push_worker_stats w sd = Ret (0, t) \<and> stats_hold t (xs @ [w]) \<and> t = sd\<lparr>sd_ws := sd_ws t\<rparr>"
proof -
  have "take (Suc (length xs)) ((ws_wstats (sd_ws sd))[length xs := w]) = xs @ [w]"
    using assms by (simp add: stats_hold_def take_Suc_conv_app_nth)
  then show ?thesis
    using assms by (auto simp: push_worker_stats_def stats_hold_def Let_def)
qed

lemma pop_stats_ok:
  assumes "stats_hold sd (xs @ [w])"
  shows "\<exists>t. pop_worker_stats v sd = Ret (0, w, t) \<and> stats_hold t xs \<and> t = sd\<lparr>sd_ws := sd_ws t\<rparr>"
proof -
  have t: "take (Suc (length xs)) (ws_wstats (sd_ws sd)) = xs @ [w]" "length xs < length (ws_wstats (sd_ws sd))"
    using assms by (simp_all add: stats_hold_def)
  then have "ws_wstats (sd_ws sd) ! length xs = w" "take (length xs) (ws_wstats (sd_ws sd)) = xs"
    by (simp_all add: take_Suc_conv_app_nth)
  then show ?thesis
    using assms by (auto simp: pop_worker_stats_def stats_hold_def Let_def)
qed

section \<open>Properties\<close>

text \<open>
  C24. The results of the workers arrive in order: up to 2048 results put into an empty
  channel are returned by as many \<open>dequeue_result\<close> calls, first in first out, and the
  channel is empty again.
\<close>

theorem result_queue_fifo:
  assumes "results_inv sd []" "length rs \<le> CAPACITY"
  shows "\<exists>t. c_bind (enq_all enqueue_result rs sd) (deq_all (dequeue_result r) (length rs)) = Ret (rs, t) \<and> results_inv t []"
  using results.fifo_roundtrip [OF assms(1), of rs rs] assms(2) by (simp add: list_all2_refl)

theorem result_queue_fifo_witness:
  "\<exists>sd t. start_ipc True True True (\<lambda>_. True) 2 1024 2048 0 = (0, Some sd) \<and>
    c_bind (enq_all enqueue_result [zero_result] sd) (deq_all (dequeue_result zero_result) 1) = Ret ([zero_result], t)"
proof -
  obtain sd where sd: "start_ipc True True True (\<lambda>_. True) 2 1024 2048 0 = (0, Some sd)"
    using start_ipc_demo by blast
  show ?thesis
    using sd result_queue_fifo [OF start_ipc_inv(2) [OF sd], of "[zero_result]" zero_result] by auto
qed

text \<open>
  The statistics stack: a push followed by a pop gives the statistics back, and the
  stack is as before. A push on a full stack and a pop on an empty one fail and keep the
  mutex, after which no call on the stack returns.
\<close>

theorem worker_stats_stack:
  assumes "stats_hold sd xs"
  shows "(length xs < CAPACITY \<longrightarrow> (\<exists>t u. push_worker_stats w sd = Ret (0, t) \<and> stats_hold t (xs @ [w]) \<and>
      pop_worker_stats v t = Ret (0, w, u) \<and> stats_hold u xs)) \<and>
    (length xs = CAPACITY \<longrightarrow> (\<exists>t. push_worker_stats w sd = Ret (-1, t) \<and> pop_worker_stats v t = Diverge)) \<and>
    (xs = [] \<longrightarrow> (\<exists>t. pop_worker_stats v sd = Ret (-1, v, t) \<and> push_worker_stats w t = Diverge))"
proof (intro conjI impI)
  assume "length xs < CAPACITY"
  then show "\<exists>t u. push_worker_stats w sd = Ret (0, t) \<and> stats_hold t (xs @ [w]) \<and>
      pop_worker_stats v t = Ret (0, w, u) \<and> stats_hold u xs"
    using push_stats_ok [OF assms, of w] pop_stats_ok [of _ xs w v] by blast
qed (use assms in \<open>auto simp: stats_hold_def push_worker_stats_def pop_worker_stats_def\<close>)

theorem worker_stats_stack_witness:
  "\<exists>sd t u. push_worker_stats zero_stats sd = Ret (0, t) \<and> pop_worker_stats zero_stats t = Ret (0, zero_stats, u)"
proof -
  obtain sd where sd: "start_ipc True True True (\<lambda>_. True) 2 1024 2048 0 = (0, Some sd)"
    using start_ipc_demo by blast
  have "stats_hold sd []"
    using start_ipc_inv(3) [OF sd] by (simp add: stats_hold_def)
  from worker_stats_stack [OF this, of zero_stats zero_stats] show ?thesis
    by auto
qed

end
