(* ===== verification/Inv_Sched.thy ===== *)
theory Inv_Sched
  imports Inv_Queue
begin

text \<open>
  The queues of \<open>src/inv_ipc.c\<close> under every schedule. Each process is at one point of
  \<open>enqueue_job\<close>, \<open>dequeue_job\<close>, \<open>dequeue_result\<close> (\<open>enqueue_result\<close> has the same steps as
  \<open>enqueue_job\<close>) or of a section under the mutex alone, and a step of the system is one
  semaphore operation or one critical section of one process. A process that is killed
  just never moves again.
\<close>

section \<open>The transition system\<close>

datatype 'a pc =
    Idle
  | E_empty 'a | E_mutex 'a | E_body 'a | E_unlock | E_post
  | D_full | D_check | D_back | D_mutex | D_body | D_unlock | D_post
  | T_check | T_back | T_try
  | S_mutex | S_body

text \<open>
  The state of one queue: its channel, the counter of the header, whether \<open>active\<close> is
  \<open>'E'\<close>, and where every process is. \<open>q_in\<close> and \<open>q_out\<close> record what was put in and taken
  out so far.
\<close>

record 'a qsys =
  q_ch :: "'a channel"
  q_queued :: int
  q_ended :: bool
  q_pcs :: "'a pc list"
  q_in :: "'a list"
  q_out :: "'a list"

text \<open>
  What can happen: a process calls one of the functions, makes its next step, or \<open>active\<close>
  becomes \<open>'E'\<close>; \<open>Announce\<close> is one of the \<open>sem_post\<close> calls that wake the other processes
  up after that.
\<close>

datatype 'a qact = Enqueue nat 'a | Dequeue nat | Try_dequeue nat | Section nat | Step nat | Finish | Announce

definition goto :: "nat \<Rightarrow> 'a pc \<Rightarrow> 'a qsys \<Rightarrow> 'a qsys" where
  "goto i p s = s\<lparr>q_pcs := (q_pcs s)[i := p]\<rparr>"

definition on_ch :: "('a channel \<Rightarrow> 'a channel) \<Rightarrow> 'a qsys \<Rightarrow> 'a qsys" where
  "on_ch f s = s\<lparr>q_ch := f (q_ch s)\<rparr>"

definition after_wait :: "('a channel \<Rightarrow> 'a channel outcome) \<Rightarrow> nat \<Rightarrow> 'a pc \<Rightarrow> 'a qsys \<Rightarrow> 'a qsys option" where
  "after_wait w i p s = (case w (q_ch s) of Ret ch \<Rightarrow> Some (goto i p (s\<lparr>q_ch := ch\<rparr>)) | _ \<Rightarrow> None)"

definition q_step :: "nat \<Rightarrow> 'a qsys \<Rightarrow> 'a qsys option" where
  "q_step i s =
     (case q_pcs s ! i of
        Idle \<Rightarrow> None
      | E_empty x \<Rightarrow> after_wait wait_empty i (E_mutex x) s
      | E_mutex x \<Rightarrow> after_wait wait_mutex i (E_body x) s
      | E_body x \<Rightarrow> Some (goto i E_unlock (on_ch (ch_put x) s\<lparr>q_queued := q_queued s + 1, q_in := q_in s @ [x]\<rparr>))
      | E_unlock \<Rightarrow> Some (goto i E_post (on_ch post_mutex s))
      | E_post \<Rightarrow> Some (goto i Idle (on_ch post_full s))
      | D_full \<Rightarrow> after_wait wait_full i D_check s
      | D_check \<Rightarrow> Some (goto i (if q_ended s then D_back else D_mutex) s)
      | D_back \<Rightarrow> Some (goto i Idle (on_ch post_full s))
      | D_mutex \<Rightarrow> after_wait wait_mutex i D_body s
      | D_body \<Rightarrow> (let (x, ch) = ch_take (q_ch s) in
          Some (goto i D_unlock (s\<lparr>q_ch := ch, q_queued := q_queued s - 1, q_out := q_out s @ [x]\<rparr>)))
      | D_unlock \<Rightarrow> Some (goto i D_post (on_ch post_mutex s))
      | D_post \<Rightarrow> Some (goto i Idle (on_ch post_empty s))
      | T_check \<Rightarrow> Some (goto i (if q_ended s then T_back else T_try) s)
      | T_back \<Rightarrow> Some (goto i Idle (on_ch post_full s))
      | T_try \<Rightarrow> (case wait_full (q_ch s) of Ret ch \<Rightarrow> Some (goto i D_mutex (s\<lparr>q_ch := ch\<rparr>)) | _ \<Rightarrow> Some (goto i Idle s))
      | S_mutex \<Rightarrow> after_wait wait_mutex i S_body s
      | S_body \<Rightarrow> Some (goto i Idle (on_ch post_mutex s)))"

definition q_call :: "nat \<Rightarrow> 'a pc \<Rightarrow> 'a qsys \<Rightarrow> 'a qsys option" where
  "q_call i p s = (if i < length (q_pcs s) then case q_pcs s ! i of Idle \<Rightarrow> Some (goto i p s) | _ \<Rightarrow> None else None)"

fun q_next :: "'a qact \<Rightarrow> 'a qsys \<Rightarrow> 'a qsys option" where
  "q_next (Enqueue i x) s = q_call i (E_empty x) s"
| "q_next (Dequeue i) s = q_call i D_full s"
| "q_next (Try_dequeue i) s = q_call i T_check s"
| "q_next (Section i) s = q_call i S_mutex s"
| "q_next (Step i) s = (if i < length (q_pcs s) then q_step i s else None)"
| "q_next Finish s = Some (s\<lparr>q_ended := True\<rparr>)"
| "q_next Announce s = (if q_ended s then Some (on_ch post_full s) else None)"

text \<open>The states a schedule of allowed actions leads to.\<close>

inductive q_reach :: "('a qact \<Rightarrow> bool) \<Rightarrow> 'a qsys \<Rightarrow> 'a qsys \<Rightarrow> bool" for ok s where
  q_start: "q_reach ok s s"
| q_more: "q_reach ok s t \<Longrightarrow> ok a \<Longrightarrow> q_next a t = Some u \<Longrightarrow> q_reach ok s u"

text \<open>
  Jobs are dequeued by \<open>dequeue_job\<close> alone; results by \<open>dequeue_result\<close> alone, and here up
  to the moment \<open>active\<close> becomes \<open>'E'\<close>.
\<close>

fun job_act :: "job_t qact \<Rightarrow> bool" where
  "job_act (Try_dequeue i) = False"
| "job_act _ = True"

fun result_act :: "result qact \<Rightarrow> bool" where
  "result_act (Dequeue i) = False"
| "result_act Finish = False"
| "result_act Announce = False"
| "result_act _ = True"

definition q_init :: "'a channel \<Rightarrow> nat \<Rightarrow> 'a qsys" where
  "q_init ch n = \<lparr>q_ch = ch, q_queued = 0, q_ended = False, q_pcs = replicate n Idle, q_in = [], q_out = []\<rparr>"

section \<open>Counting processes\<close>

text \<open>
  The processes inside a critical section; those that hold a free place without having
  filled it, or have emptied one without giving it back; those that put an element whose
  token is still missing; those that hold the token of an element.
\<close>

fun in_section :: "'a pc \<Rightarrow> bool" where
  "in_section (E_body x) = True" | "in_section E_unlock = True" | "in_section D_body = True"
| "in_section D_unlock = True" | "in_section S_body = True" | "in_section _ = False"

fun holds_place :: "'a pc \<Rightarrow> bool" where
  "holds_place (E_mutex x) = True" | "holds_place (E_body x) = True"
| "holds_place D_unlock = True" | "holds_place D_post = True" | "holds_place _ = False"

fun unannounced :: "'a pc \<Rightarrow> bool" where
  "unannounced E_unlock = True" | "unannounced E_post = True" | "unannounced _ = False"

fun takes :: "'a pc \<Rightarrow> bool" where
  "takes D_mutex = True" | "takes D_body = True" | "takes _ = False"

fun checks :: "'a pc \<Rightarrow> bool" where
  "checks D_check = True" | "checks _ = False"

fun gives_back :: "'a pc \<Rightarrow> bool" where
  "gives_back D_back = True" | "gives_back T_back = True" | "gives_back _ = False"

fun tries :: "'a pc \<Rightarrow> bool" where
  "tries T_check = True" | "tries T_back = True" | "tries T_try = True" | "tries _ = False"

section \<open>The invariant\<close>

text \<open>
  \<open>q_inv b s xs\<close>: the queue holds \<open>xs\<close>. \<open>b\<close> says that the elements are dequeued by the
  blocking \<open>dequeue_job\<close>. As long as the system is not ended every element in the queue has
  a token in \<open>full\<close>, with a process that will post it, or with a process that will take
  it; after the end, processes past the check of \<open>active\<close> still take what they hold a token
  of.
\<close>

definition q_counts :: "bool \<Rightarrow> 'a qsys \<Rightarrow> int \<Rightarrow> bool" where
  "q_counts b s n \<longleftrightarrow>
     int (ch_mutex (q_ch s)) + cnt in_section (q_pcs s) = 1 \<and>
     int (ch_empty (q_ch s)) + cnt holds_place (q_pcs s) + n = int CAPACITY \<and>
     cnt takes (q_pcs s) \<le> n \<and>
     (b \<longrightarrow> cnt tries (q_pcs s) = 0) \<and> (\<not> b \<longrightarrow> \<not> q_ended s) \<and>
     (\<not> q_ended s \<longrightarrow> cnt gives_back (q_pcs s) = 0) \<and>
     (\<not> q_ended s \<longrightarrow> n = int (ch_full (q_ch s)) + cnt unannounced (q_pcs s) + cnt checks (q_pcs s) + cnt takes (q_pcs s))"

definition q_inv :: "bool \<Rightarrow> 'a qsys \<Rightarrow> 'a list \<Rightarrow> bool" where
  "q_inv b s xs \<longleftrightarrow>
     ch_holds (q_ch s) xs \<and> q_in s = q_out s @ xs \<and> q_queued s = int (length xs) \<and> q_counts b s (int (length xs))"

lemmas q_defs = goto_def on_ch_def after_wait_def wait_empty_def wait_full_def wait_mutex_def
  post_empty_def post_full_def post_mutex_def

lemmas cnt_positive =
  cnt_pos [where P = in_section] cnt_pos [where P = holds_place] cnt_pos [where P = unannounced]
  cnt_pos [where P = takes] cnt_pos [where P = checks] cnt_pos [where P = gives_back] cnt_pos [where P = tries]

lemma q_inv_init: "ch_holds ch [] \<Longrightarrow> ch_empty ch = CAPACITY \<Longrightarrow> ch_full ch = 0 \<Longrightarrow> ch_mutex ch = 1 \<Longrightarrow> q_inv b (q_init ch n) []"
  by (simp add: q_inv_def q_counts_def q_init_def)

lemma q_inv_call:
  assumes "q_inv b s xs" "q_call i p s = Some t" "p \<in> {D_full, T_check, S_mutex} \<or> (\<exists>x. p = E_empty x)" "p = T_check \<longrightarrow> \<not> b"
  shows "q_inv b t xs"
proof -
  have i: "i < length (q_pcs s)" "q_pcs s ! i = Idle" "t = goto i p s"
    using assms(2) by (auto simp: q_call_def split: if_splits pc.splits)
  have "q_counts b (goto i p s) n" if "q_counts b s n" for n
    using that assms(3,4) i(1,2) by (elim disjE insertE exE) (auto simp: q_counts_def goto_def)
  then show ?thesis
    using assms(1) by (simp add: q_inv_def i(3)) (simp add: goto_def)
qed

text \<open>
  What a step changes: the process \<open>i\<close> goes from \<open>p0\<close> to \<open>p\<close> and the semaphores change by
  the difference of what the two points stand for.
\<close>

definition moves :: "bool \<Rightarrow> 'a pc \<Rightarrow> 'a channel \<Rightarrow> 'a pc \<Rightarrow> 'a channel \<Rightarrow> bool" where
  "moves e p0 c0 p c \<longleftrightarrow>
     int (ch_mutex c) + of_bool (in_section p) = int (ch_mutex c0) + of_bool (in_section p0) \<and>
     int (ch_empty c) + of_bool (holds_place p) = int (ch_empty c0) + of_bool (holds_place p0) \<and>
     (takes p \<longrightarrow> takes p0 \<or> \<not> e) \<and> (tries p \<longrightarrow> tries p0) \<and> (gives_back p \<longrightarrow> e) \<and>
     (\<not> e \<longrightarrow> int (ch_full c) + of_bool (unannounced p) + of_bool (checks p) + of_bool (takes p) =
        int (ch_full c0) + of_bool (unannounced p0) + of_bool (checks p0) + of_bool (takes p0))"

lemma q_counts_move:
  assumes c: "q_counts b s n" and i: "i < length (q_pcs s)"
    and m: "moves (q_ended s) (q_pcs s ! i) (q_ch s) p ch"
    and t: "q_pcs t = (q_pcs s)[i := p]" "q_ch t = ch" "q_ended t = q_ended s"
  shows "q_counts b t n"
proof -
  have T: "b \<Longrightarrow> \<not> tries (q_pcs s ! i)"
    using c cnt_pos [OF i, of tries] by (auto simp: q_counts_def)
  have G: "\<not> q_ended s \<Longrightarrow> \<not> gives_back (q_pcs s ! i)"
    using c cnt_pos [OF i, of gives_back] by (auto simp: q_counts_def)
  note u = cnt_update [OF i, of _ p]
  have 1: "int (ch_mutex ch) + cnt in_section (q_pcs t) = 1" "int (ch_empty ch) + cnt holds_place (q_pcs t) + n = int CAPACITY"
    using c m unfolding t(1) u q_counts_def moves_def by linarith+
  have 2: "b \<longrightarrow> cnt tries (q_pcs t) = 0" "\<not> q_ended s \<longrightarrow> cnt gives_back (q_pcs t) = 0"
    using c m T G unfolding t(1) u q_counts_def moves_def by auto
  have 3: "\<not> q_ended s \<longrightarrow> n = int (ch_full ch) + cnt unannounced (q_pcs t) + cnt checks (q_pcs t) + cnt takes (q_pcs t)"
    using c m unfolding t(1) u q_counts_def moves_def by linarith
  have "cnt takes (q_pcs t) \<le> n"
  proof (cases "q_ended s")
    case True
    then show ?thesis
      using c m unfolding t(1) u q_counts_def moves_def by auto
  next
    case False
    then show ?thesis
      using 3 cnt_ge [of unannounced "q_pcs t"] cnt_ge [of checks "q_pcs t"] by linarith
  qed
  then show ?thesis
    using 1 2 3 c t by (simp add: q_counts_def)
qed

text \<open>The steps that leave the ring alone.\<close>

definition same_ring :: "'a qsys \<Rightarrow> 'a qsys \<Rightarrow> bool" where
  "same_ring s t \<longleftrightarrow> q_ended t = q_ended s \<and> q_in t = q_in s \<and> q_out t = q_out s \<and> q_queued t = q_queued s \<and>
     (\<forall>xs. ch_holds (q_ch t) xs = ch_holds (q_ch s) xs)"

lemma q_step_moves:
  assumes t: "q_step i s = Some t" and i: "i < length (q_pcs s)"
    and p: "q_pcs s ! i \<noteq> D_body" "\<And>x. q_pcs s ! i \<noteq> E_body x"
    and e: "q_pcs s ! i = T_try \<Longrightarrow> \<not> q_ended s" "gives_back (q_pcs s ! i) \<Longrightarrow> q_ended s"
  shows "moves (q_ended s) (q_pcs s ! i) (q_ch s) (q_pcs t ! i) (q_ch t) \<and>
    q_pcs t = (q_pcs s)[i := q_pcs t ! i] \<and> same_ring s t"
proof (cases "q_pcs s ! i")
  case (E_body x)
  then show ?thesis using p by blast
next
  case D_body
  then show ?thesis using p by blast
qed (use t i e in \<open>clarsimp simp: q_step_def q_defs split: if_splits; (simp add: moves_def same_ring_def)?\<close>)+

lemma q_inv_step:
  assumes inv: "q_inv b s xs" and i: "i < length (q_pcs s)" and t: "q_step i s = Some t"
  shows "\<exists>ys. q_inv b t ys"
proof -
  have c: "q_counts b s (int (length xs))" and h: "ch_holds (q_ch s) xs" "q_in s = q_out s @ xs" "q_queued s = int (length xs)"
    using inv by (simp_all add: q_inv_def)
  consider x where "q_pcs s ! i = E_body x" | "q_pcs s ! i = D_body" | "q_pcs s ! i \<noteq> D_body" "\<forall>x. q_pcs s ! i \<noteq> E_body x"
    by blast
  then show ?thesis
  proof cases
    case (1 x)
    have n: "int (length xs) < 2048"
      using c cnt_pos [OF i, of holds_place] 1 by (simp add: q_counts_def)
    have t': "t = goto i E_unlock (s\<lparr>q_ch := ch_put x (q_ch s), q_queued := q_queued s + 1, q_in := q_in s @ [x]\<rparr>)"
      using t 1 by (simp add: q_step_def on_ch_def)
    have "q_counts b t (int (length xs) + 1)"
      using c i 1 by (auto simp: q_counts_def t' goto_def)
    then show ?thesis
      using h n ch_holds_put [OF h(1), of x] by (intro exI [of _ "xs @ [x]"]) (simp add: q_inv_def t' goto_def add.commute)
  next
    case 2
    have "1 \<le> int (length xs)"
      using c cnt_pos [OF i, of takes] 2 by (simp add: q_counts_def)
    then obtain x ys where xs: "xs = x # ys"
      by (cases xs) auto
    note k = ch_holds_take [OF h(1) [unfolded xs]]
    have t': "t = goto i D_unlock (s\<lparr>q_ch := snd (ch_take (q_ch s)), q_queued := q_queued s - 1, q_out := q_out s @ [x]\<rparr>)"
      using t 2 k(1) by (auto simp: q_step_def split: prod.splits)
    have "q_counts b t (int (length ys))"
      using c i 2 by (auto simp: q_counts_def t' goto_def xs)
    then show ?thesis
      using h k(2) by (intro exI [of _ ys]) (simp add: q_inv_def t' goto_def xs)
  next
    case 3
    have "\<not> q_ended s" if "q_pcs s ! i = T_try"
      using c cnt_pos [OF i, of tries] that by (auto simp: q_counts_def)
    moreover have "q_ended s" if "gives_back (q_pcs s ! i)"
      using c cnt_pos [OF i, of gives_back] that by (auto simp: q_counts_def)
    ultimately have "moves (q_ended s) (q_pcs s ! i) (q_ch s) (q_pcs t ! i) (q_ch t) \<and>
        q_pcs t = (q_pcs s)[i := q_pcs t ! i] \<and> same_ring s t"
      using q_step_moves [OF t i 3(1)] 3(2) by blast
    then
    have m: "moves (q_ended s) (q_pcs s ! i) (q_ch s) (q_pcs t ! i) (q_ch t)" "q_pcs t = (q_pcs s)[i := q_pcs t ! i]" "same_ring s t"
      by blast+
    have "q_counts b t (int (length xs))"
      using m(3) by (intro q_counts_move [OF c i m(1) m(2) refl]) (simp add: same_ring_def)
    then show ?thesis
      using m(3) h by (intro exI [of _ xs]) (simp add: q_inv_def same_ring_def)
  qed
qed

section \<open>Reachable states\<close>

definition q_allowed :: "bool \<Rightarrow> 'a qact \<Rightarrow> bool" where
  "q_allowed b a \<longleftrightarrow>
     (if b then \<not> (\<exists>i. a = Try_dequeue i) else \<not> (\<exists>i. a = Dequeue i) \<and> a \<noteq> Finish \<and> a \<noteq> Announce)"

lemma q_inv_next:
  assumes "q_inv b s xs" "q_allowed b a" "q_next a s = Some t"
  shows "\<exists>ys. q_inv b t ys"
proof (cases a)
  case (Enqueue i x)
  then show ?thesis
    using assms(3) q_inv_call [OF assms(1), of i "E_empty x" t] by auto
next
  case (Step i)
  then show ?thesis
    using assms(3) q_inv_step [OF assms(1), of i t] by (auto split: if_splits)
next
  case Finish
  then show ?thesis
    using assms by (intro exI [of _ xs]) (auto simp: q_inv_def q_counts_def q_allowed_def)
next
  case Announce
  then show ?thesis
    using assms by (intro exI [of _ xs]) (auto simp: q_inv_def q_counts_def q_allowed_def on_ch_def post_full_def split: if_splits)
qed (use assms q_inv_call [OF assms(1)] in \<open>auto simp: q_allowed_def split: if_splits\<close>)

lemma q_inv_reach:
  assumes "q_reach ok s t" "q_inv b s xs" "\<And>a. ok a \<Longrightarrow> q_allowed b a"
  shows "\<exists>ys. q_inv b t ys"
  using assms by induction (blast intro: q_inv_next)+

lemma job_act_allowed: "job_act a \<Longrightarrow> q_allowed True a"
  by (cases a) (simp_all add: q_allowed_def)

lemma result_act_allowed: "result_act a \<Longrightarrow> q_allowed False a"
  by (cases a) (simp_all add: q_allowed_def)

text \<open>What the invariant gives for every reachable state.\<close>

definition fifo_state :: "'a qsys \<Rightarrow> bool" where
  "fifo_state s \<longleftrightarrow>
     (\<exists>xs. q_in s = q_out s @ xs \<and> length xs \<le> CAPACITY \<and> q_queued s = int (length xs) \<and> ch_holds (q_ch s) xs \<and>
       (\<forall>i j. i < length (q_pcs s) \<longrightarrow> j < length (q_pcs s) \<longrightarrow> in_section (q_pcs s ! i) \<longrightarrow> in_section (q_pcs s ! j) \<longrightarrow> i = j) \<and>
       (\<forall>i x. i < length (q_pcs s) \<longrightarrow> q_pcs s ! i = E_body x \<longrightarrow> length xs < CAPACITY) \<and>
       (\<forall>i. i < length (q_pcs s) \<longrightarrow> q_pcs s ! i = D_body \<longrightarrow> xs \<noteq> []))"

lemma q_inv_fifo: "q_inv b s xs \<Longrightarrow> fifo_state s"
proof -
  assume inv: "q_inv b s xs"
  then have c: "q_counts b s (int (length xs))" and h: "ch_holds (q_ch s) xs" "q_in s = q_out s @ xs" "q_queued s = int (length xs)"
    by (simp_all add: q_inv_def)
  have "i = j" if "i < length (q_pcs s)" "j < length (q_pcs s)" "in_section (q_pcs s ! i)" "in_section (q_pcs s ! j)" for i j
    using cnt_two [OF that(1,2) _ that(3,4)] c by (auto simp: q_counts_def)
  moreover have "length xs < 2048" if "i < length (q_pcs s)" "q_pcs s ! i = E_body x" for i x
    using c cnt_pos [OF that(1), of holds_place] that(2) by (simp add: q_counts_def)
  moreover have "xs \<noteq> []" if "i < length (q_pcs s)" "q_pcs s ! i = D_body" for i
    using c cnt_pos [OF that(1), of takes] that(2) by (auto simp: q_counts_def)
  moreover have "length xs \<le> 2048"
    using h(1) by (simp add: ch_holds_def)
  ultimately show ?thesis
    using h by (intro fifo_state_def [THEN iffD2] exI [of _ xs]) blast
qed

text \<open>A schedule as a list of actions.\<close>

fun q_run :: "'a qact list \<Rightarrow> 'a qsys \<Rightarrow> 'a qsys option" where
  "q_run [] s = Some s"
| "q_run (a # as) s = (case q_next a s of None \<Rightarrow> None | Some t \<Rightarrow> q_run as t)"

lemma q_run_reach: "q_run as t = Some u \<Longrightarrow> q_reach ok s t \<Longrightarrow> list_all ok as \<Longrightarrow> q_reach ok s u"
proof (induction "as" arbitrary: t)
  case (Cons a "as")
  then show ?case
    using q_more [of ok s t a] by (auto split: option.splits)
qed simp

text \<open>The queue of jobs and the channel of results as the shared memory holds them.\<close>

definition job_sys :: "shared_data \<Rightarrow> job_t pc list \<Rightarrow> job_t qsys" where
  "job_sys sd ps = \<lparr>q_ch = sd_jq sd, q_queued = h_queued_jobs (sd_hdr sd), q_ended = (h_active (sd_hdr sd) = ENDED),
     q_pcs = ps, q_in = [], q_out = []\<rparr>"

definition result_sys :: "shared_data \<Rightarrow> result pc list \<Rightarrow> result qsys" where
  "result_sys sd ps = \<lparr>q_ch = sd_rc sd, q_queued = h_queued_results (sd_hdr sd), q_ended = (h_active (sd_hdr sd) = ENDED),
     q_pcs = ps, q_in = [], q_out = []\<rparr>"

lemma start_sys:
  assumes "start_ipc True True True (\<lambda>_. True) workers max_depth capacity ms = (0, Some sd)"
  shows "q_inv b (job_sys sd (replicate n Idle)) []" "q_inv b (result_sys sd (replicate n Idle)) []"
  using start_ipc_inv(1,2) [OF assms]
  by (simp_all add: jobs_inv_def results_inv_def ch_idle_def q_inv_def q_counts_def job_sys_def result_sys_def)

section \<open>The functions as sequences of steps\<close>

text \<open>
  The steps of the transition system are those of the functions: the uninterrupted
  steps of a process that calls \<open>enqueue_result\<close> and \<open>dequeue_result\<close> do to the channel and
  to \<open>queued_results\<close> what the functions do.
\<close>

lemma result_functions_atomic:
  assumes "i < length ps" "ps ! i = Idle"
  shows "(\<forall>t. enqueue_result res sd = Ret (0, t) \<longrightarrow>
      (\<exists>s. q_run (Enqueue i res # replicate 5 (Step i)) (result_sys sd ps) = Some s \<and>
        s = result_sys t ps\<lparr>q_in := [res], q_out := []\<rparr>)) \<and>
    (\<forall>r t. dequeue_result res sd = Ret (0, r, t) \<longrightarrow>
      (\<exists>s. q_run (Try_dequeue i # replicate 6 (Step i)) (result_sys sd ps) = Some s \<and>
        s = result_sys t ps\<lparr>q_in := [], q_out := [r]\<rparr>))"
proof -
  have idle: "ps[i := Idle] = ps"
    using assms by (metis list_update_id)
  have r: "replicate 5 (Step i) = [Step i, Step i, Step i, Step i, Step i]"
    "replicate 6 (Step i) = [Step i, Step i, Step i, Step i, Step i, Step i]"
    by (simp_all add: numeral_eq_Suc)
  show ?thesis
    unfolding r using assms idle
    by (auto simp: enqueue_result_def dequeue_result_def result_sys_def q_call_def q_step_def q_defs Let_def
        set_queued_results_def ch_put_def ch_take_def split: if_splits outcome.splits)
qed

section \<open>Properties\<close>

text \<open>
  C10. The job queue under every schedule of any number of processes, before and after the
  end of the inventory: what was taken out is the beginning of what was put in, in the same
  order; the rest, at most 2048 jobs, is what the queue holds, and \<open>queued_jobs\<close> counts it;
  never are two processes in a critical section, a job is never put into a full queue and
  never taken from an empty one.
\<close>

theorem job_queue_safe:
  assumes "start_ipc True True True (\<lambda>_. True) workers max_depth capacity ms = (0, Some sd)"
    and "q_reach job_act (job_sys sd (replicate n Idle)) s"
  shows "fifo_state s"
  using q_inv_reach [OF assms(2) start_sys(1) [OF assms(1)] job_act_allowed] q_inv_fifo by blast

theorem job_queue_safe_witness:
  "\<exists>sd s. start_ipc True True True (\<lambda>_. True) 2 1024 2048 0 = (0, Some sd) \<and>
    q_run [Enqueue 0 zero_job, Dequeue 1, Step 0, Step 0, Finish] (job_sys sd (replicate 2 Idle)) = Some s \<and> fifo_state s"
proof -
  obtain sd where sd: "start_ipc True True True (\<lambda>_. True) 2 1024 2048 0 = (0, Some sd)"
    using start_ipc_demo by blast
  have c: "ch_empty (sd_jq sd) = 2048" "ch_mutex (sd_jq sd) = 1"
    using start_ipc_inv(1) [OF sd] by (simp_all add: jobs_inv_def ch_idle_def)
  let ?as = "[Enqueue 0 zero_job, Dequeue 1, Step 0, Step 0, Finish]"
  obtain s where s: "q_run ?as (job_sys sd (replicate 2 Idle)) = Some s"
    using c by (simp add: job_sys_def q_call_def q_step_def q_defs numeral_2_eq_2)
  have "q_reach job_act (job_sys sd (replicate 2 Idle)) s"
    by (rule q_run_reach [OF s q_start]) simp
  from job_queue_safe [OF sd this] sd s show ?thesis
    by blast
qed

text \<open>
  C20. The channel of results under every schedule up to the moment the inventory ends has
  the same guarantees.
\<close>

theorem result_queue_safe:
  assumes "start_ipc True True True (\<lambda>_. True) workers max_depth capacity ms = (0, Some sd)"
    and "q_reach result_act (result_sys sd (replicate n Idle)) s"
  shows "fifo_state s"
  using q_inv_reach [OF assms(2) start_sys(2) [OF assms(1)] result_act_allowed] q_inv_fifo by blast

theorem result_queue_safe_witness:
  "\<exists>sd s. start_ipc True True True (\<lambda>_. True) 2 1024 2048 0 = (0, Some sd) \<and>
    q_run [Enqueue 0 zero_result, Try_dequeue 1, Step 0, Step 1] (result_sys sd (replicate 2 Idle)) = Some s \<and> fifo_state s"
proof -
  obtain sd where sd: "start_ipc True True True (\<lambda>_. True) 2 1024 2048 0 = (0, Some sd)"
    using start_ipc_demo by blast
  have c: "ch_empty (sd_rc sd) = 2048" "ch_mutex (sd_rc sd) = 1"
    using start_ipc_inv(2) [OF sd] by (simp_all add: results_inv_def ch_idle_def)
  let ?as = "[Enqueue 0 zero_result, Try_dequeue 1, Step 0, Step 1]"
  obtain s where s: "q_run ?as (result_sys sd (replicate 2 Idle)) = Some s"
    using c by (simp add: result_sys_def q_call_def q_step_def q_defs numeral_2_eq_2)
  have "q_reach result_act (result_sys sd (replicate 2 Idle)) s"
    by (rule q_run_reach [OF s q_start]) simp
  from result_queue_safe [OF sd this] sd s show ?thesis
    by blast
qed

text \<open>
  C18. The end of the inventory breaks them. The manager, process 0, has passed the test of
  \<open>active\<close> in \<open>dequeue_result\<close> when the last worker sets \<open>active\<close> to \<open>'E'\<close> and posts
  \<open>result_full\<close> to wake it up; its \<open>sem_trywait\<close> then succeeds although the channel is
  empty, and it takes a result nobody emitted. Head and tail of the ring then differ, and
  \<open>queued_results\<close> is -1.
\<close>

theorem stale_result:
  assumes "results_inv sd []"
  shows "\<exists>s. q_run [Try_dequeue 0, Step 0, Finish, Announce, Step 0, Step 0, Step 0]
      (result_sys sd (replicate 2 Idle)) = Some s \<and>
    q_in s = [] \<and> q_out s = [ch_slots (sd_rc sd) ! ch_head (sd_rc sd)] \<and> q_queued s = -1 \<and>
    ch_head (q_ch s) \<noteq> ch_tail (q_ch s)"
proof -
  have c: "ch_full (sd_rc sd) = 0" "ch_mutex (sd_rc sd) = 1" "ch_tail (sd_rc sd) = ch_head (sd_rc sd)" "ch_head (sd_rc sd) < 2048"
    "h_active (sd_hdr sd) \<noteq> ENDED" "h_queued_results (sd_hdr sd) = 0"
    using assms by (simp_all add: results_inv_def ch_idle_def ch_holds_def)
  have "(ch_head (sd_rc sd) + 1) mod 2048 \<noteq> ch_head (sd_rc sd)"
    using c(4) by (simp add: mod_Suc)
  then show ?thesis
    using c by (simp add: result_sys_def q_call_def q_step_def q_defs numeral_2_eq_2 ch_take_def)
qed

theorem stale_result_witness:
  "\<exists>sd s. start_ipc True True True (\<lambda>_. True) 2 1024 2048 0 = (0, Some sd) \<and>
    q_run [Try_dequeue 0, Step 0, Finish, Announce, Step 0, Step 0, Step 0]
      (result_sys sd (replicate 2 Idle)) = Some s \<and> q_in s = [] \<and> length (q_out s) = 1"
proof -
  obtain sd where sd: "start_ipc True True True (\<lambda>_. True) 2 1024 2048 0 = (0, Some sd)"
    using start_ipc_demo by blast
  from stale_result [OF start_ipc_inv(2) [OF sd]] sd show ?thesis
    by auto
qed

end
