(* ===== verification/Inv_Protocol.thy ===== *)
theory Inv_Protocol
  imports Inv_Queue
begin

text \<open>
  The end of the inventory under every schedule: the main loops of the workers,
  \<open>src/main_fileops_worker.c\<close>, with the steps between which another worker can run.
  \<open>active\<close> becomes \<open>'E'\<close> when a worker leaves its job and finds no active and no queued
  job, when a worker that fails is the last active one, whatever is queued, and when the
  manager shuts the inventory down. A job that was taken from the queue is counted as
  active only in the next critical section, so a worker between the two is overlooked.
\<close>

section \<open>The transition system\<close>

text \<open>
  Where a worker is: before \<open>dequeue_job\<close>; behind its wait on \<open>job_full\<close>; behind its test
  of \<open>active\<close>; with a job that is not counted yet; with a job and the directories it has
  still to put into the queue; behind the main loop and its \<open>cleanup\<close>. \<open>p_failed\<close> and
  \<open>p_stopped\<close> record that a worker has failed and that the manager has shut down.
\<close>

datatype wpc = W_wait | W_woken | W_claimed | W_taken job_t | W_busy job_t "job_t list" | W_exited

record psys =
  p_queue :: "job_t list"
  p_full :: nat
  p_active :: int
  p_ended :: bool
  p_pcs :: "wpc list"
  p_done :: "job_t list"
  p_failed :: bool
  p_stopped :: bool

definition at :: "nat \<Rightarrow> wpc \<Rightarrow> psys \<Rightarrow> psys" where
  "at i pc s = s\<lparr>p_pcs := (p_pcs s)[i := pc]\<rparr>"

text \<open>
  \<open>active\<close> becomes \<open>'E'\<close> and \<open>job_full\<close> is posted once per worker. (The extra post of
  \<open>result_full\<close> is one of the manager's queue, theory \<open>Inv_Sched\<close>.)
\<close>

definition p_end :: "psys \<Rightarrow> psys" where
  "p_end s = s\<lparr>p_ended := True, p_full := p_full s + length (p_pcs s)\<rparr>"

text \<open>
  The step of worker \<open>i\<close> when all goes well; \<open>children\<close> are the directories in the directory
  of a job. \<open>enqueue_job\<close> waits while the ring is full.
\<close>

definition p_step :: "(job_t \<Rightarrow> job_t list) \<Rightarrow> nat \<Rightarrow> psys \<Rightarrow> psys option" where
  "p_step children i s =
     (case p_pcs s ! i of
        W_wait \<Rightarrow> if p_full s = 0 then None else Some (at i W_woken (s\<lparr>p_full := p_full s - 1\<rparr>))
      | W_woken \<Rightarrow>
          if p_ended s then Some (at i W_exited (s\<lparr>p_full := p_full s + 1\<rparr>)) else Some (at i W_claimed s)
      | W_claimed \<Rightarrow>
          (case p_queue s of [] \<Rightarrow> None | j # q \<Rightarrow> Some (at i (W_taken j) (s\<lparr>p_queue := q\<rparr>)))
      | W_taken j \<Rightarrow> Some (at i (W_busy j (children j)) (s\<lparr>p_active := p_active s + 1\<rparr>))
      | W_busy j (k # ks) \<Rightarrow>
          if CAPACITY \<le> length (p_queue s) then None
          else Some (at i (W_busy j ks) (s\<lparr>p_queue := p_queue s @ [k], p_full := p_full s + 1\<rparr>))
      | W_busy j [] \<Rightarrow>
          (let s = at i W_wait (s\<lparr>p_active := p_active s - 1, p_done := p_done s @ [j]\<rparr>) in
           if p_active s = 0 \<and> p_queue s = [] then Some (p_end s) else Some s)
      | W_exited \<Rightarrow> None)"

text \<open>
  Worker \<open>i\<close> fails while it works on a job: every \<open>goto cleanup\<close> of the loop. The job is
  given up, and the last active worker ends the inventory without a look at the queue.
\<close>

definition p_fail :: "nat \<Rightarrow> psys \<Rightarrow> psys option" where
  "p_fail i s =
     (case p_pcs s ! i of
        W_busy j ks \<Rightarrow>
          (let s = at i W_exited (s\<lparr>p_active := p_active s - 1, p_failed := True\<rparr>) in
           if p_active s = 0 then Some (p_end s) else Some s)
      | _ \<Rightarrow> None)"

text \<open>Worker \<open>i\<close> finds \<open>flag_sigterm\<close> set at the head of its loop.\<close>

definition p_term :: "nat \<Rightarrow> psys \<Rightarrow> psys option" where
  "p_term i s = (case p_pcs s ! i of W_wait \<Rightarrow> Some (at i W_exited s) | _ \<Rightarrow> None)"

text \<open>
  What can happen: a step, a failure or a signal of a worker, or the shutdown by the
  manager, which ends the inventory at any time. A killed worker just never moves again.
\<close>

datatype p_act = Work nat | Fail nat | Term nat | Shut

fun p_next :: "(job_t \<Rightarrow> job_t list) \<Rightarrow> p_act \<Rightarrow> psys \<Rightarrow> psys option" where
  "p_next children (Work i) s = (if i < length (p_pcs s) then p_step children i s else None)"
| "p_next children (Fail i) s = (if i < length (p_pcs s) then p_fail i s else None)"
| "p_next children (Term i) s = (if i < length (p_pcs s) then p_term i s else None)"
| "p_next children Shut s = Some (p_end (s\<lparr>p_stopped := True\<rparr>))"

fun is_taken :: "wpc \<Rightarrow> bool" where
  "is_taken (W_taken j) = True"
| "is_taken _ = False"

fun is_busy :: "wpc \<Rightarrow> bool" where
  "is_busy (W_busy j ks) = True"
| "is_busy _ = False"

fun has_token :: "wpc \<Rightarrow> bool" where
  "has_token W_woken = True"
| "has_token W_claimed = True"
| "has_token _ = False"

text \<open>
  A worker leaves its job while another one has a job that is not counted yet: the step the
  protocol does not order.
\<close>

definition overlooks :: "nat \<Rightarrow> psys \<Rightarrow> bool" where
  "overlooks i s \<longleftrightarrow> (\<exists>j. p_pcs s ! i = W_busy j []) \<and> cnt is_taken (p_pcs s) \<noteq> 0"

fun in_order :: "p_act \<Rightarrow> psys \<Rightarrow> bool" where
  "in_order (Work i) s \<longleftrightarrow> \<not> overlooks i s"
| "in_order _ s \<longleftrightarrow> True"

text \<open>The states a schedule leads to whose actions are all allowed where they happen.\<close>

inductive p_reach :: "(job_t \<Rightarrow> job_t list) \<Rightarrow> (p_act \<Rightarrow> psys \<Rightarrow> bool) \<Rightarrow> psys \<Rightarrow> psys \<Rightarrow> bool" for children ok s where
  p_start: "p_reach children ok s s"
| p_more: "p_reach children ok s t \<Longrightarrow> ok a t \<Longrightarrow> p_next children a t = Some u \<Longrightarrow> p_reach children ok s u"

text \<open>The state the manager leaves to \<open>n\<close> workers.\<close>

definition p_init :: "job_t \<Rightarrow> nat \<Rightarrow> psys" where
  "p_init root n = \<lparr>p_queue = [root], p_full = 1, p_active = 0, p_ended = False, p_pcs = replicate n W_wait, p_done = [],
     p_failed = False, p_stopped = False\<rparr>"

fun p_run :: "(job_t \<Rightarrow> job_t list) \<Rightarrow> nat list \<Rightarrow> psys \<Rightarrow> psys option" where
  "p_run children [] s = Some s"
| "p_run children (i # is) s =
     (if i < length (p_pcs s) then case p_step children i s of None \<Rightarrow> None | Some t \<Rightarrow> p_run children is t else None)"

section \<open>The invariant\<close>

text \<open>The jobs that were put into the queue so far and not lost.\<close>

definition has_job :: "wpc \<Rightarrow> job_t \<Rightarrow> bool" where
  "has_job pc j \<longleftrightarrow> pc = W_taken j \<or> (\<exists>ks. pc = W_busy j ks)"

definition known :: "psys \<Rightarrow> job_t set" where
  "known s = set (p_done s) \<union> set (p_queue s) \<union> {j. \<exists>pc \<in> set (p_pcs s). has_job pc j}"

text \<open>
  Every directory found is known: the root, those in the directories that are done, and of
  a directory in work those that are not still to be put into the queue.
\<close>

definition complete :: "(job_t \<Rightarrow> job_t list) \<Rightarrow> job_t \<Rightarrow> psys \<Rightarrow> bool" where
  "complete children root s \<longleftrightarrow>
     root \<in> known s \<and> (\<forall>j \<in> set (p_done s). set (children j) \<subseteq> known s) \<and>
     (\<forall>j ks. W_busy j ks \<in> set (p_pcs s) \<longrightarrow> set (children j) \<subseteq> known s \<union> set ks)"

lemma held_update:
  assumes "i < length pcs" "pc \<in> set pcs" "has_job pc j"
  shows "(\<exists>pc \<in> set (pcs[i := x]). has_job pc j) \<or> has_job (pcs ! i) j \<and> \<not> has_job x j"
proof -
  obtain k where k: "k < length pcs" "pcs ! k = pc"
    using assms(2) by (auto simp: in_set_conv_nth)
  show ?thesis
  proof (cases "k = i")
    case True
    then show ?thesis
      using assms k set_update_memI [OF assms(1), of x] by blast
  next
    case False
    then have "pc \<in> set (pcs[i := x])"
      using k by (metis in_set_conv_nth length_list_update nth_list_update_neq)
    then show ?thesis
      using assms(3) by blast
  qed
qed

lemma completeI:
  assumes "complete children root s" "known s \<subseteq> known t"
    and "\<And>j. j \<in> set (p_done t) \<Longrightarrow> j \<in> set (p_done s) \<or> set (children j) \<subseteq> known t"
    and "\<And>j ks. W_busy j ks \<in> set (p_pcs t) \<Longrightarrow> W_busy j ks \<in> set (p_pcs s) \<or> set (children j) \<subseteq> known t \<union> set ks"
  shows "complete children root t"
  using assms unfolding complete_def by blast

text \<open>A step that changes the place of one worker, and what it holds only as the queue or the log shows.\<close>

lemma known_at:
  assumes "i < length (p_pcs s)" "p_pcs t = (p_pcs s)[i := pc]" "set (p_done s) \<subseteq> set (p_done t)"
    and "\<And>j. j \<in> set (p_queue s) \<Longrightarrow> j \<in> set (p_queue t) \<or> has_job pc j"
    and "\<And>j. has_job (p_pcs s ! i) j \<Longrightarrow> has_job pc j \<or> j \<in> set (p_done t)"
  shows "known s \<subseteq> known t"
proof
  fix j
  assume "j \<in> known s"
  then consider "j \<in> set (p_done s)" | "j \<in> set (p_queue s)" | pc' where "pc' \<in> set (p_pcs s)" "has_job pc' j"
    by (auto simp: known_def)
  then show "j \<in> known t"
  proof cases
    case 2
    then show ?thesis
      using assms(1,2,4) set_update_memI [OF assms(1), of pc] by (auto simp: known_def)
  next
    case 3
    then show ?thesis
      using held_update [OF assms(1) 3, of pc] assms(2,5) by (auto simp: known_def)
  qed (use assms(3) in \<open>auto simp: known_def\<close>)
qed

lemma complete_moved:
  assumes c: "complete children root s" and i: "i < length (p_pcs s)" and t: "p_pcs t = (p_pcs s)[i := x]"
    and "set (p_done s) \<subseteq> set (p_done t)" "\<And>j. j \<in> set (p_queue s) \<Longrightarrow> j \<in> set (p_queue t) \<or> has_job x j"
    and "\<And>j. has_job (p_pcs s ! i) j \<Longrightarrow> has_job x j \<or> j \<in> set (p_done t)"
    and d: "\<And>j. j \<in> set (p_done t) \<Longrightarrow> j \<in> set (p_done s) \<or> set (children j) \<subseteq> known s"
    and b: "\<And>j ks. x = W_busy j ks \<Longrightarrow> set (children j) \<subseteq> known s \<union> set (p_queue t) \<union> set ks"
  shows "complete children root t"
proof (rule completeI [OF c])
  show k: "known s \<subseteq> known t"
    by (rule known_at [OF i t assms(4-6)])
  show "j \<in> set (p_done s) \<or> set (children j) \<subseteq> known t" if "j \<in> set (p_done t)" for j
    using d [OF that] k by blast
  have q: "set (p_queue t) \<subseteq> known t"
    by (auto simp: known_def)
  show "W_busy j ks \<in> set (p_pcs s) \<or> set (children j) \<subseteq> known t \<union> set ks" if "W_busy j ks \<in> set (p_pcs t)" for j ks
    using that b [of j ks] k q set_update_subset_insert [of "p_pcs s" i x] unfolding t by blast
qed

lemma p_step_complete:
  assumes c: "complete children root s" and i: "i < length (p_pcs s)" and t: "p_step children i s = Some t"
  shows "complete children root t"
proof (cases "p_pcs s ! i")
  case (W_busy j ks)
  have "W_busy j ks \<in> set (p_pcs s)"
    using i W_busy by (metis nth_mem)
  then have b: "set (children j) \<subseteq> known s \<union> set ks"
    using c unfolding complete_def by blast
  show ?thesis
  proof (cases ks)
    case Nil
    show ?thesis
      by (rule complete_moved [OF c i, where x = W_wait])
        (use t W_busy Nil b in \<open>auto simp: p_step_def p_end_def at_def Let_def has_job_def split: if_splits\<close>)
  next
    case (Cons k ks')
    show ?thesis
      by (rule complete_moved [OF c i, where x = "W_busy j ks'"])
        (use t W_busy Cons b in \<open>auto simp: p_step_def at_def has_job_def split: if_splits\<close>)
  qed
next
  case W_claimed
  then obtain j q where "p_queue s = j # q" "t = at i (W_taken j) (s\<lparr>p_queue := q\<rparr>)"
    using t by (auto simp: p_step_def split: list.splits)
  then show ?thesis
    by (intro complete_moved [OF c i, where x = "W_taken j"]) (auto simp: at_def has_job_def W_claimed)
next
  case (W_taken j)
  show ?thesis
    by (rule complete_moved [OF c i, where x = "W_busy j (children j)"])
      (use t W_taken in \<open>auto simp: p_step_def at_def has_job_def\<close>)
next
  case W_wait
  show ?thesis
    by (rule complete_moved [OF c i, where x = W_woken])
      (use t W_wait in \<open>auto simp: p_step_def at_def has_job_def split: if_splits\<close>)
next
  case W_woken
  show ?thesis
    by (rule complete_moved [OF c i, where x = "if p_ended s then W_exited else W_claimed"])
      (use t W_woken in \<open>auto simp: p_step_def at_def has_job_def split: if_splits\<close>)
qed (use t in \<open>simp add: p_step_def\<close>)

text \<open>The counters.\<close>

definition counters :: "psys \<Rightarrow> bool" where
  "counters s \<longleftrightarrow> p_active s = cnt is_busy (p_pcs s) \<and>
     (if p_ended s
      then p_queue s = [] \<and> (\<forall>pc \<in> set (p_pcs s). \<not> is_taken pc \<and> \<not> is_busy pc \<and> pc \<noteq> W_claimed)
      else int (p_full s) + cnt has_token (p_pcs s) = int (length (p_queue s)))"

lemma cnt_none: "cnt P ps = 0 \<longleftrightarrow> (\<forall>p \<in> set ps. \<not> P p)"
  by (simp add: cnt_def filter_empty_conv)

lemma p_step_running:
  assumes c: "counters s" and i: "i < length (p_pcs s)" and t: "p_step children i s = Some t" and e: "\<not> p_ended s"
    and o: "\<not> overlooks i s"
  shows "counters t"
proof (cases "p_pcs s ! i")
  case (W_busy j ks)
  show ?thesis
  proof (cases ks)
    case Nil
    show ?thesis
    proof (cases "p_active s = 1 \<and> p_queue s = []")
      case True
      let ?t = "(p_pcs s)[i := W_wait]"
      have "int (p_full s) + cnt has_token (p_pcs s) = 0"
        using c e True by (simp add: counters_def)
      then have h: "cnt has_token (p_pcs s) = 0" "p_full s = 0"
        using cnt_ge [of has_token "p_pcs s"] by linarith+
      have n: "cnt is_taken ?t = 0" "cnt is_busy ?t = 0" "cnt has_token ?t = 0"
        using c o e i W_busy Nil True h(1) by (simp_all add: counters_def overlooks_def)
      then have "\<forall>pc \<in> set ?t. \<not> is_taken pc \<and> \<not> is_busy pc \<and> pc \<noteq> W_claimed"
        unfolding cnt_none by auto
      then show ?thesis
        using t i W_busy Nil True n(2) by (auto simp: p_step_def p_end_def at_def counters_def)
    next
      case False
      then show ?thesis
        using c t i W_busy Nil e by (auto simp: p_step_def at_def counters_def Let_def)
    qed
  qed (use c t i W_busy e in \<open>auto simp: p_step_def at_def counters_def split: if_splits\<close>)
qed (use c t i e in \<open>auto simp: p_step_def at_def counters_def split: if_splits list.splits\<close>)

lemma counters_ended:
  assumes "counters s" "p_ended s" "i < length (p_pcs s)" "x = W_woken \<or> x = W_exited"
  shows "counters (at i x (s\<lparr>p_full := k\<rparr>))"
proof -
  have n: "\<forall>pc \<in> set (p_pcs s). \<not> is_taken pc \<and> \<not> is_busy pc \<and> pc \<noteq> W_claimed"
    using assms(1,2) by (simp add: counters_def)
  have "\<not> is_busy (p_pcs s ! i)"
    using n assms(3) by simp
  moreover have "\<forall>pc \<in> set ((p_pcs s)[i := x]). \<not> is_taken pc \<and> \<not> is_busy pc \<and> pc \<noteq> W_claimed"
    using n assms(4) set_update_subset_insert [of "p_pcs s" i x] by auto
  ultimately show ?thesis
    using assms by (auto simp: counters_def at_def)
qed

lemma p_step_ended:
  assumes c: "counters s" and i: "i < length (p_pcs s)" and t: "p_step children i s = Some t" and e: "p_ended s"
  shows "counters t"
proof (cases "p_pcs s ! i")
  case W_wait
  then show ?thesis
    using t counters_ended [OF c e i, of W_woken] by (auto simp: p_step_def split: if_splits)
next
  case W_woken
  then show ?thesis
    using t e counters_ended [OF c e i, of W_exited] by (auto simp: p_step_def)
next
  case W_exited
  then show ?thesis
    using t by (simp add: p_step_def)
qed (use c e nth_mem [OF i] in \<open>force simp: counters_def\<close>)+

lemma counters_next:
  "counters s \<Longrightarrow> i < length (p_pcs s) \<Longrightarrow> p_step children i s = Some t \<Longrightarrow> \<not> overlooks i s \<Longrightarrow> counters t"
  using p_step_running p_step_ended by (cases "p_ended s") blast+

text \<open>A worker that waits may leave.\<close>

lemma p_term_inv:
  assumes "complete children root s" "counters s" and i: "i < length (p_pcs s)" and t: "p_term i s = Some t"
  shows "complete children root t \<and> counters t"
proof
  have p: "p_pcs s ! i = W_wait" "t = at i W_exited s"
    using t by (simp_all add: p_term_def split: wpc.splits)
  show "complete children root t"
    by (rule complete_moved [OF assms(1) i, where x = W_exited]) (auto simp: p at_def has_job_def)
  show "counters t"
    using assms(2) i p(1) counters_ended [OF assms(2) _ i, of W_exited "p_full s"]
    by (cases "p_ended s") (auto simp: p(2) counters_def at_def)
qed

text \<open>Schedules in order in which no worker has failed and the manager has not shut down.\<close>

definition undisturbed :: "psys \<Rightarrow> bool" where
  "undisturbed s \<longleftrightarrow> \<not> p_failed s \<and> \<not> p_stopped s"

lemma undisturbed_next:
  assumes "p_next children a t = Some u" "undisturbed u"
  shows "undisturbed t" "\<exists>i. i < length (p_pcs t) \<and> (a = Work i \<or> a = Term i)"
proof -
  show "undisturbed t"
    using assms by (cases a) (auto simp: undisturbed_def p_step_def p_fail_def p_term_def p_end_def at_def Let_def
        split: if_splits wpc.splits list.splits)
  show "\<exists>i. i < length (p_pcs t) \<and> (a = Work i \<or> a = Term i)"
    using assms by (cases a) (auto simp: undisturbed_def p_fail_def p_end_def at_def Let_def split: if_splits wpc.splits)
qed

lemma p_reach_inv:
  assumes "p_reach children in_order s t" "complete children root s" "counters s" "undisturbed t"
  shows "complete children root t \<and> counters t"
  using assms
proof induction
  case (p_more t a u)
  note d = undisturbed_next [OF p_more.hyps(3) p_more.prems(3)]
  note IH = p_more.IH [OF p_more.prems(1,2) d(1)]
  obtain i where i: "i < length (p_pcs t)" "a = Work i \<or> a = Term i"
    using d(2) by blast
  then show ?case
    using p_more.hyps(2,3) IH p_term_inv [of children root t i u] p_step_complete [of children root t i u]
      counters_next [of t i children u] by auto
qed simp

text \<open>
  After the end a token is left for everybody who waits: in the semaphore, or with a worker
  that has just taken it and will post it again.
\<close>

lemma p_next_length: "p_next children a s = Some t \<Longrightarrow> length (p_pcs t) = length (p_pcs s)"
  by (cases a) (auto simp: p_step_def p_fail_def p_term_def p_end_def at_def Let_def
      split: if_splits wpc.splits list.splits)

definition token_left :: "psys \<Rightarrow> bool" where
  "token_left s \<longleftrightarrow> p_ended s \<longrightarrow> 1 \<le> int (p_full s) + cnt (\<lambda>pc. pc = W_woken) (p_pcs s)"

lemma p_end_token: "p_pcs s \<noteq> [] \<Longrightarrow> token_left (p_end s)"
  using cnt_ge [of "\<lambda>pc. pc = W_woken" "p_pcs s"] by (cases "p_pcs s") (auto simp: token_left_def p_end_def)

lemma p_step_token:
  assumes s: "token_left s" and i: "i < length (p_pcs s)" and t: "p_step children i s = Some t"
  shows "token_left t"
proof (cases "\<exists>j. p_pcs s ! i = W_busy j []")
  case True
  then obtain j where j: "p_pcs s ! i = W_busy j []"
    by blast
  let ?s = "at i W_wait (s\<lparr>p_active := p_active s - 1, p_done := p_done s @ [j]\<rparr>)"
  have "token_left ?s" "p_pcs ?s \<noteq> []"
    using s i j by (auto simp: token_left_def at_def)
  then show ?thesis
    using t j p_end_token [of ?s] by (auto simp: p_step_def Let_def split: if_splits)
next
  case False
  then show ?thesis
    using s t i by (auto simp: p_step_def token_left_def at_def split: wpc.splits if_splits list.splits)
qed

lemma p_next_token:
  assumes s: "token_left s" "p_pcs s \<noteq> []" and t: "p_next children a s = Some t"
  shows "token_left t \<and> p_pcs t \<noteq> []"
proof (cases a)
  case (Work i)
  have "p_pcs t \<noteq> []"
    using t s(2) Work by (auto simp: p_step_def p_end_def at_def Let_def split: wpc.splits if_splits list.splits)
  then show ?thesis
    using p_step_token [OF s(1)] t Work by (auto split: if_splits)
next
  case (Fail i)
  then obtain j ks where j: "p_pcs s ! i = W_busy j ks" "i < length (p_pcs s)"
    using t by (auto simp: p_fail_def split: if_splits wpc.splits)
  let ?s = "at i W_exited (s\<lparr>p_active := p_active s - 1, p_failed := True\<rparr>)"
  have k: "token_left ?s" "p_pcs ?s \<noteq> []"
    using s j by (auto simp: token_left_def at_def)
  have "t = ?s \<or> t = p_end ?s"
    using t Fail j by (auto simp: p_fail_def Let_def split: if_splits)
  then show ?thesis
    using k p_end_token [OF k(2)] by (auto simp: p_end_def)
next
  case (Term i)
  then show ?thesis
    using s t by (auto simp: p_term_def token_left_def at_def split: if_splits wpc.splits)
next
  case Shut
  then show ?thesis
    using s t p_end_token [of "s\<lparr>p_stopped := True\<rparr>"] by (auto simp: p_end_def)
qed

lemma p_reach_token: "p_reach children ok s t \<Longrightarrow> token_left s \<Longrightarrow> p_pcs s \<noteq> [] \<Longrightarrow> token_left t \<and> p_pcs t \<noteq> []"
  by (induction rule: p_reach.induct) (blast dest: p_next_token)+

lemma p_init_inv: "complete children root (p_init root n)" "counters (p_init root n)" "token_left (p_init root n)"
  by (auto simp: p_init_def complete_def known_def counters_def token_left_def)

lemma ended_known: "counters s \<Longrightarrow> p_ended s \<Longrightarrow> known s = set (p_done s)"
proof -
  assume c: "counters s" "p_ended s"
  have "\<not> has_job pc j" if "pc \<in> set (p_pcs s)" for pc j
    using c that by (cases pc) (auto simp: counters_def has_job_def)
  then show ?thesis
    using c by (auto simp: known_def counters_def)
qed

text \<open>A list of steps, none of which is the one the protocol does not order.\<close>

fun ordered :: "(job_t \<Rightarrow> job_t list) \<Rightarrow> nat list \<Rightarrow> psys \<Rightarrow> bool" where
  "ordered children [] s \<longleftrightarrow> True"
| "ordered children (i # is) s \<longleftrightarrow>
     \<not> overlooks i s \<and> (case p_step children i s of None \<Rightarrow> True | Some t \<Rightarrow> ordered children is t)"

lemma p_run_reach:
  "p_run children is t = Some u \<Longrightarrow> p_reach children in_order s t \<Longrightarrow> ordered children is t \<Longrightarrow> p_reach children in_order s u"
proof (induction "is" arbitrary: t)
  case (Cons i "is")
  then obtain v where v: "i < length (p_pcs t)" "p_step children i t = Some v" "p_run children is v = Some u"
    by (auto split: if_splits option.splits)
  have "p_reach children in_order s v"
    using p_more [OF Cons.prems(2), of "Work i" v] v(1,2) Cons.prems(3) by simp
  then show ?case
    using Cons.IH [OF v(3)] v(2) Cons.prems(3) by simp
qed simp

lemma p_reach_token_init:
  assumes "p_reach children ok (p_init root n) s" "p_pcs s \<noteq> []"
  shows "token_left s"
proof -
  have "length (p_pcs s) = n"
    using assms(1) by induction (simp_all add: p_init_def p_next_length)
  then have "p_pcs (p_init root n) \<noteq> []"
    using assms(2) by (auto simp: p_init_def)
  then show ?thesis
    using p_reach_token [OF assms(1) p_init_inv(3)] by simp
qed

text \<open>A root with the directories \<open>a\<close> and \<open>b\<close>, and \<open>c\<close> in \<open>a\<close>.\<close>

definition demo_children :: "job_t \<Rightarrow> job_t list" where
  "demo_children j =
     (if j_depth j = 0 then [\<lparr>j_depth = 1, j_name = bytes_of ''a''\<rparr>, \<lparr>j_depth = 1, j_name = bytes_of ''b''\<rparr>]
      else if j_name j = bytes_of ''a'' then [\<lparr>j_depth = 2, j_name = bytes_of ''c''\<rparr>] else [])"

section \<open>The workers enqueue what they alone dequeue\<close>

lemma p_run_append: "p_run children (is @ js) s = (case p_run children is s of None \<Rightarrow> None | Some t \<Rightarrow> p_run children js t)"
  by (induction "is" arbitrary: s) (auto split: option.splits)

text \<open>
  \<open>m\<close> workers have taken the first \<open>m\<close> directories of the root, whose own worker has the
  rest still to put into the queue.
\<close>

definition spread :: "(job_t \<Rightarrow> job_t list) \<Rightarrow> job_t \<Rightarrow> nat \<Rightarrow> nat \<Rightarrow> psys" where
  "spread children root n m =
     \<lparr>p_queue = [], p_full = 0, p_active = int m + 1, p_ended = False,
      p_pcs = W_busy root (drop m (children root)) #
        map (\<lambda>k. W_busy (children root ! k) (children (children root ! k))) [0..<m] @ replicate (n - m) W_wait,
      p_done = [], p_failed = False, p_stopped = False\<rparr>"

lemma spread_start: "p_run children [0, 0, 0, 0] (p_init root (Suc n)) = Some (spread children root n 0)"
  by (simp add: p_init_def p_step_def at_def spread_def)

lemma spread_round:
  assumes "m < n" "m < length (children root)"
  shows "p_run children [0, Suc m, Suc m, Suc m, Suc m] (spread children root n m) = Some (spread children root n (Suc m))"
proof -
  have d: "drop m (children root) = children root ! m # drop (Suc m) (children root)"
    using Cons_nth_drop_Suc [OF assms(2)] by simp
  have r: "replicate (n - m) W_wait = W_wait # replicate (n - Suc m) W_wait"
    using assms(1) by (cases "n - m") (simp_all, arith?)
  show ?thesis
    unfolding spread_def d r by (simp add: p_step_def at_def nth_append list_update_append)
qed

lemma spread_all: "m \<le> n \<Longrightarrow> m \<le> length (children root) \<Longrightarrow>
  \<exists>is. p_run children is (p_init root (Suc n)) = Some (spread children root n m)"
proof (induction m)
  case 0
  then show ?case
    using spread_start by blast
next
  case (Suc m)
  then obtain "is" where "p_run children is (p_init root (Suc n)) = Some (spread children root n m)"
    by auto
  then show ?case
    using spread_round [of m n children root] Suc.prems
    by (intro exI [of _ "is @ [0, Suc m, Suc m, Suc m, Suc m]"]) (simp add: p_run_append del: p_run.simps)
qed

lemma fill_queue:
  "p_pcs s = W_busy j (xs @ ks) # ps \<Longrightarrow> length (p_queue s) + length xs \<le> CAPACITY \<Longrightarrow>
   p_run children (replicate (length xs) 0) s =
     Some (s\<lparr>p_queue := p_queue s @ xs, p_full := p_full s + length xs, p_pcs := W_busy j ks # ps\<rparr>)"
proof (induction xs arbitrary: s)
  case (Cons x xs)
  let ?t = "s\<lparr>p_queue := p_queue s @ [x], p_full := p_full s + 1, p_pcs := W_busy j (xs @ ks) # ps\<rparr>"
  have "p_step children 0 s = Some ?t"
    using Cons.prems by (simp add: p_step_def at_def)
  then show ?case
    using Cons.IH [of ?t] Cons.prems by simp
qed simp

section \<open>Properties\<close>

text \<open>
  C12. Any number of workers, which signals may end one by one, in every schedule in which
  no worker leaves its job while another one has taken a job without having counted it: as
  long as no worker has failed and the manager has not shut down, \<open>active\<close> is \<open>'E'\<close> only
  when the inventory is complete: the root is done, with every directory also all the
  directories in it, the queue is empty and nobody works.
\<close>

theorem end_complete:
  assumes "p_reach children in_order (p_init root n) s" "p_ended s" "\<not> p_failed s" "\<not> p_stopped s"
  shows "p_queue s = [] \<and> root \<in> set (p_done s) \<and> (\<forall>j \<in> set (p_done s). set (children j) \<subseteq> set (p_done s)) \<and>
    p_active s = 0"
proof -
  have i: "complete children root s" "counters s"
    using p_reach_inv [OF assms(1) p_init_inv(1,2)] assms(3,4) by (simp_all add: undisturbed_def)
  then have "cnt is_busy (p_pcs s) = 0"
    using assms(2) unfolding cnt_none by (simp add: counters_def)
  then show ?thesis
    using i assms(2) ended_known [OF i(2) assms(2)] by (simp add: complete_def counters_def)
qed

theorem end_complete_witness:
  "\<exists>s. p_run (\<lambda>_. []) [0, 0, 0, 0, 0, 1, 1] (p_init zero_job 2) = Some s \<and> p_ended s \<and> zero_job \<in> set (p_done s) \<and> p_queue s = []"
proof -
  let ?is = "[0, 0, 0, 0, 0, 1, 1] :: nat list"
  obtain s where s: "p_run (\<lambda>_. []) ?is (p_init zero_job 2) = Some s" "p_ended s" "\<not> p_failed s" "\<not> p_stopped s"
    by (simp add: p_init_def p_step_def p_end_def at_def Let_def numeral_2_eq_2)
  have "ordered (\<lambda>_. []) ?is (p_init zero_job 2)"
    by (simp add: p_init_def p_step_def p_end_def at_def Let_def numeral_2_eq_2 overlooks_def cnt_def)
  then have "p_reach (\<lambda>_. []) in_order (p_init zero_job 2) s"
    using p_run_reach [OF s(1) p_start] by blast
  from end_complete [OF this s(2-4)] s show ?thesis
    by blast
qed

text \<open>
  C22. Nobody sleeps through the end. In every state of every schedule, with failures,
  signals and a shutdown of the manager, once \<open>active\<close> is \<open>'E'\<close> a worker that waits for a job
  gets out of its main loop after at most three steps: a token is in \<open>job_full\<close> or with a
  worker that posts it again on its way out.
\<close>

theorem end_wakes_all:
  assumes "p_reach children ok (p_init root n) s" "p_ended s" "i < length (p_pcs s)" "p_pcs s ! i = W_wait"
  shows "\<exists>is t. length is \<le> 3 \<and> p_run children is s = Some t \<and> p_pcs t ! i = W_exited"
proof -
  have e: "p_ended s \<longrightarrow> 1 \<le> int (p_full s) + cnt (\<lambda>pc. pc = W_woken) (p_pcs s)"
    using p_reach_token_init [OF assms(1)] assms(3) by (force simp: token_left_def)
  show ?thesis
  proof (cases "p_full s")
    case (Suc m)
    then show ?thesis
      using assms(2-4) by (intro exI [of _ "[i, i]"]) (simp add: p_step_def at_def)
  next
    case 0
    then have "cnt (\<lambda>pc. pc = W_woken) (p_pcs s) \<noteq> 0"
      using e assms(2) by auto
    then obtain k where k: "k < length (p_pcs s)" "p_pcs s ! k = W_woken"
      unfolding cnt_none by (metis in_set_conv_nth)
    then have "k \<noteq> i"
      using assms(4) by auto
    then show ?thesis
      using 0 k assms(2-4) by (intro exI [of _ "[k, i, i]"]) (simp add: p_step_def at_def)
  qed
qed

theorem end_wakes_all_witness:
  "\<exists>is s t. p_next demo_children (Fail 0) (the (p_run demo_children [0, 0, 0, 0, 0] (p_init zero_job 2))) = Some s \<and>
     p_queue s \<noteq> [] \<and> p_run demo_children is s = Some t \<and> p_pcs t ! 1 = W_exited"
proof -
  let ?is = "[0, 0, 0, 0, 0] :: nat list"
  have c: "demo_children zero_job = [\<lparr>j_depth = 1, j_name = bytes_of ''a''\<rparr>, \<lparr>j_depth = 1, j_name = bytes_of ''b''\<rparr>]"
    by (simp add: demo_children_def zero_job_def bytes_of_def)
  obtain r s where r: "p_run demo_children ?is (p_init zero_job 2) = Some r"
    and s: "p_next demo_children (Fail 0) r = Some s" "p_ended s" "length (p_pcs s) = 2" "p_pcs s ! 1 = W_wait" "p_queue s \<noteq> []"
    using c by (simp add: p_init_def p_step_def p_fail_def p_end_def at_def Let_def numeral_2_eq_2)
  have "ordered demo_children ?is (p_init zero_job 2)"
    using c by (simp add: p_init_def p_step_def at_def Let_def numeral_2_eq_2 overlooks_def cnt_def)
  then have "p_reach demo_children in_order (p_init zero_job 2) s"
    using p_run_reach [OF r p_start] p_more [OF _ _ s(1)] by fastforce
  from end_wakes_all [OF this s(2) _ s(4)] s show ?thesis
    unfolding r by auto
qed

text \<open>
  C13. The step that is not ordered ends the inventory too early: one worker has taken the
  directory \<open>a\<close> and not counted it yet, the other one leaves \<open>b\<close>, finds no active and no
  queued job and ends the inventory. The directory \<open>c\<close> in \<open>a\<close> is put into the queue
  afterwards, both workers exit normally, and \<open>c\<close> is never read.
\<close>

theorem premature_end:
  assumes "children root = [a, b]" "children a = [c]" "children b = []"
  shows "\<exists>s. p_run children [0, 0, 0, 0, 0, 0, 0, 0, 0, 0, 1, 1, 1, 1, 1, 0, 0, 0, 0, 0, 1, 1] (p_init root 2) = Some s \<and>
    p_ended s \<and> p_pcs s = [W_exited, W_exited] \<and> p_queue s = [c] \<and> p_done s = [root, b, a] \<and> p_active s = 0"
  using assms by (simp add: p_init_def p_step_def p_end_def at_def Let_def numeral_2_eq_2)

theorem premature_end_witness:
  "\<exists>is s. p_run demo_children is (p_init zero_job 2) = Some s \<and> p_pcs s = [W_exited, W_exited] \<and>
    p_queue s = [\<lparr>j_depth = 2, j_name = bytes_of ''c''\<rparr>]"
proof -
  have "demo_children zero_job = [\<lparr>j_depth = 1, j_name = bytes_of ''a''\<rparr>, \<lparr>j_depth = 1, j_name = bytes_of ''b''\<rparr>]"
    "demo_children \<lparr>j_depth = 1, j_name = bytes_of ''a''\<rparr> = [\<lparr>j_depth = 2, j_name = bytes_of ''c''\<rparr>]"
    "demo_children \<lparr>j_depth = 1, j_name = bytes_of ''b''\<rparr> = []"
    by (simp_all add: demo_children_def zero_job_def bytes_of_def)
  from premature_end [OF this] show ?thesis
    by blast
qed

text \<open>
  C32. Only the workers take jobs out of the queue, and they put new ones in while they hold
  one. With any number of workers, a root with enough directories, each of the first of
  which has a directory of its own, can bring all of them to a halt: there is a schedule of
  normal steps after which the queue is full and every worker waits in \<open>enqueue_job\<close>, so that
  none of them ever moves again, and the inventory has not ended. With one worker this is
  the only schedule there is.
\<close>

theorem job_queue_deadlock:
  assumes "1 \<le> n" "CAPACITY + n \<le> length (children root)" "\<forall>k < n - 1. children (children root ! k) \<noteq> []"
  shows "\<exists>is t. p_run children is (p_init root n) = Some t \<and> length (p_queue t) = CAPACITY \<and> \<not> p_ended t \<and>
    (\<forall>i < n. \<exists>j k ks. p_pcs t ! i = W_busy j (k # ks)) \<and> (\<forall>i. p_next children (Work i) t = None)"
proof -
  obtain m where n: "n = Suc m"
    using assms(1) by (cases n) auto
  let ?cs = "children root"
  obtain "is" where s: "p_run children is (p_init root n) = Some (spread children root m m)"
    using spread_all [of m m children root] assms(2) by (auto simp: n)
  let ?xs = "take CAPACITY (drop m ?cs)" and ?ks = "drop CAPACITY (drop m ?cs)"
  let ?ps = "map (\<lambda>k. W_busy (?cs ! k) (children (?cs ! k))) [0..<m]"
  have l: "length ?xs = CAPACITY" "?ks \<noteq> []"
    using assms(2) by (simp_all add: n)
  have "drop m ?cs = ?xs @ ?ks"
    by (rule append_take_drop_id [symmetric])
  then have "p_pcs (spread children root m m) = W_busy root (?xs @ ?ks) # ?ps"
    by (simp only: spread_def psys.select_convs) simp
  note run = fill_queue [OF this, of children, unfolded l(1)]
  define t where "t = (spread children root m m)\<lparr>p_queue := ?xs, p_full := CAPACITY, p_pcs := W_busy root ?ks # ?ps\<rparr>"
  have t: "p_run children (replicate CAPACITY 0) (spread children root m m) = Some t"
    "p_pcs t = W_busy root ?ks # ?ps" "length (p_queue t) = CAPACITY" "\<not> p_ended t"
    using run l(1) by (simp_all add: t_def) (simp_all add: spread_def)
  have busy: "\<exists>j k ks. p_pcs t ! i = W_busy j (k # ks)" if "i < n" for i
  proof (cases i)
    case 0
    then show ?thesis
      using l(2) unfolding t(2) neq_Nil_conv by simp
  next
    case (Suc k)
    then show ?thesis
      using that assms(3) by (auto simp: t(2) n neq_Nil_conv)
  qed
  then have "p_next children (Work i) t = None" for i
    using t(2,3) by (cases "i < n") (fastforce simp: p_step_def n, simp add: n)
  then show ?thesis
    using s t busy by (intro exI [of _ "is @ replicate CAPACITY 0"] exI [of _ t]) (simp add: p_run_append)
qed

theorem job_queue_deadlock_witness:
  "\<exists>is t. p_run (\<lambda>j. if j_depth j = 0 then replicate 2050 \<lparr>j_depth = 1, j_name = []\<rparr>
       else if j_depth j = 1 then [\<lparr>j_depth = 2, j_name = []\<rparr>] else []) is (p_init zero_job 2) = Some t \<and>
     \<not> p_ended t \<and> (\<forall>i. p_next (\<lambda>j. if j_depth j = 0 then replicate 2050 \<lparr>j_depth = 1, j_name = []\<rparr>
       else if j_depth j = 1 then [\<lparr>j_depth = 2, j_name = []\<rparr>] else []) (Work i) t = None)"
proof -
  let ?ch = "\<lambda>j. if j_depth j = 0 then replicate 2050 \<lparr>j_depth = 1, j_name = []\<rparr>
    else if j_depth j = 1 then [\<lparr>j_depth = 2, j_name = []\<rparr>] else [] :: job_t list"
  have "\<forall>k < 2 - 1. ?ch (?ch zero_job ! k) \<noteq> []" "CAPACITY + 2 \<le> length (?ch zero_job)"
    by (simp_all add: zero_job_def)
  then show ?thesis
    using job_queue_deadlock [of 2 ?ch zero_job] by fastforce
qed

end
