(* ===== verification/Inv_Db.thy ===== *)
theory Inv_Db
  imports Inv_Types Posix_File
begin

text \<open>
  The inventory database: \<open>start_db\<close>, \<open>append_result_db\<close> and \<open>append_stats_db\<close> of
  \<open>src/inv_ipc.c\<close>, \<open>verify\<close> and \<open>dump\<close> of \<open>src/main_fileops_manager.c\<close>. The manager has the
  header mapped and appends through a descriptor on the same file, so both act on one list of
  bytes. The lemmas relate it to the lists of results and of statistics it was made from.
\<close>

section \<open>The header\<close>

text \<open>
  \<open>struct header_db\<close>: the magic at 0, three bytes of padding, six integers; 32 bytes.
\<close>

abbreviation (input) HDB_SIZE :: nat where "HDB_SIZE \<equiv> 32"
abbreviation (input) HDB_VERSION :: nat where "HDB_VERSION \<equiv> 8"
abbreviation (input) HDB_COMPLETE :: nat where "HDB_COMPLETE \<equiv> 12"
abbreviation (input) HDB_RECORD_COUNT :: nat where "HDB_RECORD_COUNT \<equiv> 16"
abbreviation (input) HDB_WORKER_COUNT :: nat where "HDB_WORKER_COUNT \<equiv> 20"
abbreviation (input) HDB_FIRST_RECORD :: nat where "HDB_FIRST_RECORD \<equiv> 24"
abbreviation (input) HDB_FIRST_STAT :: nat where "HDB_FIRST_STAT \<equiv> 28"

text \<open>Reading and writing an \<open>int\<close> member through the mapping.\<close>

definition int_bytes :: "int \<Rightarrow> byte list" where
  "int_bytes v = le_bytes 4 (unat (word_of_int v :: u32))"

definition bytes_int :: "byte list \<Rightarrow> int" where
  "bytes_int bs = sint (word_of_nat (le_nat bs) :: u32)"

definition hd_get :: "nat \<Rightarrow> byte list \<Rightarrow> int" where
  "hd_get off d = bytes_int (fslice d off 4)"

definition hd_put :: "nat \<Rightarrow> int \<Rightarrow> fdesc \<Rightarrow> fdesc" where
  "hd_put off v f = f\<lparr>bytes := write_at off (int_bytes v) (bytes f)\<rparr>"

section \<open>Writing\<close>

text \<open>\<open>start_db\<close>: create the file or cut it to the header, clear it, and fill it in.\<close>

definition start_db :: "fdesc option \<Rightarrow> bool \<Rightarrow> bool \<Rightarrow> int \<Rightarrow> int \<times> fdesc option" where
  "start_db opened truncate_ok map_ok workers =
     (case opened of None \<Rightarrow> (-1, None) | Some f \<Rightarrow>
      if \<not> truncate_ok then (-1, Some f) else
      let f = f\<lparr>bytes := take HDB_SIZE (bytes f) @ replicate (HDB_SIZE - length (bytes f)) 0\<rparr> in
      if \<not> map_ok then (-1, Some f) else
      let f = f\<lparr>bytes := replicate HDB_SIZE 0\<rparr>;
          f = f\<lparr>bytes := write_at 0 (bytes_of ''INV4'' @ [0]) (bytes f)\<rparr>;
          f = hd_put HDB_VERSION INV_VERSION f;
          f = hd_put HDB_COMPLETE 0 f;
          f = hd_put HDB_RECORD_COUNT 0 f;
          f = hd_put HDB_WORKER_COUNT workers f;
          f = hd_put HDB_FIRST_RECORD (int HDB_SIZE) f;
          f = hd_put HDB_FIRST_STAT (int HDB_SIZE) f
      in (0, Some f))"

text \<open>
  \<open>append_result_db\<close>: the nine fields one after the other, the path with its NUL, 52 bytes
  for the members behind it (\<open>sizeof(*res) - sizeof(res->abs_path)\<close>).
\<close>

definition append_result_db :: "result \<Rightarrow> fdesc \<Rightarrow> (int \<times> fdesc) outcome" where
  "append_result_db res f =
     (if INV_PATH_MAX \<le> length (r_abs_path res) then UB else
      let path_len = int (length (r_abs_path res)) + 1;
          entry_size = path_len + 2 * 4 + 52;
          buffer = int_bytes entry_size @ int_bytes path_len @ (r_abs_path res @ [0]) @
            le_bytes 4 (unat (r_size res)) @ le_bytes 4 (unat (r_mtime res)) @ le_bytes 4 (unat (r_mode res)) @
            le_bytes 4 (unat (r_uid res)) @ le_bytes 4 (unat (r_gid res)) @ r_sha res
      in if int (length buffer) \<noteq> entry_size then Ret (-1, f) else
      let (temp_entry_size, f) = write_fd f buffer in
      if temp_entry_size \<noteq> entry_size then Ret (-1, f)
      else Ret (0, hd_put HDB_FIRST_STAT (hd_get HDB_FIRST_STAT (bytes f) + entry_size) f))"

text \<open>The bytes of \<open>struct worker_stats\<close>; \<open>pad\<close> are the four bytes of padding.\<close>

definition stats_bytes :: "byte list \<Rightarrow> worker_stats \<Rightarrow> byte list" where
  "stats_bytes pad w =
     le_bytes 4 (unat (w_worker_id w)) @ le_bytes 4 (unat (w_pid w)) @ le_bytes 4 (unat (w_exit_status w)) @
     le_bytes 4 (unat (w_jobs_processed w)) @ le_bytes 4 (unat (w_files_emitted w)) @ take 4 (pad @ replicate 4 0) @
     le_bytes 8 (unat (w_bytes_emitted w)) @ le_bytes 8 (unat (w_wall_time_ms w)) @
     le_bytes 8 (unat (w_user_cpu_us w)) @ le_bytes 8 (unat (w_sys_cpu_us w))"

definition append_stats_db :: "byte list \<Rightarrow> worker_stats \<Rightarrow> fdesc \<Rightarrow> int \<times> fdesc" where
  "append_stats_db pad ws f =
     (let (n, f) = write_fd f (stats_bytes pad ws) in (if n \<noteq> 56 then -1 else 0, f))"

section \<open>Reading\<close>

text \<open>
  The bytes behind a mapping of the header: past the end of the file up to the page they
  are 0, and in an empty file there is no page.
\<close>

definition map_header :: "byte list \<Rightarrow> byte list outcome" where
  "map_header d = (if d = [] then UB else Ret (take HDB_SIZE d @ replicate (HDB_SIZE - length d) 0))"

definition inv_magic :: "byte list \<Rightarrow> bool" where
  "inv_magic h \<longleftrightarrow> take 5 h = bytes_of ''INV4'' @ [0]"

lemma c_int_less: "c_int x < 2147483648"
  using sint_less [of "word_of_int x :: u32"] by (simp add: c_int_def)

text \<open>
  The walk over the records: the final \<open>left_pos\<close> and the count. Both are of type \<open>int\<close>, so
  a value behind its range is undefined; that is also how the walk ends on a cycle.
\<close>

function verify_walk :: "fdesc \<Rightarrow> int \<Rightarrow> int \<Rightarrow> int \<Rightarrow> (int \<times> int) outcome" where
  "verify_walk f left_pos right_pos count =
     (case pread_exact f 4 left_pos of None \<Rightarrow> Ret (left_pos, count) | Some bs \<Rightarrow>
      if left_pos < right_pos then
        if c_int (count + 1) \<noteq> count + 1 then UB
        else if c_int (left_pos + bytes_int bs) \<noteq> left_pos + bytes_int bs then UB
        else verify_walk f (left_pos + bytes_int bs) right_pos (count + 1)
      else Ret (left_pos, count))"
  by pat_completeness auto

termination
proof (relation "measure (\<lambda>(f, left_pos, right_pos, count). nat (2147483648 - count))")
  fix f bs and left_pos right_pos count :: int
  assume "\<not> c_int (count + 1) \<noteq> count + 1"
  then have "count + 1 < 2147483648"
    using c_int_less [of "count + 1"] by simp
  then show "((f, left_pos + bytes_int bs, right_pos, count + 1), f, left_pos, right_pos, count) \<in>
      measure (\<lambda>(f, left_pos, right_pos, count). nat (2147483648 - count))"
    by simp
qed simp

declare verify_walk.simps [simp del]

definition verify :: "fdesc option \<Rightarrow> bool \<Rightarrow> bool \<Rightarrow> int outcome" where
  "verify opened map_ok stat_ok =
     (case opened of None \<Rightarrow> Ret 1 | Some f \<Rightarrow>
      if \<not> map_ok then Ret 1 else
      c_bind (map_header (bytes f)) (\<lambda>hd.
      if \<not> inv_magic hd then Ret 1 else
      if hd_get HDB_VERSION hd \<noteq> INV_VERSION then Ret 1 else
      if \<not> stat_ok then Ret 1 else
      if length (bytes f) < HDB_SIZE then Ret 1 else
      if hd_get HDB_FIRST_STAT hd < 0 then Ret 1 else
      let right_pos = hd_get HDB_FIRST_STAT hd in
      c_bind (verify_walk f (hd_get HDB_FIRST_RECORD hd) right_pos 0)
        (\<lambda>(left_pos, count).
         Ret (if left_pos \<noteq> right_pos \<or> count \<noteq> hd_get HDB_RECORD_COUNT hd then 1 else 0))))"

definition dump :: "fdesc option \<Rightarrow> bool \<Rightarrow> (int \<times> byte list list) outcome" where
  "dump opened map_ok =
     (case opened of None \<Rightarrow> Ret (1, []) | Some f \<Rightarrow>
      if \<not> map_ok then Ret (1, []) else
      c_bind (map_header (bytes f)) (\<lambda>hd.
      if \<not> inv_magic hd then Ret (1, []) else
      Ret (0, [bytes_of ''magic='' @ c_str hd,
               bytes_of ''version='' @ print_d (hd_get HDB_VERSION hd),
               bytes_of ''complete='' @ print_d (hd_get HDB_COMPLETE hd),
               bytes_of ''file_record_count='' @ print_d (hd_get HDB_RECORD_COUNT hd),
               bytes_of ''worker_count='' @ print_d (hd_get HDB_WORKER_COUNT hd)])))"

section \<open>Databases as lists\<close>

definition res_bytes :: "result \<Rightarrow> byte list" where
  "res_bytes res =
     int_bytes (int (length (r_abs_path res)) + 61) @ int_bytes (int (length (r_abs_path res)) + 1) @ r_abs_path res @ [0] @
     le_bytes 4 (unat (r_size res)) @ le_bytes 4 (unat (r_mtime res)) @ le_bytes 4 (unat (r_mode res)) @
     le_bytes 4 (unat (r_uid res)) @ le_bytes 4 (unat (r_gid res)) @ r_sha res"

definition res_ok :: "result \<Rightarrow> bool" where
  "res_ok res \<longleftrightarrow> length (r_abs_path res) < INV_PATH_MAX \<and> 0 \<notin> set (r_abs_path res) \<and> length (r_sha res) = 32"

definition records_end :: "result list \<Rightarrow> nat" where
  "records_end rs = HDB_SIZE + length (concat (map res_bytes rs))"

text \<open>
  \<open>inv_db d n rs rest\<close>: the header, with \<open>n\<close> as its record count and the records up to
  \<open>first_stat_offset\<close>, the records of the results \<open>rs\<close>, and \<open>rest\<close> behind them.
\<close>

definition inv_db :: "byte list \<Rightarrow> int \<Rightarrow> result list \<Rightarrow> byte list \<Rightarrow> bool" where
  "inv_db d n rs rest \<longleftrightarrow>
     HDB_SIZE \<le> length d \<and> drop HDB_SIZE d = concat (map res_bytes rs) @ rest \<and>
     take 5 d = bytes_of ''INV4'' @ [0] \<and> hd_get HDB_VERSION d = INV_VERSION \<and>
     hd_get HDB_RECORD_COUNT d = n \<and> hd_get HDB_FIRST_RECORD d = int HDB_SIZE \<and>
     hd_get HDB_FIRST_STAT d = int (records_end rs) \<and> list_all res_ok rs \<and> records_end rs < 2 ^ 31"

lemma int_bytes_len [simp]: "length (int_bytes v) = 4"
  by (simp add: int_bytes_def)

lemma bytes_int_id: "- (2 ^ 31) \<le> v \<Longrightarrow> v < 2 ^ 31 \<Longrightarrow> bytes_int (int_bytes v) = v"
  using c_int_id [of v] by (simp add: bytes_int_def int_bytes_def le_nat_le_bytes32 c_int_def)

lemma length_res_bytes: "res_ok r \<Longrightarrow> length (res_bytes r) = length (r_abs_path r) + 61"
  by (simp add: res_ok_def res_bytes_def)

lemma records_end_snoc: "records_end (rs @ [r]) = records_end rs + length (res_bytes r)"
  by (simp add: records_end_def)

lemma hd_get_put:
  assumes "32 \<le> length (bytes f)" "a + 4 \<le> 32"
  shows "b = a \<Longrightarrow> - (2 ^ 31) \<le> v \<Longrightarrow> v < 2 ^ 31 \<Longrightarrow> hd_get b (bytes (hd_put a v f)) = v"
    and "b + 4 \<le> a \<or> a + 4 \<le> b \<Longrightarrow> hd_get b (bytes (hd_put a v f)) = hd_get b (bytes f)"
    and "length (bytes (hd_put a v f)) = length (bytes f)" "drop 32 (bytes (hd_put a v f)) = drop 32 (bytes f)"
    and "8 \<le> a \<Longrightarrow> take 5 (bytes (hd_put a v f)) = take 5 (bytes f)"
proof -
  have w: "fslice (write_at a (int_bytes v) (bytes f)) b 4 = fslice (bytes f) b 4" if "b + 4 \<le> a \<or> a + 4 \<le> b"
    using that assms by (auto intro: fslice_write_at_before fslice_write_at_after)
  show "b = a \<Longrightarrow> - (2 ^ 31) \<le> v \<Longrightarrow> v < 2 ^ 31 \<Longrightarrow> hd_get b (bytes (hd_put a v f)) = v"
    using assms by (simp add: hd_get_def hd_put_def fslice_write_at_same bytes_int_id)
  show "b + 4 \<le> a \<or> a + 4 \<le> b \<Longrightarrow> hd_get b (bytes (hd_put a v f)) = hd_get b (bytes f)"
    using w by (simp add: hd_get_def hd_put_def)
  show "length (bytes (hd_put a v f)) = length (bytes f)"
    using assms by (simp add: hd_put_def length_write_at_in)
  show "drop 32 (bytes (hd_put a v f)) = drop 32 (bytes f)" "8 \<le> a \<Longrightarrow> take 5 (bytes (hd_put a v f)) = take 5 (bytes f)"
    using assms by (simp_all add: hd_put_def write_at_def drop_append min_def)
qed

lemma hd_put_frame: "hd_put a v f = f\<lparr>bytes := bytes (hd_put a v f)\<rparr>"
  by (simp add: hd_put_def)

lemma hd_get_append: "off + 4 \<le> length d \<Longrightarrow> hd_get off (d @ e) = hd_get off d"
  by (simp add: hd_get_def fslice_append1)

section \<open>Appending\<close>

lemma start_db_ok:
  assumes "- (2 ^ 31) \<le> workers" "workers < 2 ^ 31"
  shows "\<exists>g. start_db (Some f) True True workers = (0, Some g) \<and> inv_db (bytes g) 0 [] [] \<and>
    hd_get HDB_COMPLETE (bytes g) = 0 \<and> hd_get HDB_WORKER_COUNT (bytes g) = workers \<and> g = f\<lparr>bytes := bytes g\<rparr>"
proof -
  define f0 where "f0 = f\<lparr>bytes := write_at 0 (bytes_of ''INV4'' @ [0]) (replicate 32 0)\<rparr>"
  define g where "g = hd_put 28 32 (hd_put 24 32 (hd_put 20 workers (hd_put 16 0 (hd_put 12 0 (hd_put 8 100 f0)))))"
  have l0: "length (bytes f0) = 32" "take 5 (bytes f0) = bytes_of ''INV4'' @ [0]"
    by (simp_all add: f0_def write_at_def bytes_of_def)
  have "inv_db (bytes g) 0 [] []"
    using l0 by (simp add: inv_db_def g_def hd_get_put records_end_def)
  moreover have "hd_get 12 (bytes g) = 0" "hd_get 20 (bytes g) = workers"
    using l0 assms by (simp_all add: g_def hd_get_put)
  moreover have "g = f\<lparr>bytes := bytes g\<rparr>"
    by (simp add: g_def f0_def hd_put_def)
  moreover have "start_db (Some f) True True workers = (0, Some g)"
    by (simp add: start_db_def Let_def g_def f0_def)
  ultimately show ?thesis
    by blast
qed

lemma append_result_steps:
  assumes "res_ok r"
  shows "append_result_db r f =
    (let (n, g) = write_fd f (res_bytes r) in
     if n \<noteq> int (length (r_abs_path r)) + 61 then Ret (-1, g)
     else Ret (0, hd_put HDB_FIRST_STAT (hd_get HDB_FIRST_STAT (bytes g) + (int (length (r_abs_path r)) + 61)) g))"
proof -
  have e: "int (length (r_abs_path r)) + 1 + 2 * 4 + 52 = int (length (r_abs_path r)) + 61"
    by simp
  show ?thesis
    unfolding append_result_db_def Let_def e using assms by (simp add: res_bytes_def res_ok_def)
qed

lemma append_result_ok:
  assumes d: "inv_db (bytes f) n rs []" and r: "res_ok r" and a: "o_append f"
    and lim: "length (bytes f) + length (r_abs_path r) + 61 \<le> file_limit f" "records_end (rs @ [r]) < 2 ^ 31"
  shows "\<exists>g. append_result_db r f = Ret (0, g) \<and> inv_db (bytes g) n (rs @ [r]) [] \<and>
    hd_get HDB_COMPLETE (bytes g) = hd_get HDB_COMPLETE (bytes f) \<and>
    g = f\<lparr>bytes := bytes g, fpos := fpos g\<rparr> \<and> length (bytes g) = length (bytes f) + length (r_abs_path r) + 61"
proof -
  let ?h = "f\<lparr>bytes := bytes f @ res_bytes r, fpos := length (bytes f) + length (res_bytes r)\<rparr>"
  have l: "length (res_bytes r) = length (r_abs_path r) + 61" "res_bytes r \<noteq> []"
    using length_res_bytes [OF r] by auto
  have w: "write_fd f (res_bytes r) = (int (length (res_bytes r)), ?h)"
    using write_fd_append_ok [OF a _ l(2)] lim(1) l(1) by simp
  have L: "32 \<le> length (bytes f)"
    using d by (simp add: inv_db_def)
  let ?v = "hd_get 28 (bytes ?h) + (int (length (r_abs_path r)) + 61)"
  have v: "?v = int (records_end (rs @ [r]))" "?v < 2 ^ 31" "- (2 ^ 31) \<le> ?v"
    using d L lim(2) by (simp_all add: inv_db_def hd_get_append records_end_snoc l(1))
  let ?g = "hd_put 28 ?v ?h"
  have "append_result_db r f = Ret (0, ?g)"
    using w l(1) by (simp add: append_result_steps [OF r])
  moreover have "inv_db (bytes ?g) n (rs @ [r]) []"
    using d r L v lim(2) by (simp add: inv_db_def hd_get_put hd_get_append)
  moreover have "hd_get 12 (bytes ?g) = hd_get 12 (bytes f)" "length (bytes ?g) = length (bytes f) + length (r_abs_path r) + 61"
    using L l(1) by (simp_all add: hd_get_put hd_get_append)
  ultimately show ?thesis
    by (intro exI [of _ ?g]) (simp add: hd_put_def)
qed

lemma count_record_ok:
  assumes d: "inv_db (bytes f) n rs []" and n: "0 \<le> n" "n + 1 < 2 ^ 31"
  defines "g \<equiv> hd_put HDB_RECORD_COUNT (hd_get HDB_RECORD_COUNT (bytes f) + 1) f"
  shows "inv_db (bytes g) (n + 1) rs []" "hd_get HDB_COMPLETE (bytes g) = hd_get HDB_COMPLETE (bytes f)"
    "length (bytes g) = length (bytes f)"
  using assms by (simp_all add: inv_db_def hd_get_put)

lemma complete_ok:
  assumes d: "inv_db (bytes f) n rs rest" and v: "- (2 ^ 31) \<le> v" "v < 2 ^ 31"
  shows "inv_db (bytes (hd_put HDB_COMPLETE v f)) n rs rest" "hd_get HDB_COMPLETE (bytes (hd_put HDB_COMPLETE v f)) = v"
    "length (bytes (hd_put HDB_COMPLETE v f)) = length (bytes f)"
  using assms by (simp_all add: inv_db_def hd_get_put)

lemma length_stats_bytes [simp]: "length (stats_bytes pad w) = 56"
  by (simp add: stats_bytes_def)

lemma append_stats_ok:
  assumes d: "inv_db (bytes f) n rs rest" and a: "o_append f" and lim: "length (bytes f) + 56 \<le> file_limit f"
  shows "\<exists>g. append_stats_db pad w f = (0, g) \<and> inv_db (bytes g) n rs (rest @ stats_bytes pad w) \<and>
    hd_get HDB_COMPLETE (bytes g) = hd_get HDB_COMPLETE (bytes f) \<and> g = f\<lparr>bytes := bytes g, fpos := fpos g\<rparr> \<and>
    length (bytes g) = length (bytes f) + 56"
proof -
  have "stats_bytes pad w \<noteq> []"
    using length_stats_bytes [of pad w] by (metis list.size(3) zero_neq_numeral)
  then have "write_fd f (stats_bytes pad w) = (56, f\<lparr>bytes := bytes f @ stats_bytes pad w, fpos := length (bytes f) + 56\<rparr>)"
    using write_fd_append_ok [OF a _ \<open>stats_bytes pad w \<noteq> []\<close>] lim by simp
  then show ?thesis
    using d by (simp add: append_stats_db_def inv_db_def hd_get_append)
qed

section \<open>The walk\<close>

lemma length_records: "length rs \<le> records_end rs"
proof -
  have "length rs \<le> length (concat (map res_bytes rs))"
  proof (induction rs)
    case (Cons r rs)
    then show ?case
      by (cases "res_bytes r") (auto simp: res_bytes_def int_bytes_def)
  qed simp
  then show ?thesis
    by (simp add: records_end_def)
qed

lemma verify_walk_records:
  assumes d: "inv_db (bytes f) n (ps @ rs) rest" and k: "0 \<le> k" "k + int (length rs) < 2 ^ 31"
  shows "verify_walk f (int (records_end ps)) (int (records_end (ps @ rs))) k =
    Ret (int (records_end (ps @ rs)), k + int (length rs))"
  using d k
proof (induction rs arbitrary: ps k)
  case Nil
  then show ?case
    by (subst verify_walk.simps) (auto split: option.split)
next
  case (Cons r rs)
  have r: "res_ok r" "records_end (ps @ r # rs) < 2 ^ 31"
    "drop 32 (bytes f) = concat (map res_bytes ps) @ res_bytes r @ concat (map res_bytes rs) @ rest"
    using Cons.prems(1) by (auto simp: inv_db_def)
  let ?p = "records_end ps" and ?l = "int (length (r_abs_path r)) + 61"
  have e: "records_end (ps @ [r]) = ?p + length (r_abs_path r) + 61" "records_end (ps @ [r]) \<le> records_end (ps @ r # rs)"
    using length_res_bytes [OF r(1)] by (simp_all add: records_end_def)
  have "fslice (bytes f) ?p 4 = fslice (drop 32 (bytes f)) (?p - 32) 4"
    by (simp add: fslice_def records_end_def add.commute)
  also have "\<dots> = int_bytes ?l"
    unfolding r(3) by (simp add: records_end_def fslice_append2 res_bytes_def fslice_append1 fslice_all)
  finally have s: "fslice (bytes f) ?p 4 = int_bytes ?l" .
  have rd: "pread_exact f 4 (int ?p) = Some (int_bytes ?l)"
    using s by (simp add: pread_exact_def pread_in)
  have b: "bytes_int (int_bytes ?l) = ?l" "c_int (int ?p + ?l) = int ?p + ?l" "c_int (k + 1) = k + 1"
    using e r(1,2) Cons.prems(2,3) by (simp_all add: bytes_int_id c_int_id res_ok_def)
  have "verify_walk f (int ?p) (int (records_end (ps @ r # rs))) k =
      verify_walk f (int (records_end (ps @ [r]))) (int (records_end ((ps @ [r]) @ rs))) (k + 1)"
    using rd b e by (subst verify_walk.simps) (simp add: add.assoc)
  also have "\<dots> = Ret (int (records_end (ps @ r # rs)), k + 1 + int (length rs))"
    using Cons.IH [of "ps @ [r]" "k + 1"] Cons.prems by simp
  finally show ?case
    by (simp add: add.commute add.left_commute)
qed

lemma take_5_32: "take 5 (take 32 d) = take 5 d"
  by (simp add: min_def)

lemma hd_get_take: "off + 4 \<le> 32 \<Longrightarrow> 32 \<le> length d \<Longrightarrow> hd_get off (take 32 d) = hd_get off d"
  by (simp add: hd_get_def fslice_def drop_take min_def)

lemma verify_inv_db:
  assumes d: "inv_db (bytes f) n rs rest"
  shows "verify (Some f) True True = Ret (if n = int (length rs) then 0 else 1)"
proof -
  have l: "32 \<le> length (bytes f)"
    using d by (simp add: inv_db_def)
  then have h: "map_header (bytes f) = Ret (take 32 (bytes f))"
    by (auto simp: map_header_def)
  have g: "inv_magic (take 32 (bytes f))" "hd_get 8 (take 32 (bytes f)) = 100" "hd_get 16 (take 32 (bytes f)) = n"
    "hd_get 24 (take 32 (bytes f)) = int (records_end [])" "hd_get 28 (take 32 (bytes f)) = int (records_end rs)"
    using d l by (simp_all add: inv_magic_def inv_db_def take_5_32 hd_get_take records_end_def)
  have "int (length rs) < 2 ^ 31"
    using d length_records [of rs] by (simp add: inv_db_def)
  then have w: "verify_walk f (int (records_end [])) (int (records_end rs)) 0 = Ret (int (records_end rs), int (length rs))"
    using verify_walk_records [of f n "[]" rs rest 0] d by simp
  show ?thesis
    using h g w l by (auto simp: verify_def Let_def)
qed

text \<open>An entry size of 0 keeps the walk where it is, and only the counter goes on.\<close>

lemma verify_walk_stuck:
  assumes "pread_exact f 4 l = Some bs" "bytes_int bs = 0" "l < r" "c_int l = l"
  shows "0 \<le> k \<Longrightarrow> k < 2147483648 \<Longrightarrow> verify_walk f l r k = UB"
proof (induction "nat (2147483648 - k)" arbitrary: k rule: less_induct)
  case less
  show ?case
  proof (cases "k + 1 < 2147483648")
    case True
    have "verify_walk f l r (k + 1) = UB"
      using less True by simp
    then show ?thesis
      using assms by (subst verify_walk.simps) simp
  next
    case False
    then have "c_int (k + 1) \<noteq> k + 1"
      using c_int_less [of "k + 1"] by linarith
    then show ?thesis
      using assms by (subst verify_walk.simps) simp
  qed
qed

section \<open>Reading the records back\<close>

text \<open>What a reader of the format gets from the bytes behind the header.\<close>

fun decode_results :: "nat \<Rightarrow> byte list \<Rightarrow> result list" where
  "decode_results 0 bs = []"
| "decode_results (Suc n) bs =
     (let entry_size = nat (bytes_int (fslice bs 0 4)); path_len = nat (bytes_int (fslice bs 4 4)); p = 8 + path_len in
      \<lparr>r_abs_path = c_str (fslice bs 8 path_len), r_size = word_of_nat (le_nat (fslice bs p 4)),
       r_mtime = word_of_nat (le_nat (fslice bs (p + 4) 4)), r_mode = word_of_nat (le_nat (fslice bs (p + 8) 4)),
       r_uid = word_of_nat (le_nat (fslice bs (p + 12) 4)), r_gid = word_of_nat (le_nat (fslice bs (p + 16) 4)),
       r_sha = fslice bs (p + 20) 32\<rparr> # decode_results n (drop entry_size bs))"

lemma res_bytes_fields:
  assumes "res_ok r" and n: "n = length (r_abs_path r)"
  shows "fslice (res_bytes r @ bs) 0 4 = int_bytes (int n + 61)" "fslice (res_bytes r @ bs) 4 4 = int_bytes (int n + 1)"
    and "fslice (res_bytes r @ bs) 8 (n + 1) = r_abs_path r @ [0]"
    and "fslice (res_bytes r @ bs) (9 + n) 4 = le_bytes 4 (unat (r_size r))"
    and "fslice (res_bytes r @ bs) (9 + n + 4) 4 = le_bytes 4 (unat (r_mtime r))"
    and "fslice (res_bytes r @ bs) (9 + n + 8) 4 = le_bytes 4 (unat (r_mode r))"
    and "fslice (res_bytes r @ bs) (9 + n + 12) 4 = le_bytes 4 (unat (r_uid r))"
    and "fslice (res_bytes r @ bs) (9 + n + 16) 4 = le_bytes 4 (unat (r_gid r))"
    and "fslice (res_bytes r @ bs) (9 + n + 20) 32 = r_sha r"
proof -
  have b: "res_bytes r @ bs = int_bytes (int n + 61) @ int_bytes (int n + 1) @ (r_abs_path r @ [0]) @
      le_bytes 4 (unat (r_size r)) @ le_bytes 4 (unat (r_mtime r)) @ le_bytes 4 (unat (r_mode r)) @
      le_bytes 4 (unat (r_uid r)) @ le_bytes 4 (unat (r_gid r)) @ r_sha r @ bs"
    by (simp add: res_bytes_def n)
  have p: "length (r_abs_path r @ [0]) = n + 1" "length (r_sha r) = 32"
    using assms by (simp_all add: res_ok_def)
  show "fslice (res_bytes r @ bs) 0 4 = int_bytes (int n + 61)" "fslice (res_bytes r @ bs) 4 4 = int_bytes (int n + 1)"
    "fslice (res_bytes r @ bs) 8 (n + 1) = r_abs_path r @ [0]"
    "fslice (res_bytes r @ bs) (9 + n) 4 = le_bytes 4 (unat (r_size r))"
    "fslice (res_bytes r @ bs) (9 + n + 4) 4 = le_bytes 4 (unat (r_mtime r))"
    "fslice (res_bytes r @ bs) (9 + n + 8) 4 = le_bytes 4 (unat (r_mode r))"
    "fslice (res_bytes r @ bs) (9 + n + 12) 4 = le_bytes 4 (unat (r_uid r))"
    "fslice (res_bytes r @ bs) (9 + n + 16) 4 = le_bytes 4 (unat (r_gid r))"
    "fslice (res_bytes r @ bs) (9 + n + 20) 32 = r_sha r"
    unfolding b using p by (simp_all add: fslice_append2 fslice_append1 fslice_all del: append_assoc append.simps)
qed

lemma decode_one:
  assumes r: "res_ok r"
  shows "decode_results (Suc n) (res_bytes r @ bs) = r # decode_results n bs"
proof -
  let ?n = "length (r_abs_path r)"
  note f = res_bytes_fields [OF r refl, of bs]
  have i: "nat (bytes_int (int_bytes (int ?n + 61))) = ?n + 61" "nat (bytes_int (int_bytes (int ?n + 1))) = ?n + 1"
    using r by (simp_all add: bytes_int_id res_ok_def)
  have s: "c_str (r_abs_path r @ [0]) = r_abs_path r" "drop (?n + 61) (res_bytes r @ bs) = bs"
    using r length_res_bytes [OF r] by (simp_all add: res_ok_def)
  have p: "8 + (?n + 1) = 9 + ?n"
    by simp
  show ?thesis
    unfolding decode_results.simps Let_def f(1,2) i p f(3-9) s by (simp add: le_nat_le_bytes32)
qed

lemma decode_all: "list_all res_ok rs \<Longrightarrow> decode_results (length rs) (concat (map res_bytes rs) @ rest) = rs"
  by (induction rs) (simp_all add: decode_one del: decode_results.simps, simp)

definition demo_result :: result where
  "demo_result = \<lparr>r_abs_path = bytes_of ''/r/a'', r_size = 3, r_mtime = 7, r_mode = 33188, r_uid = 0, r_gid = 0,
     r_sha = replicate 32 1\<rparr>"

lemma demo_result_ok: "res_ok demo_result" "length (r_abs_path demo_result) = 4"
  by (simp_all add: res_ok_def demo_result_def bytes_of_def)

section \<open>Properties\<close>

text \<open>
  C14. \<open>append_result_db\<close> on a well-formed database appends exactly one record: the list of
  results grows by the given one, \<open>first_stat_offset\<close> moves behind it, and the record count
  and the completion mark are unchanged.
\<close>

theorem append_result_db_correct:
  assumes "inv_db (bytes f) n rs []" "res_ok r" "o_append f"
    and "length (bytes f) + length (r_abs_path r) + 61 \<le> file_limit f" "records_end (rs @ [r]) < 2 ^ 31"
  shows "\<exists>g. append_result_db r f = Ret (0, g) \<and> inv_db (bytes g) n (rs @ [r]) [] \<and>
    hd_get HDB_COMPLETE (bytes g) = hd_get HDB_COMPLETE (bytes f) \<and>
    g = f\<lparr>bytes := bytes g, fpos := fpos g\<rparr> \<and> length (bytes g) = length (bytes f) + length (r_abs_path r) + 61"
  by (rule append_result_ok [OF assms])

theorem append_result_db_correct_witness:
  "\<exists>f g. start_db (Some (demo_fd [])) True True 2 = (0, Some f) \<and>
    append_result_db demo_result f = Ret (0, g) \<and> inv_db (bytes g) 0 [demo_result] []"
proof -
  obtain f where f: "start_db (Some (demo_fd [])) True True 2 = (0, Some f)" "inv_db (bytes f) 0 [] []"
    "f = (demo_fd [])\<lparr>bytes := bytes f\<rparr>"
    using start_db_ok [of 2 "demo_fd []"] by auto
  have a: "o_append f" "file_limit f = 1000000"
    using arg_cong [OF f(3), of o_append] arg_cong [OF f(3), of file_limit] by simp_all
  have "length (bytes f) = 32"
    using f(2) by (simp add: inv_db_def)
  then show ?thesis
    using append_result_db_correct [OF f(2) demo_result_ok(1) a(1)] a(2) f(1) length_res_bytes [OF demo_result_ok(1)]
    by (auto simp: demo_result_ok(2) records_end_def)
qed



text \<open>
  C30. An entry of size 0 in front of \<open>first_stat_offset\<close> keeps \<open>verify\<close> at this entry until
  the counter of the records leaves the range of \<open>int\<close>: instead of an answer, the behaviour
  of \<open>--verify\<close> on such a file is undefined.
\<close>

theorem verify_zero_entry:
  assumes "HDB_SIZE \<le> length (bytes f)" "take 5 (bytes f) = bytes_of ''INV4'' @ [0]"
    and "hd_get HDB_VERSION (bytes f) = INV_VERSION" "hd_get HDB_FIRST_RECORD (bytes f) = int p"
    and "int p < hd_get HDB_FIRST_STAT (bytes f)" "p + 4 \<le> length (bytes f)" "p < 2 ^ 31"
    and "fslice (bytes f) p 4 = [0, 0, 0, 0]"
  shows "verify (Some f) True True = UB"
proof -
  have b: "bytes_int [0, 0, 0, 0] = 0" "c_int (int p) = int p"
    using assms(7) by (simp_all add: bytes_int_def c_int_id)
  have "pread_exact f 4 (int p) = Some [0, 0, 0, 0]"
    using assms(8) by (simp add: pread_exact_def pread_in)
  from verify_walk_stuck [OF this b(1) assms(5) b(2), of 0]
  have w: "verify_walk f (int p) (hd_get 28 (bytes f)) 0 = UB"
    by simp
  have h: "map_header (bytes f) = Ret (take 32 (bytes f))"
    using assms(1) by (auto simp: map_header_def)
  show ?thesis
    using assms(1-5) h w by (simp add: verify_def inv_magic_def take_5_32 hd_get_take Let_def)
qed

definition demo_stuck :: fdesc where
  "demo_stuck = demo_fd (bytes_of ''INV4'' @ [0, 0, 0, 0] @ [100, 0, 0, 0] @ replicate 12 0 @ [32, 0, 0, 0] @ [36, 0, 0, 0] @ [0, 0, 0, 0])"

theorem verify_zero_entry_witness: "verify (Some demo_stuck) True True = UB"
proof (rule verify_zero_entry [where p = 32])
  have "length (bytes demo_stuck) = 36"
    by (simp add: demo_stuck_def bytes_of_def)
  then show "HDB_SIZE \<le> length (bytes demo_stuck)" "32 + 4 \<le> length (bytes demo_stuck)" "(32 :: nat) < 2 ^ 31"
    by simp_all
  show "take 5 (bytes demo_stuck) = bytes_of ''INV4'' @ [0]" "fslice (bytes demo_stuck) 32 4 = [0, 0, 0, 0]"
    by (simp_all add: demo_stuck_def bytes_of_def fslice_def numeral_eq_Suc)
  have i: "bytes_int [32, 0, 0, 0] = 32" "bytes_int [36, 0, 0, 0] = 36" "bytes_int [100, 0, 0, 0] = 100"
    by (simp_all add: bytes_int_def)
  show "hd_get HDB_VERSION (bytes demo_stuck) = INV_VERSION" "hd_get HDB_FIRST_RECORD (bytes demo_stuck) = int 32"
    "int 32 < hd_get HDB_FIRST_STAT (bytes demo_stuck)"
    unfolding hd_get_def demo_stuck_def
    by (simp_all add: bytes_of_def fslice_def i drop_Cons' numeral_eq_Suc)
qed

end
