(* ===== verification/Inv_Manager.thy ===== *)
theory Inv_Manager
  imports Inv_Queue Inv_Db Proc
begin

text \<open>
  The manager, \<open>src/main_fileops_manager.c\<close>, and \<open>init_workers\<close> of \<open>src/inv_ipc.c\<close>: the
  arguments, the messages of the workers, the loop that stores results until the workers
  have ended, and the end of \<open>main\<close>, which stores what is left in the channel and the
  statistics. The workers change the shared memory between two rounds of the loop, so the
  memory at the start of each round is an argument, like the signals that arrived.
\<close>

section \<open>Arguments\<close>

record manager_args =
  ma_root :: "byte list option"
  ma_workers :: int
  ma_ipc_path :: "byte list"
  ma_db_path :: "byte list"
  ma_max_depth :: int
  ma_simulate_work_ms :: int
  ma_db_mode :: int
  ma_verify :: int
  ma_dump :: int
  ma_graceful_timeout :: int
  ma_pid_path :: "byte list option"

text \<open>
  One option: \<open>None\<close> is the error return. The loop then runs over what \<open>getopt_long\<close>
  returns, an option and its argument each time.
\<close>

definition manager_opt :: "char \<Rightarrow> byte list \<Rightarrow> manager_args \<Rightarrow> manager_args option" where
  "manager_opt opt optarg ma =
     (if opt = CHR ''r'' then
        if ma_verify ma = 1 \<or> ma_dump ma = 1 then None else Some (ma\<lparr>ma_root := Some optarg, ma_db_mode := 0\<rparr>)
      else if opt = CHR ''w'' then Some (ma\<lparr>ma_workers := atoi optarg\<rparr>)
      else if opt = CHR ''i'' then Some (ma\<lparr>ma_ipc_path := optarg\<rparr>)
      else if opt = CHR ''d'' then Some (ma\<lparr>ma_db_path := optarg\<rparr>)
      else if opt = CHR ''m'' then Some (ma\<lparr>ma_max_depth := atoi optarg\<rparr>)
      else if opt = CHR ''s'' then Some (ma\<lparr>ma_simulate_work_ms := atoi optarg\<rparr>)
      else if opt = CHR ''v'' then if ma_db_mode ma = 1 then Some (ma\<lparr>ma_verify := 1\<rparr>) else None
      else if opt = CHR ''p'' then if ma_db_mode ma = 1 then Some (ma\<lparr>ma_dump := 1\<rparr>) else None
      else if opt = CHR ''g'' then Some (ma\<lparr>ma_graceful_timeout := atoi optarg\<rparr>)
      else if opt = CHR ''f'' then Some (ma\<lparr>ma_pid_path := Some optarg\<rparr>)
      else None)"

fun manager_parse_args :: "(char \<times> byte list) list \<Rightarrow> manager_args \<Rightarrow> int \<times> manager_args" where
  "manager_parse_args [] ma = (0, ma)"
| "manager_parse_args ((opt, optarg) # opts) ma =
     (case manager_opt opt optarg ma of None \<Rightarrow> (-1, ma) | Some ma \<Rightarrow> manager_parse_args opts ma)"

definition manager_validate_args :: "manager_args \<Rightarrow> int" where
  "manager_validate_args ma =
     (if ma_root ma = None \<and> ma_db_mode ma = 0 then -1
      else if ma_workers ma \<le> 0 \<and> ma_db_mode ma = 0 then -1
      else if ma_workers ma > int CAPACITY \<and> ma_db_mode ma = 0 then -1
      else if ma_workers ma > 0 \<and> ma_db_mode ma = 1 then -1
      else if ma_max_depth ma \<le> 0 then -1
      else if ma_db_mode ma = 1 \<and> ma_verify ma = 0 \<and> ma_dump ma = 0 then -1
      else if ma_verify ma = 1 \<and> ma_dump ma = 1 then -1
      else if ma_simulate_work_ms ma < 0 then -1
      else if ma_graceful_timeout ma < 0 then -1
      else 0)"

definition default_args :: manager_args where
  "default_args =
     \<lparr>ma_root = None, ma_workers = 0, ma_ipc_path = bytes_of ''./data/ipc.mmap'',
      ma_db_path = bytes_of ''./data/inventory.db'', ma_max_depth = 1024, ma_simulate_work_ms = 0, ma_db_mode = 1,
      ma_verify = 0, ma_dump = 0, ma_graceful_timeout = 8, ma_pid_path = None\<rparr>"

section \<open>Messages\<close>

abbreviation (input) PIPE_READ_BUF :: nat where "PIPE_READ_BUF \<equiv> 32768"

datatype pipe_read = Again | Read_error | Data "byte list"

text \<open>
  The loop over the complete lines: each is terminated and printed as a string, what
  remains is the incomplete last one.
\<close>

function print_lines :: "byte list \<Rightarrow> byte list list \<times> byte list" where
  "print_lines bs =
     (if 10 \<in> set bs then
        let (msgs, rest) = print_lines (tl (dropWhile (\<lambda>b. b \<noteq> 10) bs))
        in (c_str (takeWhile (\<lambda>b. b \<noteq> 10) bs) # msgs, rest)
      else ([], bs))"
  by auto
termination
proof (relation "measure length")
  fix bs :: "byte list"
  assume "10 \<in> set bs"
  then have "dropWhile (\<lambda>b. b \<noteq> 10) bs \<noteq> []"
    by (simp add: dropWhile_eq_Nil_conv)
  then show "(tl (dropWhile (\<lambda>b. b \<noteq> 10) bs), bs) \<in> measure length"
    using length_dropWhile_le [of "\<lambda>b. b \<noteq> 10" bs] by (cases "dropWhile (\<lambda>b. b \<noteq> 10) bs") auto
qed simp

declare print_lines.simps [simp del]

text \<open>
  \<open>read_pipe_messages\<close>: the result, the new content of \<open>pipe_msg_buf\<close>, and what is printed.
  When the data read do not fit behind the content, the content is dropped.
\<close>

definition read_pipe_messages :: "pipe_read \<Rightarrow> byte list \<Rightarrow> int \<times> byte list \<times> byte list list" where
  "read_pipe_messages rd buf =
     (case rd of Again \<Rightarrow> (0, buf, []) | Read_error \<Rightarrow> (-1, buf, [])
      | Data tmp \<Rightarrow>
          let buf = (if PIPE_READ_BUF \<le> length buf + length tmp then [] else buf);
              (msgs, rest) = print_lines (buf @ tmp)
          in (0, rest, msgs))"

section \<open>The main loop\<close>

datatype m_out =
    Message "byte list"
  | Status int int int int int int
  | Kill int string
  | Alarm int
  | Stats worker_stats

record mstate =
  m_fd :: fdesc
  m_pipe :: "byte list"
  m_total :: int
  m_dead :: int
  m_pids :: "int list"
  m_sigint :: int
  m_res :: result
  m_ret :: int
  m_sd :: shared_data
  m_out :: "m_out list"

text \<open>
  What a round meets: the shared memory, what the pipe gives, which signals arrived since
  the last round, and the children \<open>waitpid\<close> reports.
\<close>

record round =
  rn_sd :: shared_data
  rn_pipe :: pipe_read
  rn_usr1 :: bool
  rn_chld :: bool
  rn_int :: bool
  rn_alrm :: bool
  rn_dead :: "int list"

definition out :: "m_out list \<Rightarrow> mstate \<Rightarrow> mstate" where
  "out os m = m\<lparr>m_out := m_out m @ os\<rparr>"

text \<open>Appending a result and counting it.\<close>

definition store_result :: "result \<Rightarrow> fdesc \<Rightarrow> (int \<times> fdesc) outcome" where
  "store_result res f =
     c_bind (append_result_db res f) (\<lambda>(r, f).
     if r = -1 then Ret (-1, f)
     else Ret (0, hd_put HDB_RECORD_COUNT (hd_get HDB_RECORD_COUNT (bytes f) + 1) f))"

definition read_messages :: "pipe_read \<Rightarrow> mstate \<Rightarrow> mstate" where
  "read_messages rd m =
     (let (_, buf, msgs) = read_pipe_messages rd (m_pipe m) in out (map Message msgs) (m\<lparr>m_pipe := buf\<rparr>))"

definition show_status :: "mstate \<Rightarrow> mstate" where
  "show_status m =
     out [Status (h_queued_jobs (sd_hdr (m_sd m))) (h_active_jobs (sd_hdr (m_sd m)))
            (hd_get HDB_RECORD_COUNT (bytes (m_fd m))) (m_total m) (h_workers (sd_hdr (m_sd m)) - m_dead m)
            (hd_get HDB_COMPLETE (bytes (m_fd m)))] m"

text \<open>The first entry with this pid becomes -1.\<close>

fun mark_dead :: "int \<Rightarrow> int list \<Rightarrow> int list" where
  "mark_dead pid [] = []"
| "mark_dead pid (p # ps) = (if p = pid then -1 # ps else p # mark_dead pid ps)"

definition reap :: "int list \<Rightarrow> mstate \<Rightarrow> mstate" where
  "reap dead m = m\<lparr>m_dead := m_dead m + int (length dead), m_pids := foldl (\<lambda>ps pid. mark_dead pid ps) (m_pids m) dead\<rparr>"

definition kill_all :: "string \<Rightarrow> mstate \<Rightarrow> mstate" where
  "kill_all sig m = out (map (\<lambda>p. Kill p sig) (filter (\<lambda>p. 0 < p) (m_pids m))) m"

definition shutdown :: "int \<Rightarrow> mstate \<Rightarrow> mstate" where
  "shutdown graceful_timeout m =
     (let sd = m_sd m;
          sd = sd\<lparr>sd_hdr := (sd_hdr sd)\<lparr>h_active := ENDED\<rparr>\<rparr>;
          sd = sd\<lparr>sd_jq := (post_full ^^ nat (h_workers (sd_hdr sd))) (sd_jq sd)\<rparr>
      in out [Alarm graceful_timeout] (kill_all ''SIGTERM'' (m\<lparr>m_sigint := 2, m_sd := sd\<rparr>)))"

text \<open>How a round ends: the loop goes on, ends, or \<open>append_result_db\<close> failed.\<close>

datatype round_end = Continue | Ended | Failed

definition manager_round :: "manager_args \<Rightarrow> round \<Rightarrow> mstate \<Rightarrow> (round_end \<times> mstate) outcome" where
  "manager_round ma r m =
     (let m = (if rn_int r then m\<lparr>m_sigint := 1\<rparr> else m) in
      c_bind (dequeue_result (m_res m) (rn_sd r)) (\<lambda>(ret_value, res, sd).
      let m = m\<lparr>m_ret := ret_value, m_res := res, m_sd := sd\<rparr> in
      if ret_value = 1 \<and> m_sigint m \<noteq> 2 then Ret (Ended, m) else
      c_bind
        (if ret_value = 0 then
           c_bind (store_result res (m_fd m)) (\<lambda>(r, f).
           if r = -1 then Ret (Failed, m\<lparr>m_fd := f\<rparr>)
           else Ret (Continue, m\<lparr>m_fd := hd_put HDB_COMPLETE 1 f, m_total := m_total m + sint (r_size res)\<rparr>))
         else Ret (Continue, m)) (\<lambda>(stored, m).
      if stored = Failed then Ret (Failed, m) else
      let m = read_messages (rn_pipe r) m;
          m = (if rn_usr1 r then show_status m else m);
          m = (if rn_chld r then reap (rn_dead r) m else m) in
      if rn_chld r \<and> m_dead m = ma_workers ma then Ret (Ended, m\<lparr>m_sigint := 1\<rparr>) else
      let m = (if m_sigint m = 1 then shutdown (ma_graceful_timeout ma) m else m) in
      Ret (Continue, if rn_alrm r then (kill_all ''SIGKILL'' m)\<lparr>m_sigint := 1\<rparr> else m))))"

text \<open>The loop over the rounds given; \<open>Diverge\<close> when they do not end it.\<close>

fun manager_loop :: "manager_args \<Rightarrow> round list \<Rightarrow> mstate \<Rightarrow> (bool \<times> mstate) outcome" where
  "manager_loop ma [] m = Diverge"
| "manager_loop ma (r # rs) m =
     c_bind (manager_round ma r m) (\<lambda>(e, m).
     case e of Continue \<Rightarrow> manager_loop ma rs m | Ended \<Rightarrow> Ret (False, m) | Failed \<Rightarrow> Ret (True, m))"

section \<open>The end\<close>

text \<open>
  The results that remain in the channel, from \<open>head_pos\<close> to \<open>tail_pos\<close>. When an append
  fails the code jumps back to the start of the loop before it reduces \<open>head_pos\<close>.
\<close>

function drain_results :: "result channel \<Rightarrow> fdesc \<Rightarrow> bool \<Rightarrow> (bool \<times> result channel \<times> fdesc) outcome" where
  "drain_results rc f failed =
     (if CAPACITY \<le> ch_head rc \<or> CAPACITY \<le> ch_tail rc then UB
      else if ch_head rc = ch_tail rc then Ret (failed, rc, f)
      else case store_result (ch_slots rc ! ch_head rc) f of
             Ret (r, f) \<Rightarrow>
               if r = -1 then drain_results (rc\<lparr>ch_head := ch_head rc + 1\<rparr>) f True
               else drain_results (rc\<lparr>ch_head := (ch_head rc + 1) mod CAPACITY\<rparr>) f failed
           | UB \<Rightarrow> UB | Diverge \<Rightarrow> Diverge)"
  by pat_completeness auto
termination
proof (relation "measure (\<lambda>(rc, _, _). if ch_head rc \<le> ch_tail rc then ch_tail rc - ch_head rc else CAPACITY + ch_tail rc - ch_head rc)")
qed (auto simp: mod_Suc)

declare drain_results.simps [simp del]

text \<open>The statistics, last in first out. \<open>pad\<close> is the padding of the struct.\<close>

function drain_stats :: "byte list \<Rightarrow> worker_stats \<Rightarrow> shared_data \<Rightarrow> fdesc \<Rightarrow> bool \<Rightarrow> (bool \<times> fdesc \<times> worker_stats list) outcome" where
  "drain_stats pad wstats sd f failed =
     (if ws_count (sd_ws sd) \<le> 0 then Ret (failed, f, [])
      else case pop_worker_stats wstats sd of
             Ret (r, wstats, sd') \<Rightarrow>
               (let (r, f) = append_stats_db pad wstats f in
                case drain_stats pad wstats sd' f (failed \<or> r = -1) of
                  Ret (failed, f, shown) \<Rightarrow> Ret (failed, f, wstats # shown)
                | UB \<Rightarrow> UB | Diverge \<Rightarrow> Diverge)
           | UB \<Rightarrow> UB | Diverge \<Rightarrow> Diverge)"
  by pat_completeness auto
termination
  by (relation "measure (\<lambda>(_, _, sd, _, _). nat (ws_count (sd_ws sd)))")
    (auto simp: pop_worker_stats_def Let_def split: if_splits)

declare drain_stats.simps [simp del]

section \<open>The workers\<close>

text \<open>
  The arguments of a worker; \<open>snprintf\<close> cuts the numbers to nine characters. \<open>init_workers\<close>
  as the manager returns from it: \<open>fork w\<close> is what \<open>fork\<close> returns for worker \<open>w\<close>.
\<close>

definition worker_argv :: "nat \<Rightarrow> byte list \<Rightarrow> int \<Rightarrow> byte list list" where
  "worker_argv worker ipc control_fd =
     [bytes_of ''../bin/fileops_worker'', bytes_of ''--worker-id'', take 9 (print_d (int worker)), bytes_of ''--ipc'', ipc,
      bytes_of ''--control-fd'', take 9 (print_d control_fd)]"

definition init_workers :: "int \<Rightarrow> byte list \<Rightarrow> int \<Rightarrow> (nat \<Rightarrow> int) \<Rightarrow> int \<times> int list \<times> byte list list list" where
  "init_workers workers ipc control_fd fork =
     (0, map fork [0..<nat workers],
      map (\<lambda>w. worker_argv w ipc control_fd) (filter (\<lambda>w. fork w \<noteq> -1) [0..<nat workers]))"

section \<open>\<open>main\<close>\<close>

text \<open>
  What the system and the workers answer: which calls succeed, the database file, the
  rounds of the main loop (a function of the memory the workers start from), the last read
  of the pipe, whether \<open>SIGINT\<close> arrives after the loop, and the memory once the workers have
  ended (a function of the memory at the end of the loop).
\<close>

record m_env =
  e_pid_fd :: int
  e_pipe_ok :: bool
  e_control_fd :: int
  e_db :: "fdesc option"
  e_db_truncate :: bool
  e_db_map :: bool
  e_db_stat :: bool
  e_db_append :: bool
  e_ipc_open :: bool
  e_ipc_truncate :: bool
  e_ipc_map :: bool
  e_sem_ok :: "nat \<Rightarrow> bool"
  e_realpath :: "byte list \<Rightarrow> byte list option"
  e_fork :: "nat \<Rightarrow> int"
  e_rounds :: "shared_data \<Rightarrow> round list"
  e_last_pipe :: pipe_read
  e_last_int :: bool
  e_last_sd :: "shared_data \<Rightarrow> shared_data"
  e_pad :: "byte list"

text \<open>From the label \<open>cleanup_manager\<close> on.\<close>

definition manager_cleanup :: "m_env \<Rightarrow> bool \<Rightarrow> mstate \<Rightarrow> (int \<times> m_out list \<times> fdesc option) outcome" where
  "manager_cleanup e failed m =
     c_bind (if m_ret m = 1 then drain_results (sd_rc (m_sd m)) (m_fd m) failed
             else Ret (failed, sd_rc (m_sd m), m_fd m)) (\<lambda>(failed, rc, f).
     c_bind (drain_stats (e_pad e) zero_stats (m_sd m) f failed) (\<lambda>(failed, f, shown).
     Ret (if failed then 1 else 0, m_out m @ map Stats shown, Some f)))"

text \<open>From the end of the loop to that label.\<close>

definition manager_complete :: "m_env \<Rightarrow> mstate \<Rightarrow> mstate" where
  "manager_complete e m =
     (let m = (if e_last_int e then m\<lparr>m_sigint := 1\<rparr> else m);
          m = read_messages (e_last_pipe e) m
      in if m_dead m = 0 \<and> m_sigint m = 0 then m\<lparr>m_fd := hd_put HDB_COMPLETE 2 (m_fd m)\<rparr> else m)"

text \<open>
  The inventory mode. When the database cannot be opened for appending, or the root has no
  real path, the code jumps to \<open>cleanup_manager\<close> past the initialisation of \<open>ret_value\<close> and
  tests it there, which is undefined. \<open>strcpy\<close> of a root of 4096 or more bytes is, too.
\<close>

definition manager_inventory :: "m_env \<Rightarrow> manager_args \<Rightarrow> (int \<times> m_out list \<times> fdesc option) outcome" where
  "manager_inventory e ma =
     (case start_db (e_db e) (e_db_truncate e) (e_db_map e) (ma_workers ma) of
        (r, None) \<Rightarrow> Ret (1, [], None)
      | (r, Some f) \<Rightarrow>
      if r = -1 then Ret (1, [], Some f) else
      case start_ipc (e_ipc_open e) (e_ipc_truncate e) (e_ipc_map e) (e_sem_ok e) (ma_workers ma) (ma_max_depth ma)
             (int CAPACITY) (ma_simulate_work_ms ma) of
        (r, None) \<Rightarrow> Ret (1, [], Some f)
      | (r, Some sd) \<Rightarrow>
      let f = hd_put HDB_COMPLETE 0 f in
      if \<not> e_db_append e then UB else
      let f = f\<lparr>fpos := 0, o_append := True\<rparr> in
      case ma_root ma of None \<Rightarrow> UB | Some root \<Rightarrow>
      if INV_PATH_MAX \<le> length root then UB else
      c_bind (enqueue_job (e_realpath e) \<lparr>j_depth = 0, j_name = root\<rparr> sd) (\<lambda>(r, sd).
      if r = -1 then UB else
      let (r, pids, argvs) = init_workers (ma_workers ma) (ma_ipc_path ma) (e_control_fd e) (e_fork e) in
      if r = -1 then UB else
      c_bind (manager_loop ma (e_rounds e sd)
                \<lparr>m_fd = f, m_pipe = [], m_total = 0, m_dead = 0, m_pids = pids, m_sigint = 0, m_res = zero_result,
                 m_ret = 0, m_sd = sd, m_out = []\<rparr>) (\<lambda>(failed, m).
      let m = (if failed then m else manager_complete e m)
      in manager_cleanup e failed (m\<lparr>m_sd := e_last_sd e (m_sd m)\<rparr>))))"

definition manager_main :: "(char \<times> byte list) list \<Rightarrow> m_env \<Rightarrow> (int \<times> m_out list \<times> fdesc option) outcome" where
  "manager_main opts e =
     (let (r, ma) = manager_parse_args opts default_args in
      if r = -1 then Ret (1, [], None)
      else if manager_validate_args ma = -1 then Ret (1, [], None)
      else if ma_verify ma = 1 then c_bind (verify (e_db e) (e_db_map e) (e_db_stat e)) (\<lambda>r. Ret (r, [], e_db e))
      else if ma_dump ma = 1 then
        c_bind (dump (e_db e) (e_db_map e)) (\<lambda>(r, lines). Ret (r, map Message lines, e_db e))
      else if ma_pid_path ma \<noteq> None \<and> e_pid_fd e \<le> 0 then Ret (1, [], None)
      else if \<not> e_pipe_ok e then Ret (1, [], None)
      else manager_inventory e ma)"

end
