(* ===== verification/Inv_Manager_Correct.thy ===== *)
theory Inv_Manager_Correct
  imports Inv_Manager
begin

text \<open>
  What the manager guarantees: the two modes its arguments select, the messages it prints
  whatever the chunks are in which the pipe delivers them, the results it stores in its main
  loop and after it, and the whole of \<open>main\<close> on an inventory no signal interrupts.
\<close>

section \<open>The database while results are stored\<close>

text \<open>
  \<open>db_state L c f rs\<close>: the database holds the results \<open>rs\<close>, counts them, and has the
  completion mark \<open>c\<close>; it can grow to \<open>L\<close> bytes.
\<close>

definition db_state :: "nat \<Rightarrow> int \<Rightarrow> fdesc \<Rightarrow> result list \<Rightarrow> bool" where
  "db_state L c f rs \<longleftrightarrow>
     inv_db (bytes f) (int (length rs)) rs [] \<and> o_append f \<and> file_limit f = L \<and> hd_get HDB_COMPLETE (bytes f) = c"

definition room_for :: "nat \<Rightarrow> result list \<Rightarrow> bool" where
  "room_for L rs \<longleftrightarrow> list_all res_ok rs \<and> records_end rs \<le> L \<and> records_end rs < 2 ^ 31"

lemma records_end_append: "records_end (rs @ xs) = records_end rs + length (concat (map res_bytes xs))"
  by (simp add: records_end_def)

lemma room_for_prefix: "room_for L (rs @ xs) \<Longrightarrow> room_for L rs"
  by (simp add: room_for_def records_end_append)

lemma length_le_records: "list_all res_ok rs \<Longrightarrow> length rs \<le> records_end rs"
  by (induction rs rule: rev_induct) (simp_all add: records_end_snoc length_res_bytes)

lemma inv_db_length: "inv_db d n rs rest \<Longrightarrow> length d = records_end rs + length rest"
proof -
  assume "inv_db d n rs rest"
  then have "32 \<le> length d" "length (drop 32 d) = length (concat (map res_bytes rs)) + length rest"
    unfolding inv_db_def by (metis length_append)+
  then show ?thesis
    by (simp add: records_end_def)
qed

lemma store_result_ok:
  assumes d: "db_state L c f rs" and r: "room_for L (rs @ [x])"
  shows "\<exists>g. store_result x f = Ret (0, g) \<and> db_state L c g (rs @ [x])"
proof -
  have f: "inv_db (bytes f) (int (length rs)) rs []" "o_append f" "file_limit f = L" "hd_get 12 (bytes f) = c"
    using d by (simp_all add: db_state_def)
  have x: "res_ok x" "records_end (rs @ [x]) \<le> L" "records_end (rs @ [x]) < 2 ^ 31"
    using r by (simp_all add: room_for_def)
  have "length (bytes f) + length (r_abs_path x) + 61 \<le> file_limit f"
    using x inv_db_length [OF f(1)] f(3) by (simp add: records_end_snoc length_res_bytes)
  from append_result_ok [OF f(1) x(1) f(2) this x(3)]
  obtain g where g: "append_result_db x f = Ret (0, g)" "inv_db (bytes g) (int (length rs)) (rs @ [x]) []"
    "hd_get 12 (bytes g) = c" "g = f\<lparr>bytes := bytes g, fpos := fpos g\<rparr>"
    using f(4) by auto
  have k: "int (length rs) + 1 < 2 ^ 31"
    using length_le_records [of "rs @ [x]"] r x(3) by (simp add: room_for_def)
  have a: "o_append g" "file_limit g = L"
    using arg_cong [OF g(4), of o_append] arg_cong [OF g(4), of file_limit] f(2,3) by simp_all
  let ?h = "hd_put 16 (hd_get 16 (bytes g) + 1) g"
  have "store_result x f = Ret (0, ?h)"
    using g(1) by (simp add: store_result_def)
  moreover have "db_state L c ?h (rs @ [x])"
    using count_record_ok [OF g(2) _ k] g(3) a by (simp add: db_state_def hd_put_def add.commute)
  ultimately show ?thesis
    by blast
qed

lemma db_state_complete:
  assumes "db_state L c f rs" "- (2 ^ 31) \<le> v" "v < 2 ^ 31"
  shows "db_state L v (hd_put HDB_COMPLETE v f) rs"
  using assms complete_ok [OF _ assms(2,3), of f "int (length rs)" rs "[]"] by (simp add: db_state_def hd_put_def)

section \<open>The rest of the channel\<close>

lemma drain_holds:
  assumes "ch_holds rc xs" "length xs < CAPACITY" "db_state L c f rs" "room_for L (rs @ xs)"
  shows "\<exists>rc' g. drain_results rc f failed = Ret (failed, rc', g) \<and> db_state L c g (rs @ xs)"
  using assms
proof (induction xs arbitrary: rc f rs)
  case Nil
  then show ?case
    by (subst drain_results.simps) (simp add: ch_holds_def)
next
  case (Cons x xs)
  have h: "ch_head rc < 2048" "ch_tail rc < 2048" "ch_head rc \<noteq> ch_tail rc"
    using Cons.prems(1,2) ring_apart [of 0 "Suc (length xs)" 2048 "ch_head rc"] by (auto simp: ch_holds_def)
  have x: "ch_slots rc ! ch_head rc = x" "ch_holds (rc\<lparr>ch_head := (ch_head rc + 1) mod CAPACITY\<rparr>) xs"
    using ch_holds_take [OF Cons.prems(1)] by (simp_all add: ch_take_def)
  obtain g where g: "store_result x f = Ret (0, g)" "db_state L c g (rs @ [x])"
    using store_result_ok [OF Cons.prems(3), of x] room_for_prefix [of L "rs @ [x]" xs] Cons.prems(4) by auto
  have "drain_results rc f failed = drain_results (rc\<lparr>ch_head := (ch_head rc + 1) mod CAPACITY\<rparr>) g failed"
    using h x(1) g(1) by (subst drain_results.simps) simp
  then show ?case
    using Cons.IH [OF x(2) _ g(2)] Cons.prems by simp
qed

lemma drain_stats_ok:
  assumes "stats_hold sd ss" "inv_db (bytes f) n rs rest" "o_append f" "length (bytes f) + 56 * length ss \<le> file_limit f"
  shows "\<exists>g. drain_stats pad w sd f failed = Ret (failed, g, rev ss) \<and>
    inv_db (bytes g) n rs (rest @ concat (map (stats_bytes pad) (rev ss))) \<and> hd_get HDB_COMPLETE (bytes g) = hd_get HDB_COMPLETE (bytes f)"
  using assms
proof (induction ss arbitrary: sd f rest w rule: rev_induct)
  case Nil
  then show ?case
    by (subst drain_stats.simps) (simp add: stats_hold_def)
next
  case (snoc s ss)
  obtain t where t: "pop_worker_stats w sd = Ret (0, s, t)" "stats_hold t ss"
    using pop_stats_ok [OF snoc.prems(1)] by blast
  obtain g where g: "append_stats_db pad s f = (0, g)" "inv_db (bytes g) n rs (rest @ stats_bytes pad s)"
    "hd_get 12 (bytes g) = hd_get 12 (bytes f)" "g = f\<lparr>bytes := bytes g, fpos := fpos g\<rparr>" "length (bytes g) = length (bytes f) + 56"
    using append_stats_ok [OF snoc.prems(2,3)] snoc.prems(4) by auto
  have a: "o_append g" "file_limit g = file_limit f"
    using arg_cong [OF g(4), of o_append] arg_cong [OF g(4), of file_limit] snoc.prems(3) by simp_all
  obtain h where h: "drain_stats pad s t g failed = Ret (failed, h, rev ss)"
    "inv_db (bytes h) n rs ((rest @ stats_bytes pad s) @ concat (map (stats_bytes pad) (rev ss)))"
    "hd_get 12 (bytes h) = hd_get 12 (bytes g)"
    using snoc.IH [OF t(2) g(2) a(1)] snoc.prems(4) g(5) a(2) by auto
  have "0 < ws_count (sd_ws sd)"
    using snoc.prems(1) by (simp add: stats_hold_def)
  then have "drain_stats pad w sd f failed = Ret (failed, h, s # rev ss)"
    using t(1) g(1) h(1) by (subst drain_stats.simps) simp
  then show ?case
    using h(2,3) g(3) by simp
qed

section \<open>The arguments\<close>

definition args_inv :: "manager_args \<Rightarrow> bool" where
  "args_inv ma \<longleftrightarrow>
     ma_db_mode ma \<in> {0, 1} \<and> (ma_db_mode ma = 1 \<longleftrightarrow> ma_root ma = None) \<and> ma_verify ma \<in> {0, 1} \<and> ma_dump ma \<in> {0, 1} \<and>
     (ma_db_mode ma = 0 \<longrightarrow> ma_verify ma = 0 \<and> ma_dump ma = 0)"

lemma if_Some_elim: "(if b then x else y) = Some z \<Longrightarrow> (b \<Longrightarrow> x = Some z \<Longrightarrow> P) \<Longrightarrow> (y = Some z \<Longrightarrow> P) \<Longrightarrow> P"
  by (cases b) simp_all

lemma manager_opt_inv:
  assumes "args_inv ma" "manager_opt opt optarg ma = Some ma'"
  shows "args_inv ma'"
proof (cases "opt = CHR ''r''")
  case True
  then show ?thesis
    using assms by (auto simp: args_inv_def manager_opt_def split: if_splits)
next
  case False
  show ?thesis
    using assms(2) unfolding manager_opt_def if_not_P [OF False]
    by (elim if_Some_elim) (use assms(1) in \<open>clarsimp simp: args_inv_def\<close>)+
qed

lemma parse_args_inv: "args_inv ma \<Longrightarrow> manager_parse_args opts ma = (r, ma') \<Longrightarrow> args_inv ma'"
  by (induction opts ma rule: manager_parse_args.induct) (auto intro: manager_opt_inv split: option.splits)

section \<open>The messages\<close>

text \<open>Several reads of the pipe.\<close>

fun read_chunks :: "byte list \<Rightarrow> byte list list \<Rightarrow> byte list \<times> byte list list" where
  "read_chunks buf [] = (buf, [])"
| "read_chunks buf (c # cs) =
     (let (_, buf, msgs) = read_pipe_messages (Data c) buf; (buf, more) = read_chunks buf cs in (buf, msgs @ more))"

lemma print_lines_none: "10 \<notin> set bs \<Longrightarrow> print_lines bs = ([], bs)"
  by (simp add: print_lines.simps)

lemma print_lines_line: "10 \<notin> set m \<Longrightarrow> print_lines (m @ 10 # bs) = (c_str m # fst (print_lines bs), snd (print_lines bs))"
proof -
  assume "10 \<notin> set m"
  then have "takeWhile (\<lambda>b. b \<noteq> 10) (m @ 10 # bs) = m" "dropWhile (\<lambda>b. b \<noteq> 10) (m @ 10 # bs) = 10 # bs"
    by (simp_all add: takeWhile_append dropWhile_append takeWhile_eq_all_conv dropWhile_eq_Nil_conv)
  then show ?thesis
    by (subst print_lines.simps) (simp add: case_prod_beta)
qed

lemma print_lines_rest: "10 \<notin> set (snd (print_lines bs)) \<and> (\<exists>xs. bs = xs @ snd (print_lines bs))"
proof (induction "length bs" arbitrary: bs rule: less_induct)
  case less
  show ?case
  proof (cases "10 \<in> set bs")
    case True
    then obtain m cs where b: "bs = m @ 10 # cs" "10 \<notin> set m"
      by (metis split_list_first)
    from less [of cs] obtain xs where x: "10 \<notin> set (snd (print_lines cs))" "cs = xs @ snd (print_lines cs)"
      by (auto simp: b(1))
    have r: "snd (print_lines bs) = snd (print_lines cs)"
      by (simp add: b print_lines_line)
    have "bs = (m @ 10 # xs) @ snd (print_lines cs)"
      using b(1) x(2) by simp
    then show ?thesis
      unfolding r using x(1) by blast
  qed (simp add: print_lines_none)
qed

lemma print_lines_append:
  "print_lines (a @ b) =
    (fst (print_lines a) @ fst (print_lines (snd (print_lines a) @ b)), snd (print_lines (snd (print_lines a) @ b)))"
proof (induction "length a" arbitrary: a rule: less_induct)
  case less
  show ?case
  proof (cases "10 \<in> set a")
    case True
    then obtain m cs where a: "a = m @ 10 # cs" "10 \<notin> set m"
      by (metis split_list_first)
    then show ?thesis
      using less [of cs] by (simp add: print_lines_line)
  qed (simp add: print_lines_none)
qed

lemma run_short:
  "concat (map (\<lambda>m. m @ [10]) ms) = xs @ ys @ zs \<Longrightarrow> 10 \<notin> set ys \<Longrightarrow> \<forall>m \<in> set ms. length m < n \<Longrightarrow> 0 < n \<Longrightarrow>
   length ys < n"
proof (induction ms arbitrary: xs)
  case (Cons m ms)
  have e: "(m @ [10]) @ concat (map (\<lambda>m. m @ [10]) ms) = xs @ ys @ zs"
    using Cons.prems(1) by simp
  show ?case
  proof (cases "length xs \<le> length m")
    case True
    have "\<not> length m < length xs + length ys"
    proof
      assume l: "length m < length xs + length ys"
      have "(xs @ ys @ zs) ! length m = ys ! (length m - length xs)"
        using l True by (simp add: nth_append) linarith
      moreover have "(xs @ ys @ zs) ! length m = 10"
        unfolding e [symmetric] by (simp add: nth_append)
      ultimately show False
        using Cons.prems(2) l True by (metis less_diff_conv2 nth_mem add.commute)
    qed
    moreover have "length m < n"
      using Cons.prems(3) by simp
    ultimately show ?thesis
      by simp
  next
    case False
    have "xs = take (length (m @ [10])) (xs @ ys @ zs) @ drop (length (m @ [10])) xs"
      using False by simp
    then obtain us where us: "xs = (m @ [10]) @ us"
      unfolding e [symmetric] by auto
    then have "concat (map (\<lambda>m. m @ [10]) ms) = us @ ys @ zs"
      using e by simp
    then show ?thesis
      using Cons by auto
  qed
qed simp

lemma read_chunks_lines:
  assumes "p @ concat cs = concat (map (\<lambda>m. m @ [10]) ms)" "\<forall>m \<in> set ms. length m < 28672" "\<forall>c \<in> set cs. length c \<le> 4096"
  shows "read_chunks (snd (print_lines p)) cs = (snd (print_lines (p @ concat cs)),
    fst (print_lines (snd (print_lines p) @ concat cs)))"
  using assms
proof (induction cs arbitrary: p)
  case Nil
  then show ?case
    using print_lines_rest [of p] by (simp add: print_lines_none)
next
  case (Cons c cs)
  let ?b = "snd (print_lines p)"
  obtain xs where p: "p = xs @ ?b" "10 \<notin> set ?b"
    using print_lines_rest by blast
  have "concat (map (\<lambda>m. m @ [10]) ms) = xs @ ?b @ (c @ concat cs)"
    using Cons.prems(1) p(1) by (metis append.assoc concat.simps(2))
  then have "length ?b < 28672"
    using run_short [OF _ p(2) Cons.prems(2)] by simp
  then have "\<not> 32768 \<le> length ?b + length c"
    using Cons.prems(3) by simp
  then have r: "read_pipe_messages (Data c) ?b = (0, snd (print_lines (?b @ c)), fst (print_lines (?b @ c)))"
    by (simp add: read_pipe_messages_def case_prod_beta Let_def)
  have i: "read_chunks (snd (print_lines (p @ c))) cs = (snd (print_lines ((p @ c) @ concat cs)),
      fst (print_lines (snd (print_lines (p @ c)) @ concat cs)))"
    using Cons.IH [of "p @ c"] Cons.prems by simp
  have "print_lines (?b @ c @ concat cs) = (fst (print_lines (?b @ c)) @ fst (print_lines (snd (print_lines (?b @ c)) @ concat cs)),
      snd (print_lines (snd (print_lines (?b @ c)) @ concat cs)))"
    using print_lines_append [of "?b @ c" "concat cs"] by simp
  then show ?case
    using r i print_lines_append [of p c] by simp
qed

lemma print_messages:
  "\<forall>m \<in> set ms. 10 \<notin> set m \<and> 0 \<notin> set m \<Longrightarrow> print_lines (concat (map (\<lambda>m. m @ [10]) ms)) = (ms, [])"
proof (induction ms)
  case (Cons m ms)
  have "takeWhile (\<lambda>b. b \<noteq> 0) m = m"
    using Cons.prems by (auto simp: takeWhile_eq_all_conv)
  then show ?case
    using Cons by (simp add: print_lines_line c_str_def)
qed (simp add: print_lines_none)

section \<open>The main loop\<close>

text \<open>
  Rounds without a signal but \<open>SIGUSR1\<close>, in which \<open>dequeue_result\<close> returns the results
  \<open>xs\<close>, or nothing; and the round in which it finds that the workers have ended.
\<close>

definition quiet :: "round \<Rightarrow> bool" where
  "quiet r \<longleftrightarrow> \<not> rn_chld r \<and> \<not> rn_int r \<and> \<not> rn_alrm r"

fun delivers :: "round list \<Rightarrow> result list \<Rightarrow> bool" where
  "delivers [] xs \<longleftrightarrow> xs = []"
| "delivers (r # rs) xs \<longleftrightarrow> quiet r \<and>
     ((\<exists>x ys. xs = x # ys \<and> (\<forall>res. \<exists>sd. dequeue_result res (rn_sd r) = Ret (0, x, sd)) \<and> delivers rs ys) \<or>
      (\<forall>res. \<exists>sd. dequeue_result res (rn_sd r) = Ret (2, res, sd)) \<and> delivers rs xs)"

definition ends :: "round \<Rightarrow> bool" where
  "ends r \<longleftrightarrow> quiet r \<and> h_active (sd_hdr (rn_sd r)) = ENDED"

text \<open>What the end of \<open>main\<close> needs of the state.\<close>

definition m_state :: "nat \<Rightarrow> mstate \<Rightarrow> result list \<Rightarrow> bool" where
  "m_state L m rs \<longleftrightarrow> (\<exists>c. db_state L c (m_fd m) rs) \<and> m_sigint m = 0 \<and> m_dead m = 0"

lemma m_state_output [simp]:
  "m_state L (out os m) rs = m_state L m rs" "m_state L (read_messages rd m) rs = m_state L m rs"
  "m_state L (show_status m) rs = m_state L m rs" "m_state L (m\<lparr>m_res := r\<rparr>) rs = m_state L m rs"
  "m_state L (m\<lparr>m_ret := k\<rparr>) rs = m_state L m rs" "m_state L (m\<lparr>m_sd := sd\<rparr>) rs = m_state L m rs"
  "m_state L (m\<lparr>m_total := k\<rparr>) rs = m_state L m rs"
  by (simp_all add: m_state_def out_def read_messages_def show_status_def case_prod_beta)

definition after_round :: "round \<Rightarrow> mstate \<Rightarrow> mstate" where
  "after_round r m = (if rn_usr1 r then show_status (read_messages (rn_pipe r) m) else read_messages (rn_pipe r) m)"

lemma after_round_state: "m_state L (after_round r m) rs = m_state L m rs"
  by (simp add: after_round_def)

lemma manager_round_quiet:
  assumes "quiet r" "dequeue_result (m_res m) (rn_sd r) = Ret (k, res, sd)" "m_sigint m = 0" "k = 2"
  shows "manager_round ma r m = Ret (Continue, after_round r (m\<lparr>m_ret := k, m_res := res, m_sd := sd\<rparr>))"
  using assms
  by (simp add: manager_round_def after_round_def quiet_def read_messages_def show_status_def out_def case_prod_beta Let_def)

lemma manager_round_stores:
  assumes "quiet r" "dequeue_result (m_res m) (rn_sd r) = Ret (0, res, sd)" "m_sigint m = 0" "store_result res (m_fd m) = Ret (0, f)"
  shows "manager_round ma r m = Ret (Continue, after_round r
    (m\<lparr>m_ret := 0, m_res := res, m_sd := sd, m_fd := hd_put HDB_COMPLETE 1 f, m_total := m_total m + sint (r_size res)\<rparr>))"
  using assms
  by (simp add: manager_round_def after_round_def quiet_def read_messages_def show_status_def out_def case_prod_beta Let_def)

lemma manager_loop_delivers:
  assumes "delivers rds xs" "m_state L m rs" "room_for L (rs @ xs)"
  shows "\<exists>m'. manager_loop ma (rds @ later) m = manager_loop ma later m' \<and> m_state L m' (rs @ xs)"
  using assms
proof (induction rds arbitrary: m xs rs)
  case (Cons r rds)
  have q: "quiet r" "m_sigint m = 0"
    using Cons.prems by (simp_all add: m_state_def)
  consider (got) x ys sd where "xs = x # ys" "dequeue_result (m_res m) (rn_sd r) = Ret (0, x, sd)" "delivers rds ys" |
    (none) sd where "dequeue_result (m_res m) (rn_sd r) = Ret (2, m_res m, sd)" "delivers rds xs"
    using Cons.prems(1) unfolding delivers.simps by blast
  then show ?case
  proof cases
    case got
    obtain c where c: "db_state L c (m_fd m) rs"
      using Cons.prems(2) by (auto simp: m_state_def)
    obtain f where f: "store_result x (m_fd m) = Ret (0, f)" "db_state L c f (rs @ [x])"
      using store_result_ok [OF c, of x] room_for_prefix [of L "rs @ [x]" ys] Cons.prems(3) got(1) by auto
    have "db_state L 1 (hd_put HDB_COMPLETE 1 f) (rs @ [x])"
      by (rule db_state_complete [OF f(2)]) simp_all
    then have "m_state L (m\<lparr>m_ret := 0, m_res := x, m_sd := sd, m_fd := hd_put HDB_COMPLETE 1 f,
        m_total := m_total m + sint (r_size x)\<rparr>) (rs @ [x])"
      using Cons.prems(2) by (auto simp: m_state_def)
    then have "m_state L (after_round r
        (m\<lparr>m_ret := 0, m_res := x, m_sd := sd, m_fd := hd_put HDB_COMPLETE 1 f, m_total := m_total m + sint (r_size x)\<rparr>)) (rs @ [x])"
      by (rule after_round_state [THEN iffD2])
    from Cons.IH [OF got(3) this] Cons.prems(3) show ?thesis
      by (simp add: manager_round_stores [OF q(1) got(2) q(2) f(1)] got(1))
  next
    case none
    have "m_state L (after_round r (m\<lparr>m_ret := 2, m_res := m_res m, m_sd := sd\<rparr>)) rs"
      using Cons.prems(2) by (simp add: after_round_state)
    from Cons.IH [OF none(2) this Cons.prems(3)] show ?thesis
      by (simp add: manager_round_quiet [OF q(1) none(1) q(2) refl])
  qed
qed auto

lemma manager_loop_ends:
  assumes "ends r" "m_sigint m = 0"
  shows "manager_loop ma (r # later) m =
    Ret (False, m\<lparr>m_ret := 1, m_sd := (rn_sd r)\<lparr>sd_rc := post_full (sd_rc (rn_sd r))\<rparr>\<rparr>)"
  using assms by (simp add: manager_round_def ends_def quiet_def dequeue_result_def Let_def)

section \<open>The end of \<open>main\<close>\<close>

text \<open>What the database is in the end.\<close>

definition complete_db :: "byte list \<Rightarrow> int \<Rightarrow> result list \<Rightarrow> byte list \<Rightarrow> bool" where
  "complete_db d mark rs rest \<longleftrightarrow> inv_db d (int (length rs)) rs rest \<and> hd_get HDB_COMPLETE d = mark"

lemma complete_db_verify: "complete_db (bytes f) mark rs rest \<Longrightarrow> verify (Some f) True True = Ret 0"
  unfolding complete_db_def using verify_inv_db [of f "int (length rs)" rs rest] by auto

lemma complete_db_decode:
  "complete_db d mark rs rest \<Longrightarrow> decode_results (nat (hd_get HDB_RECORD_COUNT d)) (drop HDB_SIZE d) = rs"
  unfolding complete_db_def inv_db_def by (auto simp: decode_all simp del: decode_results.simps)

lemma manager_cleanup_ok:
  assumes d: "db_state L c (m_fd m) rs" "m_ret m = 1" and s: "ch_holds (sd_rc (m_sd m)) xs" "length xs < CAPACITY"
    "stats_hold (m_sd m) ss" and r: "room_for L (rs @ xs)" "records_end (rs @ xs) + 56 * length ss \<le> L"
  shows "\<exists>g. manager_cleanup e False m = Ret (0, m_out m @ map Stats (rev ss), Some g) \<and>
    complete_db (bytes g) c (rs @ xs) (concat (map (stats_bytes (e_pad e)) (rev ss)))"
proof -
  obtain rc f where f: "drain_results (sd_rc (m_sd m)) (m_fd m) False = Ret (False, rc, f)" "db_state L c f (rs @ xs)"
    using drain_holds [OF s(1,2) d(1) r(1)] by blast
  then have i: "inv_db (bytes f) (int (length (rs @ xs))) (rs @ xs) []" "o_append f" "file_limit f = L" "hd_get 12 (bytes f) = c"
    by (simp_all add: db_state_def)
  have "length (bytes f) + 56 * length ss \<le> file_limit f"
    using inv_db_length [OF i(1)] i(3) r(2) by simp
  from drain_stats_ok [OF s(3) i(1,2) this, of "e_pad e" zero_stats False]
  obtain g where "drain_stats (e_pad e) zero_stats (m_sd m) f False = Ret (False, g, rev ss)"
    "inv_db (bytes g) (int (length (rs @ xs))) (rs @ xs) (concat (map (stats_bytes (e_pad e)) (rev ss)))"
    "hd_get 12 (bytes g) = hd_get 12 (bytes f)"
    by auto
  then show ?thesis
    using f(1) d(2) i(4) by (auto simp: manager_cleanup_def complete_db_def)
qed

text \<open>The calls of \<open>main\<close> succeed, and \<open>SIGINT\<close> does not arrive after the loop.\<close>

definition env_ok :: "m_env \<Rightarrow> manager_args \<Rightarrow> fdesc \<Rightarrow> bool" where
  "env_ok e ma f \<longleftrightarrow>
     (ma_pid_path ma = None \<or> 0 < e_pid_fd e) \<and> e_pipe_ok e \<and> e_db e = Some f \<and> e_db_truncate e \<and> e_db_map e \<and>
     e_db_append e \<and> e_ipc_open e \<and> e_ipc_truncate e \<and> e_ipc_map e \<and> e_sem_ok e = (\<lambda>_. True) \<and> \<not> e_last_int e"

definition start_jobs :: "(byte list \<Rightarrow> byte list option) \<Rightarrow> manager_args \<Rightarrow> byte list \<Rightarrow> shared_data \<Rightarrow> bool" where
  "start_jobs realpath ma root sd \<longleftrightarrow>
     (\<exists>sd0. start_ipc True True True (\<lambda>_. True) (ma_workers ma) (ma_max_depth ma) (int CAPACITY) (ma_simulate_work_ms ma) =
         (0, Some sd0) \<and>
       enqueue_job realpath \<lparr>j_depth = 0, j_name = root\<rparr> sd0 = Ret (0, sd))"

lemma default_args_inv: "args_inv default_args"
  by (simp add: args_inv_def default_args_def)

lemma validated:
  assumes "manager_validate_args ma = 0"
  shows "ma_db_mode ma = 0 \<longrightarrow> ma_root ma \<noteq> None \<and> 1 \<le> ma_workers ma \<and> ma_workers ma \<le> int CAPACITY"
    "ma_db_mode ma = 1 \<longrightarrow> ma_workers ma \<le> 0 \<and> (ma_verify ma \<noteq> 0 \<or> ma_dump ma \<noteq> 0)"
    "\<not> (ma_verify ma = 1 \<and> ma_dump ma = 1)"
    "1 \<le> ma_max_depth ma \<and> 0 \<le> ma_simulate_work_ms ma \<and> 0 \<le> ma_graceful_timeout ma"
  using assms by (simp_all add: manager_validate_args_def split: if_splits) auto

lemma modes:
  assumes "manager_parse_args opts default_args = (0, ma)" "manager_validate_args ma = 0"
  shows "(ma_root ma \<noteq> None \<and> 1 \<le> ma_workers ma \<and> ma_workers ma \<le> int CAPACITY \<and> ma_verify ma = 0 \<and> ma_dump ma = 0) \<or>
    (ma_root ma = None \<and> ma_workers ma \<le> 0 \<and> (ma_verify ma = 1 \<longleftrightarrow> ma_dump ma = 0))"
proof (cases "ma_db_mode ma = 0")
  case True
  then show ?thesis
    using parse_args_inv [OF default_args_inv assms(1)] validated(1) [OF assms(2)] by (simp add: args_inv_def)
next
  case False
  then show ?thesis
    using parse_args_inv [OF default_args_inv assms(1)] validated(2,3) [OF assms(2)] by (auto simp: args_inv_def)
qed

lemma m_state_start:
  assumes "1 \<le> ma_workers ma" "ma_workers ma \<le> int CAPACITY"
  obtains g where "start_db (Some f) True True (ma_workers ma) = (0, Some g)"
    "db_state (file_limit f) 0 ((hd_put HDB_COMPLETE 0 g)\<lparr>fpos := 0, o_append := True\<rparr>) []"
proof -
  obtain g where g: "start_db (Some f) True True (ma_workers ma) = (0, Some g)" "inv_db (bytes g) 0 [] []"
    "g = f\<lparr>bytes := bytes g\<rparr>"
    using start_db_ok [of "ma_workers ma" f] assms by auto
  have "file_limit g = file_limit f"
    using arg_cong [OF g(3), of file_limit] by simp
  then show thesis
    using that [OF g(1)] complete_ok [OF g(2), of 0] by (simp add: db_state_def hd_put_def)
qed

lemma manager_inventory_ok:
  assumes w: "1 \<le> ma_workers ma" "ma_workers ma \<le> int CAPACITY"
    and e: "env_ok e ma f" "ma_root ma = Some root" "length root < INV_PATH_MAX" "start_jobs (e_realpath e) ma root sd"
    and r: "e_rounds e sd = rds @ [r]" "delivers rds rs" "ends r"
    and s: "e_last_sd e ((rn_sd r)\<lparr>sd_rc := post_full (sd_rc (rn_sd r))\<rparr>) = sdl"
      "ch_holds (sd_rc sdl) xs" "length xs < CAPACITY" "stats_hold sdl ss"
    and l: "room_for (file_limit f) (rs @ xs)" "records_end (rs @ xs) + 56 * length ss \<le> file_limit f"
  shows "\<exists>outs g. manager_inventory e ma = Ret (0, outs @ map Stats (rev ss), Some g) \<and>
    complete_db (bytes g) 2 (rs @ xs) (concat (map (stats_bytes (e_pad e)) (rev ss)))"
proof -
  obtain g where g: "start_db (Some f) True True (ma_workers ma) = (0, Some g)"
    "db_state (file_limit f) 0 ((hd_put HDB_COMPLETE 0 g)\<lparr>fpos := 0, o_append := True\<rparr>) []"
    using m_state_start [OF w] .
  obtain sd0 where sd0: "start_ipc True True True (\<lambda>_. True) (ma_workers ma) (ma_max_depth ma) (int CAPACITY)
      (ma_simulate_work_ms ma) = (0, Some sd0)" "enqueue_job (e_realpath e) \<lparr>j_depth = 0, j_name = root\<rparr> sd0 = Ret (0, sd)"
    using e(4) by (auto simp: start_jobs_def)
  let ?m = "\<lparr>m_fd = (hd_put HDB_COMPLETE 0 g)\<lparr>fpos := 0, o_append := True\<rparr>, m_pipe = [], m_total = 0, m_dead = 0,
     m_pids = map (e_fork e) [0..<nat (ma_workers ma)], m_sigint = 0, m_res = zero_result, m_ret = 0, m_sd = sd, m_out = []\<rparr>"
  have "m_state (file_limit f) ?m []"
    using g(2) by (auto simp: m_state_def)
  from manager_loop_delivers [OF r(2) this, of ma "[r]"] room_for_prefix [OF l(1)]
  obtain m where m: "manager_loop ma (rds @ [r]) ?m = manager_loop ma [r] m" "m_state (file_limit f) m rs"
    by auto
  let ?n = "m\<lparr>m_ret := 1, m_sd := (rn_sd r)\<lparr>sd_rc := post_full (sd_rc (rn_sd r))\<rparr>\<rparr>"
  have n: "manager_loop ma (e_rounds e sd) ?m = Ret (False, ?n)"
    using m manager_loop_ends [OF r(3), of m ma "[]"] r(1) by (simp add: m_state_def)
  define k where "k = (manager_complete e ?n)\<lparr>m_sd := sdl\<rparr>"
  have "db_state (file_limit f) 2 (m_fd k) rs" "m_ret k = 1" "m_sd k = sdl"
    using m(2) e(1) db_state_complete [of "file_limit f" _ "m_fd m" rs 2]
    by (auto simp: k_def manager_complete_def env_ok_def m_state_def read_messages_def out_def case_prod_beta Let_def)
  moreover have "m_sd (manager_complete e ?n) = (rn_sd r)\<lparr>sd_rc := post_full (sd_rc (rn_sd r))\<rparr>"
    by (simp add: manager_complete_def read_messages_def out_def case_prod_beta Let_def)
  ultimately have "manager_inventory e ma = manager_cleanup e False k"
    using e g(1) sd0 n s(1) by (simp add: manager_inventory_def env_ok_def init_workers_def k_def Let_def)
  then show ?thesis
    using manager_cleanup_ok [of "file_limit f" 2 k rs xs ss e] \<open>db_state _ 2 _ _\<close> \<open>m_ret k = 1\<close> \<open>m_sd k = sdl\<close> s(2-4) l
    by auto
qed

lemma manager_main_inventory:
  assumes "manager_parse_args opts default_args = (0, ma)" "manager_validate_args ma = 0" "ma_root ma = Some root"
    and "env_ok e ma f"
  shows "manager_main opts e = manager_inventory e ma" "1 \<le> ma_workers ma" "ma_workers ma \<le> int CAPACITY"
  using assms modes [OF assms(1,2)] by (auto simp: manager_main_def env_ok_def)

lemma manager_main_ok:
  assumes "manager_parse_args opts default_args = (0, ma)" "manager_validate_args ma = 0" "ma_root ma = Some root"
    and "env_ok e ma f" "length root < INV_PATH_MAX" "start_jobs (e_realpath e) ma root sd"
    and "e_rounds e sd = rds @ [r]" "delivers rds rs" "ends r"
    and "e_last_sd e ((rn_sd r)\<lparr>sd_rc := post_full (sd_rc (rn_sd r))\<rparr>) = sdl"
      "ch_holds (sd_rc sdl) xs" "length xs < CAPACITY" "stats_hold sdl ss"
    and "room_for (file_limit f) (rs @ xs)" "records_end (rs @ xs) + 56 * length ss \<le> file_limit f"
  shows "\<exists>outs g. manager_main opts e = Ret (0, outs @ map Stats (rev ss), Some g) \<and>
    complete_db (bytes g) 2 (rs @ xs) (concat (map (stats_bytes (e_pad e)) (rev ss))) \<and>
    verify (Some g) True True = Ret 0 \<and>
    decode_results (nat (hd_get HDB_RECORD_COUNT (bytes g))) (drop HDB_SIZE (bytes g)) = rs @ xs"
proof -
  note m = manager_main_inventory [OF assms(1-4)]
  obtain outs g where "manager_inventory e ma = Ret (0, outs @ map Stats (rev ss), Some g)"
    "complete_db (bytes g) 2 (rs @ xs) (concat (map (stats_bytes (e_pad e)) (rev ss)))"
    using manager_inventory_ok [OF m(2,3) assms(4,3,5-15)] by blast
  then show ?thesis
    using m(1) complete_db_verify complete_db_decode by fastforce
qed

section \<open>A run\<close>

text \<open>
  The manager with one worker that emits one result and ends, for the closed examples.
\<close>

definition demo_round :: "shared_data \<Rightarrow> round" where
  "demo_round sd = \<lparr>rn_sd = sd, rn_pipe = Again, rn_usr1 = False, rn_chld = False, rn_int = False, rn_alrm = False, rn_dead = []\<rparr>"

definition end_activity :: "shared_data \<Rightarrow> shared_data" where
  "end_activity sd = sd\<lparr>sd_hdr := (sd_hdr sd)\<lparr>h_active := ENDED\<rparr>\<rparr>"

definition demo_rounds :: "shared_data \<Rightarrow> round list" where
  "demo_rounds sd =
     (case enqueue_result demo_result sd of Ret (_, t) \<Rightarrow> [demo_round t, demo_round (end_activity sd)] | _ \<Rightarrow> [])"

definition demo_env :: m_env where
  "demo_env = \<lparr>e_pid_fd = -1, e_pipe_ok = True, e_control_fd = 4, e_db = Some (demo_fd []), e_db_truncate = True,
     e_db_map = True, e_db_stat = True, e_db_append = True, e_ipc_open = True, e_ipc_truncate = True, e_ipc_map = True,
     e_sem_ok = (\<lambda>_. True), e_realpath = Some, e_fork = (\<lambda>_. 100), e_rounds = demo_rounds, e_last_pipe = Again,
     e_last_int = False, e_last_sd = (\<lambda>sd. sd), e_pad = []\<rparr>"

definition demo_opts :: "(char \<times> byte list) list" where
  "demo_opts = [(CHR ''r'', bytes_of ''/r''), (CHR ''w'', bytes_of ''1'')]"

lemma demo_atoi: "atoi (bytes_of ''1'') = 1"
  by code_simp

lemma demo_args:
  "manager_parse_args demo_opts default_args = (0, default_args\<lparr>ma_root := Some (bytes_of ''/r''), ma_db_mode := 0, ma_workers := 1\<rparr>)"
  by (simp add: demo_opts_def manager_opt_def demo_atoi default_args_def)

lemma demo_valid: "manager_validate_args (default_args\<lparr>ma_root := Some p, ma_db_mode := 0, ma_workers := 1\<rparr>) = 0"
  by (simp add: manager_validate_args_def default_args_def)

lemma demo_start:
  obtains sd where "start_jobs Some (default_args\<lparr>ma_root := Some p, ma_db_mode := 0, ma_workers := 1\<rparr>) p sd"
    "results_inv sd []" "stats_hold sd []"
proof -
  obtain sd0 where s: "start_ipc True True True (\<lambda>_. True) 1 1024 2048 0 = (0, Some sd0)"
    unfolding start_ipc_ok by simp
  obtain sd where "enqueue_job Some \<lparr>j_depth = 0, j_name = p\<rparr> sd0 = Ret (0, sd)" "sd_rc sd = sd_rc sd0" "sd_ws sd = sd_ws sd0"
    "h_active (sd_hdr sd) = h_active (sd_hdr sd0)" "h_queued_results (sd_hdr sd) = h_queued_results (sd_hdr sd0)"
    using enqueue_job_room [OF start_ipc_inv(1) [OF s], of Some "\<lparr>j_depth = 0, j_name = p\<rparr>"]
    by (auto simp: job_norm_def)
  then show thesis
    using that [of sd] s start_ipc_inv(2,3) [OF s]
    by (simp add: start_jobs_def default_args_def results_inv_def stats_hold_def)
qed

lemma demo_rounds_ok:
  assumes "results_inv sd []"
  shows "\<exists>r. demo_rounds sd = [r, demo_round (end_activity sd)] \<and> delivers [r] [demo_result]"
    "ends (demo_round (end_activity sd))" "ch_holds (sd_rc (end_activity sd)) []"
proof -
  obtain t where t: "enqueue_result demo_result sd = Ret (0, t)" "results_inv t [demo_result]"
    using enqueue_result_room [OF assms, of demo_result] by auto
  have "\<forall>res. \<exists>u. dequeue_result res t = Ret (0, demo_result, u)"
    using dequeue_result_first [OF t(2)] by blast
  then show "\<exists>r. demo_rounds sd = [r, demo_round (end_activity sd)] \<and> delivers [r] [demo_result]"
    using t(1) by (simp add: demo_rounds_def demo_round_def quiet_def)
  show "ends (demo_round (end_activity sd))" "ch_holds (sd_rc (end_activity sd)) []"
    using assms by (simp_all add: ends_def quiet_def demo_round_def end_activity_def results_inv_def ch_idle_def)
qed

section \<open>Properties\<close>

text \<open>
  C6. An inventory no signal interrupts: when the workers deliver the results \<open>rs\<close> through
  the main loop, leave \<open>xs\<close> (fewer than 2048) in the channel when they end, and push the
  statistics \<open>ss\<close>, \<open>main\<close> exits with 0, the database holds exactly the results \<open>rs @ xs\<close> in
  this order and is marked complete, \<open>--verify\<close> accepts it, and reading the records gives
  the results back.
\<close>

theorem manager_correct:
  assumes "manager_parse_args opts default_args = (0, ma)" "manager_validate_args ma = 0" "ma_root ma = Some root"
    and "env_ok e ma f" "length root < INV_PATH_MAX" "start_jobs (e_realpath e) ma root sd"
    and "e_rounds e sd = rds @ [r]" "delivers rds rs" "ends r"
    and "e_last_sd e ((rn_sd r)\<lparr>sd_rc := post_full (sd_rc (rn_sd r))\<rparr>) = sdl"
      "ch_holds (sd_rc sdl) xs" "length xs < CAPACITY" "stats_hold sdl ss"
    and "room_for (file_limit f) (rs @ xs)" "records_end (rs @ xs) + 56 * length ss \<le> file_limit f"
  shows "\<exists>outs g. manager_main opts e = Ret (0, outs @ map Stats (rev ss), Some g) \<and>
    complete_db (bytes g) 2 (rs @ xs) (concat (map (stats_bytes (e_pad e)) (rev ss))) \<and>
    verify (Some g) True True = Ret 0 \<and>
    decode_results (nat (hd_get HDB_RECORD_COUNT (bytes g))) (drop HDB_SIZE (bytes g)) = rs @ xs"
  by (rule manager_main_ok [OF assms])

theorem manager_correct_witness:
  "\<exists>outs g. manager_main demo_opts demo_env = Ret (0, outs, Some g) \<and> verify (Some g) True True = Ret 0 \<and>
    decode_results (nat (hd_get HDB_RECORD_COUNT (bytes g))) (drop HDB_SIZE (bytes g)) = [demo_result]"
proof -
  let ?p = "bytes_of ''/r''"
  obtain sd where sd: "start_jobs Some (default_args\<lparr>ma_root := Some ?p, ma_db_mode := 0, ma_workers := 1\<rparr>) ?p sd"
    "results_inv sd []" "stats_hold sd []"
    by (rule demo_start)
  note r = demo_rounds_ok [OF sd(2)]
  obtain r where rd: "demo_rounds sd = [r] @ [demo_round (end_activity sd)]" "delivers [r] [demo_result]"
    using r(1) by auto
  have e: "env_ok demo_env (default_args\<lparr>ma_root := Some ?p, ma_db_mode := 0, ma_workers := 1\<rparr>) (demo_fd [])"
    by (simp add: env_ok_def demo_env_def default_args_def)
  let ?sdl = "(end_activity sd)\<lparr>sd_rc := post_full (sd_rc (end_activity sd))\<rparr>"
  have l: "ch_holds (sd_rc ?sdl) []" "stats_hold ?sdl []" "room_for 1000000 ([demo_result] @ [])"
    "records_end ([demo_result] @ []) = 97"
    using r(3) sd(3) demo_result_ok
    by (simp_all add: post_full_def end_activity_def stats_hold_def room_for_def records_end_def length_res_bytes)
  show ?thesis
    using manager_correct [OF demo_args demo_valid _ e _ _ _ rd(2) r(2) _ l(1) _ l(2), of ?p sd] sd(1) rd(1) l(3,4)
    by (auto simp: demo_env_def demo_round_def bytes_of_def)
qed

text \<open>
  The arguments the manager accepts select one of two modes: the inventory, with a root
  and between 1 and 2048 workers and neither \<open>--verify\<close> nor \<open>--dump\<close>; or exactly one of
  these two, without a root and without workers.
\<close>

theorem manager_modes:
  assumes "manager_parse_args opts default_args = (0, ma)" "manager_validate_args ma = 0"
  shows "(ma_root ma \<noteq> None \<and> 1 \<le> ma_workers ma \<and> ma_workers ma \<le> int CAPACITY \<and> ma_verify ma = 0 \<and> ma_dump ma = 0) \<or>
    (ma_root ma = None \<and> ma_workers ma \<le> 0 \<and> (ma_verify ma = 1 \<longleftrightarrow> ma_dump ma = 0))"
  by (rule modes [OF assms])

theorem manager_modes_witness:
  "ma_root (snd (manager_parse_args demo_opts default_args)) \<noteq> None \<and>
    ma_verify (snd (manager_parse_args demo_opts default_args)) = 0"
  using manager_modes [OF demo_args demo_valid] unfolding demo_args by auto

text \<open>
  C26. Messages of less than 28672 bytes that the pipe delivers in chunks of at most 4096
  bytes are printed one by one, whole and in order, wherever the chunks are cut, and nothing
  is left in the buffer.
\<close>

theorem pipe_messages:
  assumes "concat cs = concat (map (\<lambda>m. m @ [10]) ms)" "\<forall>c \<in> set cs. length c \<le> 4096"
    and "\<forall>m \<in> set ms. length m < 28672 \<and> 10 \<notin> set m \<and> 0 \<notin> set m"
  shows "read_chunks [] cs = ([], ms)"
proof -
  have "read_chunks [] cs = (snd (print_lines (concat cs)), fst (print_lines (concat cs)))"
    using read_chunks_lines [of "[]" cs ms] assms by (simp add: print_lines_none)
  then show ?thesis
    using print_messages [of ms] assms(1,3) by simp
qed

theorem pipe_messages_witness:
  "read_chunks [] [bytes_of ''T5M'', bytes_of ''SG'' @ [10, 65], [10]] = ([], [bytes_of ''T5MSG'', [65]])"
  by (rule pipe_messages) (auto simp: bytes_of_def)

text \<open>
  C28. The channel that is exactly full when the workers end looks empty to the manager: its
  head and its tail are equal, and none of the 2048 results is stored.
\<close>

theorem drain_full_loses:
  assumes "ch_holds rc xs" "length xs = CAPACITY"
  shows "drain_results rc f failed = Ret (failed, rc, f)"
  using assms by (subst drain_results.simps) (simp add: ch_holds_def)

theorem drain_full_loses_witness:
  "\<exists>rc. ch_holds rc (replicate CAPACITY demo_result) \<and> drain_results rc (demo_fd []) False = Ret (False, rc, demo_fd [])"
proof -
  let ?rc = "\<lparr>ch_capacity = 0, ch_head = 0, ch_tail = 0, ch_empty = 0, ch_full = 0, ch_mutex = 1,
    ch_slots = replicate 2048 demo_result\<rparr>"
  have "ring_view 0 2048 (replicate 2048 demo_result) = replicate 2048 demo_result"
    by (simp add: ring_view_def list_eq_iff_nth_eq)
  then have "ch_holds ?rc (replicate 2048 demo_result)"
    by (simp add: ch_holds_def)
  then show ?thesis
    using drain_full_loses [of ?rc "replicate 2048 demo_result" "demo_fd []" False] by auto
qed

text \<open>
  A root that has no real path, a directory that does not exist for one, makes \<open>main\<close>
  jump past the initialisation of \<open>ret_value\<close> to the code that tests it.
\<close>

theorem missing_root:
  assumes "manager_parse_args opts default_args = (0, ma)" "manager_validate_args ma = 0" "ma_root ma = Some root"
    and "env_ok e ma f" "e_realpath e root = None"
  shows "manager_main opts e = UB"
proof -
  note m = manager_main_inventory [OF assms(1-4)]
  obtain g where "start_db (Some f) True True (ma_workers ma) = (0, Some g)"
    using m_state_start [OF m(2,3)] by blast
  then show ?thesis
    using assms(3-5) m(1) by (simp add: manager_inventory_def env_ok_def start_ipc_ok enqueue_job_def)
qed

theorem missing_root_witness: "manager_main demo_opts (demo_env\<lparr>e_realpath := (\<lambda>_. None)\<rparr>) = UB"
  by (rule missing_root [OF demo_args demo_valid, where f = "demo_fd []"])
    (simp_all add: env_ok_def demo_env_def default_args_def)

end
