(* ===== verification/Inv_Worker.thy ===== *)
theory Inv_Worker
  imports Inv_Queue Sha256 Proc
begin

text \<open>
  The worker, \<open>src/main_fileops_worker.c\<close>: it takes directories from the job queue, puts the
  directories it finds in them back into the queue and a result with the digest of every
  regular file into the channel of results, until the queue is empty and no job is active.
  The file system is an argument. The functions run without interference by the other
  processes; \<open>Inv_Protocol\<close> has the end of the inventory under every schedule.
\<close>

section \<open>Times and messages\<close>

record timespec =
  tv_sec :: int
  tv_nsec :: int

text \<open>The division of C cuts towards 0.\<close>

definition diff_ms :: "timespec \<Rightarrow> timespec \<Rightarrow> int" where
  "diff_ms start finish =
     (let d = tv_nsec finish - tv_nsec start
      in (tv_sec finish - tv_sec start) * 1000 + (if d < 0 then - (- d div 1000000) else d div 1000000))"

record timeval =
  tm_sec :: int
  tm_usec :: int

definition timeval_to_us :: "timeval \<Rightarrow> int" where
  "timeval_to_us tv = tm_sec tv * 1000000 + tm_usec tv"

text \<open>
  What the system answers: the entries of a directory as \<open>readdir\<close> returns them, the
  metadata of a path, what the calls of \<open>read\<close> on a file return (\<open>None\<close> is -1) up to the end
  of the file, the value of \<open>errno\<close> after a failure, whether \<open>SIGTERM\<close> has arrived before
  an iteration of the main loop, the clocks at the start and at the end, the process id and
  the content of an uninitialised digest context.
\<close>

datatype file_kind = Directory | Regular | Other

record wstat =
  wt_kind :: file_kind
  wt_size :: u64
  wt_mtime :: u64
  wt_mode :: u32
  wt_uid :: u32
  wt_gid :: u32

record worker_sys =
  sy_opendir :: "byte list \<Rightarrow> byte list list option"
  sy_lstat :: "byte list \<Rightarrow> wstat option"
  sy_open :: "byte list \<Rightarrow> byte list option list option"
  sy_realpath :: "byte list \<Rightarrow> byte list option"
  sy_errno :: int
  sy_sigterm :: "nat \<Rightarrow> bool"
  sy_wall :: "timespec \<times> timespec"
  sy_user :: "timeval \<times> timeval"
  sy_sys :: "timeval \<times> timeval"
  sy_pid :: u32
  sy_ctx :: sha256_ctx

record worker_args =
  wa_worker_id :: int
  wa_ipc_path :: "byte list option"
  wa_control_fd :: int

text \<open>The state of a worker: the shared memory, its statistics, and the messages it sent.\<close>

record wstate =
  wk_sd :: shared_data
  wk_stats :: worker_stats
  wk_sent :: "byte list list"

text \<open>\<open>send_msg\<close> of what \<open>snprintf\<close> left in the buffer of 256 bytes.\<close>

definition send_msg :: "int \<Rightarrow> byte list \<Rightarrow> wstate \<Rightarrow> wstate" where
  "send_msg fd msg w = (if fd < 0 then w else w\<lparr>wk_sent := wk_sent w @ [take 255 msg]\<rparr>)"

definition error_msg :: "worker_args \<Rightarrow> int \<Rightarrow> string \<Rightarrow> byte list" where
  "error_msg wa errno where =
     bytes_of ''T5MSG type=ERROR worker_id='' @ print_d (wa_worker_id wa) @ bytes_of '' errno='' @ print_d errno @
     bytes_of '' where='' @ bytes_of where @ [10]"

definition exiting_msg :: "worker_args \<Rightarrow> string \<Rightarrow> byte list" where
  "exiting_msg wa reason =
     bytes_of ''T5MSG type=WORKER_EXITING worker_id='' @ print_d (wa_worker_id wa) @ bytes_of '' reason='' @
     bytes_of reason @ [10]"

definition job_done_msg :: "worker_args \<Rightarrow> worker_stats \<Rightarrow> byte list" where
  "job_done_msg wa ws =
     bytes_of ''T5MSG type=JOB_DONE worker_id='' @ print_d (wa_worker_id wa) @
     bytes_of '' jobs='' @ print_d (sint (w_jobs_processed ws)) @ bytes_of '' files='' @ print_d (sint (w_files_emitted ws)) @
     bytes_of '' bytes='' @ print_d (sint (w_bytes_emitted ws)) @ [10]"

section \<open>Arguments\<close>

fun worker_parse_args :: "(char \<times> byte list) list \<Rightarrow> worker_args \<Rightarrow> int \<times> worker_args" where
  "worker_parse_args [] wa = (0, wa)"
| "worker_parse_args ((opt, optarg) # opts) wa =
     (if opt = CHR ''w'' then worker_parse_args opts (wa\<lparr>wa_worker_id := atoi optarg\<rparr>)
      else if opt = CHR ''i'' then worker_parse_args opts (wa\<lparr>wa_ipc_path := Some optarg\<rparr>)
      else if opt = CHR ''c'' then worker_parse_args opts (wa\<lparr>wa_control_fd := atoi optarg\<rparr>)
      else (-1, wa))"

definition worker_validate_args :: "worker_args \<Rightarrow> int" where
  "worker_validate_args wa = (if wa_ipc_path wa = None then -1 else if wa_worker_id wa = -1 then -1 else 0)"

section \<open>A file\<close>

text \<open>
  The loop that reads and digests a file: a failing \<open>read\<close> is the \<open>size_t\<close> value
  \<open>2 ^ 64 - 1\<close>, greater than 0 like a number of bytes, and \<open>sha256_update\<close> gets it as the
  length of the buffer.
\<close>

fun hash_reads :: "sha256_ctx \<Rightarrow> byte list option list \<Rightarrow> sha256_ctx outcome" where
  "hash_reads ctx [] = Ret ctx"
| "hash_reads ctx (None # rs) = c_bind (sha256_update ctx (replicate 4096 0) (2 ^ 64 - 1)) (\<lambda>ctx. hash_reads ctx rs)"
| "hash_reads ctx (Some bs # rs) =
     (if bs = [] then Ret ctx else c_bind (sha256_update ctx bs (length bs)) (\<lambda>ctx. hash_reads ctx rs))"

definition file_result :: "byte list \<Rightarrow> wstat \<Rightarrow> byte list \<Rightarrow> result" where
  "file_result path st sha =
     \<lparr>r_abs_path = path, r_size = ucast (wt_size st), r_mtime = ucast (wt_mtime st), r_mode = wt_mode st,
      r_uid = wt_uid st, r_gid = wt_gid st, r_sha = sha\<rparr>"

section \<open>A directory\<close>

text \<open>
  One entry of a directory; the first component of the result says whether the worker goes
  to \<open>cleanup\<close> with an error.
\<close>

definition fail_at :: "worker_args \<Rightarrow> worker_sys \<Rightarrow> string \<Rightarrow> wstate \<Rightarrow> (bool \<times> wstate) outcome" where
  "fail_at wa sys where w = Ret (True, send_msg (wa_control_fd wa) (error_msg wa (sy_errno sys) where) w)"

definition emit_file :: "worker_args \<Rightarrow> worker_sys \<Rightarrow> byte list \<Rightarrow> wstat \<Rightarrow> wstate \<Rightarrow> (bool \<times> wstate) outcome" where
  "emit_file wa sys path st w =
     (case sy_open sys path of None \<Rightarrow> fail_at wa sys ''open_file'' w
      | Some reads \<Rightarrow>
      c_bind (c_bind (hash_reads (sha256_init (sy_ctx sys)) reads) sha256_final) (\<lambda>(sha, _).
      c_bind (enqueue_result (file_result path st sha) (wk_sd w)) (\<lambda>(r, sd).
      if r = -1 then fail_at wa sys ''enqueue_result'' (w\<lparr>wk_sd := sd\<rparr>) else
      let ws = wk_stats w
      in Ret (False, w\<lparr>wk_sd := sd,
           wk_stats := ws\<lparr>w_files_emitted := w_files_emitted ws + 1, w_bytes_emitted := w_bytes_emitted ws + wt_size st\<rparr>\<rparr>))))"

definition process_entry :: "worker_args \<Rightarrow> worker_sys \<Rightarrow> job_t \<Rightarrow> byte list \<Rightarrow> wstate \<Rightarrow> (bool \<times> wstate) outcome" where
  "process_entry wa sys job name w =
     (if name = bytes_of ''.'' \<or> name = bytes_of ''..'' then Ret (False, w) else
      let resolved_path = take (INV_PATH_MAX - 1) (j_name job @ bytes_of ''/'' @ name) in
      case sy_lstat sys resolved_path of None \<Rightarrow> fail_at wa sys ''lstat'' w
      | Some st \<Rightarrow>
      if wt_kind st = Directory \<and> j_depth job < h_max_depth (sd_hdr (wk_sd w)) then
        c_bind (enqueue_job (sy_realpath sys) \<lparr>j_depth = j_depth job + 1, j_name = resolved_path\<rparr> (wk_sd w)) (\<lambda>(r, sd).
        if r = -1 then fail_at wa sys ''enqueue_job'' (w\<lparr>wk_sd := sd\<rparr>) else Ret (False, w\<lparr>wk_sd := sd\<rparr>))
      else if wt_kind st = Regular \<and> j_depth job < h_max_depth (sd_hdr (wk_sd w)) then
        emit_file wa sys resolved_path st w
      else Ret (False, w))"

fun process_entries :: "worker_args \<Rightarrow> worker_sys \<Rightarrow> job_t \<Rightarrow> byte list list \<Rightarrow> wstate \<Rightarrow> (bool \<times> wstate) outcome" where
  "process_entries wa sys job [] w = Ret (False, w)"
| "process_entries wa sys job (name # names) w =
     c_bind (process_entry wa sys job name w) (\<lambda>(failed, w).
     if failed then Ret (True, w) else process_entries wa sys job names w)"

section \<open>The main loop\<close>

text \<open>Changing the header with the mutex of the job queue held.\<close>

definition in_mutex :: "(shared_data \<Rightarrow> shared_data) \<Rightarrow> wstate \<Rightarrow> wstate outcome" where
  "in_mutex section w =
     c_bind (wait_mutex (sd_jq (wk_sd w))) (\<lambda>jq.
     let sd = section ((wk_sd w)\<lparr>sd_jq := jq\<rparr>) in Ret (w\<lparr>wk_sd := sd\<lparr>sd_jq := post_mutex (sd_jq sd)\<rparr>\<rparr>))"

definition add_active :: "int \<Rightarrow> shared_data \<Rightarrow> shared_data" where
  "add_active d sd = sd\<lparr>sd_hdr := (sd_hdr sd)\<lparr>h_active_jobs := h_active_jobs (sd_hdr sd) + d\<rparr>\<rparr>"

text \<open>\<open>active\<close> becomes \<open>'E'\<close>; the manager and the waiting workers are woken up.\<close>

definition announce_end :: "shared_data \<Rightarrow> shared_data" where
  "announce_end sd =
     (let sd = sd\<lparr>sd_hdr := (sd_hdr sd)\<lparr>h_active := ENDED\<rparr>\<rparr>;
          sd = sd\<lparr>sd_rc := post_full (sd_rc sd)\<rparr>
      in sd\<lparr>sd_jq := (post_full ^^ nat (h_workers (sd_hdr sd))) (sd_jq sd)\<rparr>)"

definition leave_job :: "shared_data \<Rightarrow> shared_data" where
  "leave_job sd =
     (let sd = add_active (-1) sd
      in if h_active_jobs (sd_hdr sd) = 0 \<and> h_queued_jobs (sd_hdr sd) = 0 then announce_end sd else sd)"

definition leave_failed :: "shared_data \<Rightarrow> shared_data" where
  "leave_failed sd = (let sd = add_active (-1) sd in if h_active_jobs (sd_hdr sd) = 0 then announce_end sd else sd)"

text \<open>A job that was taken from the queue, up to the end of the iteration.\<close>

definition process_job :: "worker_args \<Rightarrow> worker_sys \<Rightarrow> job_t \<Rightarrow> wstate \<Rightarrow> (bool \<times> wstate) outcome" where
  "process_job wa sys job w =
     c_bind (in_mutex (add_active 1) w) (\<lambda>w.
     case sy_opendir sys (j_name job) of None \<Rightarrow> fail_at wa sys ''opendir'' w
     | Some names \<Rightarrow>
     c_bind (process_entries wa sys job names w) (\<lambda>(failed, w).
     if failed then Ret (True, w) else
     let ws = wk_stats w;
         ws = ws\<lparr>w_jobs_processed := w_jobs_processed ws + 1\<rparr>;
         w = send_msg (wa_control_fd wa) (job_done_msg wa ws) (w\<lparr>wk_stats := ws\<rparr>)
     in c_bind (in_mutex leave_job w) (\<lambda>w. Ret (False, w))))"

text \<open>
  The main loop in its iteration \<open>n\<close>: the values of \<open>failed\<close> and \<open>exiting_sent\<close> at its end.
\<close>

partial_function (option) worker_loop ::
  "worker_args \<Rightarrow> worker_sys \<Rightarrow> nat \<Rightarrow> job_t \<Rightarrow> wstate \<Rightarrow> (bool \<times> bool \<times> wstate) outcome option" where
  "worker_loop wa sys n job w =
     (if sy_sigterm sys n then Some (Ret (False, True, send_msg (wa_control_fd wa) (exiting_msg wa ''shutdown'') w))
      else case dequeue_job job (wk_sd w) of UB \<Rightarrow> Some UB | Diverge \<Rightarrow> Some Diverge | Ret (r, job, sd) \<Rightarrow>
      if r = 1 then
        Some (Ret (False, True, send_msg (wa_control_fd wa) (exiting_msg wa ''normal'') (w\<lparr>wk_sd := sd\<rparr>)))
      else case process_job wa sys job (w\<lparr>wk_sd := sd\<rparr>) of UB \<Rightarrow> Some UB | Diverge \<Rightarrow> Some Diverge
      | Ret (failed, w) \<Rightarrow> if failed then Some (Ret (True, False, w)) else worker_loop wa sys (n + 1) job w)"

section \<open>\<open>main\<close>\<close>

definition worker_cleanup :: "worker_args \<Rightarrow> worker_sys \<Rightarrow> bool \<Rightarrow> bool \<Rightarrow> wstate \<Rightarrow> (int \<times> wstate) outcome" where
  "worker_cleanup wa sys failed exiting_sent w =
     c_bind (if failed then in_mutex leave_failed (w\<lparr>wk_stats := (wk_stats w)\<lparr>w_exit_status := 1\<rparr>\<rparr>) else Ret w) (\<lambda>w.
     let w = (if exiting_sent then w
              else send_msg (wa_control_fd wa) (exiting_msg wa (if failed then ''error'' else ''normal'')) w);
         ws = (wk_stats w)\<lparr>w_wall_time_ms := c_u64 (diff_ms (fst (sy_wall sys)) (snd (sy_wall sys))),
           w_user_cpu_us := c_u64 (timeval_to_us (snd (sy_user sys)) - timeval_to_us (fst (sy_user sys))),
           w_sys_cpu_us := c_u64 (timeval_to_us (snd (sy_sys sys)) - timeval_to_us (fst (sy_sys sys)))\<rparr>
     in c_bind (push_worker_stats ws (wk_sd w)) (\<lambda>(r, sd).
        Ret (if r = -1 then 1 else if failed then 1 else 0, w\<lparr>wk_stats := ws, wk_sd := sd\<rparr>)))"

text \<open>
  \<open>main\<close>: the exit code, the shared memory and the messages. When the mapping fails the
  clean-up uses the pointer all the same.
\<close>

definition worker_main ::
  "(char \<times> byte list) list \<Rightarrow> worker_sys \<Rightarrow> shared_data option \<Rightarrow> (int \<times> shared_data option \<times> byte list list) outcome" where
  "worker_main opts sys ipc =
     (let (r, wa) = worker_parse_args opts \<lparr>wa_worker_id = -1, wa_ipc_path = None, wa_control_fd = -1\<rparr> in
      if r = -1 then Ret (1, ipc, []) else if worker_validate_args wa = -1 then Ret (1, ipc, []) else
      c_bind (get_mapped_data ipc) (\<lambda>(r, m).
      case m of Null \<Rightarrow> UB | Dangling \<Rightarrow> UB | Mapped sd \<Rightarrow>
      let w = \<lparr>wk_sd = sd, wk_stats = zero_stats\<lparr>w_worker_id := c_u32 (wa_worker_id wa), w_pid := sy_pid sys\<rparr>, wk_sent = []\<rparr>
      in c_bind (case worker_loop wa sys 0 zero_job w of None \<Rightarrow> Diverge | Some r \<Rightarrow> r) (\<lambda>(failed, exiting_sent, w).
         c_bind (worker_cleanup wa sys failed exiting_sent w) (\<lambda>(code, w). Ret (code, Some (wk_sd w), wk_sent w)))))"

end
