(* ===== verification/Inv_Worker_Correct.thy ===== *)
theory Inv_Worker_Correct
  imports Inv_Worker "HOL-Library.Multiset"
begin

text \<open>
  A worker that runs alone on a directory tree: it visits the directories in the order of the
  queue and emits every regular file above the depth limit exactly once, with the digest of
  its content. The tree is a value, and \<open>tree_at\<close> says that the answers of the system are
  those of the tree.
\<close>

section \<open>Directory trees\<close>

datatype wnode =
    File wstat "byte list list"
  | Special wstat
  | Folder wstat "(byte list \<times> wnode) list"

definition sub_path :: "byte list \<Rightarrow> byte list \<Rightarrow> byte list" where
  "sub_path p name = p @ bytes_of ''/'' @ name"

definition dots :: "byte list \<Rightarrow> bool" where
  "dots name \<longleftrightarrow> name = bytes_of ''.'' \<or> name = bytes_of ''..''"

text \<open>
  A folder's real path is its path, \<open>readdir\<close> returns its entries, and the two dots anywhere
  among them; the paths of the entries fit the buffers. A file's content comes in pieces.
\<close>

fun tree_at :: "worker_sys \<Rightarrow> byte list \<Rightarrow> wnode \<Rightarrow> bool" where
  "tree_at sys p (File st cs) \<longleftrightarrow>
     sy_lstat sys p = Some st \<and> wt_kind st = Regular \<and> sy_open sys p = Some (map Some cs) \<and>
     (\<forall>c \<in> set cs. c \<noteq> [] \<and> length c \<le> 4096)"
| "tree_at sys p (Special st) \<longleftrightarrow> sy_lstat sys p = Some st \<and> wt_kind st = Other"
| "tree_at sys p (Folder st es) \<longleftrightarrow>
     sy_lstat sys p = Some st \<and> wt_kind st = Directory \<and> sy_realpath sys p = Some p \<and>
     (\<exists>names. sy_opendir sys p = Some names \<and> filter (\<lambda>n. \<not> dots n) names = map fst es) \<and>
     (\<forall>(n, t) \<in> set es. length (sub_path p n) < INV_PATH_MAX \<and> tree_at sys (sub_path p n) t)"

text \<open>The files of a tree above the depth limit: path, metadata and digest.\<close>

type_synonym found = "byte list \<times> wstat \<times> byte list"

definition found_result :: "found \<Rightarrow> result" where
  "found_result f = (case f of (path, st, sha) \<Rightarrow> file_result path st sha)"

fun tree_files :: "int \<Rightarrow> int \<Rightarrow> byte list \<Rightarrow> wnode \<Rightarrow> found list" where
  "tree_files md d p (File st cs) = [(p, st, ref_sha256 (concat cs))]"
| "tree_files md d p (Special st) = []"
| "tree_files md d p (Folder st es) = (if d < md then concat (map (\<lambda>(n, t). tree_files md (d + 1) (sub_path p n) t) es) else [])"

fun folders :: "wnode \<Rightarrow> nat" where
  "folders (Folder st es) = 1 + sum_list (map (\<lambda>(n, t). folders t) es)"
| "folders _ = 0"

section \<open>The order of the queue\<close>

text \<open>
  A directory that waits in the queue: its depth, path and entries. Its files and its
  directories, as the worker finds them when it processes it.
\<close>

type_synonym todo = "int \<times> byte list \<times> (byte list \<times> wnode) list"

fun own_files :: "byte list \<Rightarrow> (byte list \<times> wnode) list \<Rightarrow> found list" where
  "own_files p [] = []"
| "own_files p ((n, File st cs) # es) = (sub_path p n, st, ref_sha256 (concat cs)) # own_files p es"
| "own_files p ((n, _) # es) = own_files p es"

fun sub_todos :: "int \<Rightarrow> byte list \<Rightarrow> (byte list \<times> wnode) list \<Rightarrow> todo list" where
  "sub_todos d p [] = []"
| "sub_todos d p ((n, Folder st sub) # es) = (d + 1, sub_path p n, sub) # sub_todos d p es"
| "sub_todos d p ((n, _) # es) = sub_todos d p es"

definition files_of :: "int \<Rightarrow> todo \<Rightarrow> found list" where
  "files_of md t = (case t of (d, p, es) \<Rightarrow> if d < md then own_files p es else [])"

definition todos_of :: "int \<Rightarrow> todo \<Rightarrow> todo list" where
  "todos_of md t = (case t of (d, p, es) \<Rightarrow> if d < md then sub_todos d p es else [])"

definition todo_size :: "todo \<Rightarrow> nat" where
  "todo_size t = (case t of (_, _, es) \<Rightarrow> 1 + sum_list (map (\<lambda>(n, t). folders t) es))"

lemma sub_todos_size: "sum_list (map todo_size (sub_todos d p es)) = sum_list (map (\<lambda>(n, t). folders t) es)"
  by (induction d p es rule: sub_todos.induct) (simp_all add: todo_size_def)

lemma todos_of_size: "sum_list (map todo_size (todos_of md t)) < todo_size t"
  using sub_todos_size by (cases t) (auto simp: todos_of_def todo_size_def less_Suc_eq_le)

text \<open>What the worker emits for a queue, and how many jobs it processes.\<close>

function bfs :: "int \<Rightarrow> todo list \<Rightarrow> found list" where
  "bfs md [] = []"
| "bfs md (t # q) = files_of md t @ bfs md (q @ todos_of md t)"
  by pat_completeness auto
termination
  by (relation "measure (\<lambda>(md, q). sum_list (map todo_size q))") (simp_all add: todos_of_size)

function visited :: "int \<Rightarrow> todo list \<Rightarrow> nat" where
  "visited md [] = 0"
| "visited md (t # q) = Suc (visited md (q @ todos_of md t))"
  by pat_completeness auto
termination
  by (relation "measure (\<lambda>(md, q). sum_list (map todo_size q))") (simp_all add: todos_of_size)

text \<open>The files of a waiting directory, in the order of the tree.\<close>

definition todo_files :: "int \<Rightarrow> todo \<Rightarrow> found list" where
  "todo_files md t = (case t of (d, p, es) \<Rightarrow>
     if d < md then concat (map (\<lambda>(n, t). tree_files md (d + 1) (sub_path p n) t) es) else [])"

lemma tree_files_split:
  "mset (concat (map (\<lambda>(n, t). tree_files md (d + 1) (sub_path p n) t) es)) =
    mset (own_files p es) + sum_list (map (\<lambda>t. mset (todo_files md t)) (sub_todos d p es))"
proof (induction es)
  case (Cons e es)
  obtain n t where e: "e = (n, t)"
    by (cases e)
  show ?case
    using Cons by (cases t) (simp_all add: e todo_files_def ac_simps)
qed simp

lemma todo_files_split: "mset (todo_files md t) = mset (files_of md t) + sum_list (map (\<lambda>t. mset (todo_files md t)) (todos_of md t))"
proof (cases t)
  case (fields d p es)
  then show ?thesis
    using tree_files_split [of md d p es] by (simp add: todo_files_def files_of_def todos_of_def)
qed

lemma bfs_files: "mset (bfs md q) = sum_list (map (\<lambda>t. mset (todo_files md t)) q)"
proof (induction md q rule: bfs.induct)
  case (2 md t q)
  then show ?case
    using todo_files_split [of md t] by (simp add: ac_simps)
qed simp

section \<open>What the system shows of a waiting directory\<close>

definition todo_at :: "worker_sys \<Rightarrow> todo \<Rightarrow> bool" where
  "todo_at sys t = (case t of (d, p, es) \<Rightarrow> \<exists>st. tree_at sys p (Folder st es))"

lemma sub_todos_at:
  "\<forall>(n, t) \<in> set es. tree_at sys (sub_path p n) t \<Longrightarrow> list_all (todo_at sys) (sub_todos d p es)"
proof (induction d p es rule: sub_todos.induct)
  case (2 d p n st sub es)
  then have "tree_at sys (sub_path p n) (Folder st sub)"
    by auto
  then show ?case
    using 2 by (auto simp: todo_at_def simp del: tree_at.simps)
qed auto

lemma todos_of_at: "todo_at sys t \<Longrightarrow> list_all (todo_at sys) (todos_of md t)"
proof (cases t)
  case (fields d p es)
  assume "todo_at sys t"
  then have "\<forall>(n, t) \<in> set es. tree_at sys (sub_path p n) t"
    by (auto simp: todo_at_def fields)
  then show ?thesis
    using sub_todos_at by (simp add: todos_of_def fields)
qed

section \<open>The state of the worker\<close>

text \<open>
  \<open>wk_inv md n st a w k q fs\<close>: the queue holds \<open>q\<close>, the channel the results of \<open>fs\<close>, \<open>a\<close>
  jobs are active, and \<open>k\<close> jobs are done; \<open>md\<close> is the depth limit, \<open>n\<close> the number of
  workers and \<open>st\<close> the statistics stack.
\<close>

definition job_of :: "todo \<Rightarrow> job_t" where
  "job_of t = (case t of (d, p, es) \<Rightarrow> \<lparr>j_depth = d, j_name = p\<rparr>)"

definition stats_of :: "worker_stats \<Rightarrow> nat \<Rightarrow> found list \<Rightarrow> bool" where
  "stats_of ws k fs \<longleftrightarrow>
     w_exit_status ws = 0 \<and> w_jobs_processed ws = word_of_nat k \<and> w_files_emitted ws = word_of_nat (length fs) \<and>
     w_bytes_emitted ws = sum_list (map (\<lambda>(_, st, _). wt_size st) fs)"

definition wk_inv :: "int \<Rightarrow> int \<Rightarrow> worker_stack \<Rightarrow> int \<Rightarrow> wstate \<Rightarrow> nat \<Rightarrow> todo list \<Rightarrow> found list \<Rightarrow> bool" where
  "wk_inv md n st a w k q fs \<longleftrightarrow>
     jobs_inv (wk_sd w) (map job_of q) \<and> results_inv (wk_sd w) (map found_result fs) \<and>
     h_active_jobs (sd_hdr (wk_sd w)) = a \<and> h_max_depth (sd_hdr (wk_sd w)) = md \<and> h_workers (sd_hdr (wk_sd w)) = n \<and>
     sd_ws (wk_sd w) = st \<and> stats_of (wk_stats w) k fs"

lemma hash_reads_ok:
  assumes "\<forall>c \<in> set cs. c \<noteq> [] \<and> length c \<le> 4096"
  shows "hash_reads ctx (map Some cs) = sha_update_all ctx cs"
  using assms by (induction cs arbitrary: ctx) auto

lemma digest_ok:
  assumes "length (sx_data ctx) = 64" "\<forall>c \<in> set cs. c \<noteq> [] \<and> length c \<le> 4096"
  shows "\<exists>x. c_bind (hash_reads (sha256_init ctx) (map Some cs)) sha256_final = Ret (ref_sha256 (concat cs), x)"
proof -
  have "\<forall>c \<in> set cs. length c < 2 ^ 32"
    using assms(2) by fastforce
  then obtain y p r where "sha_update_all (sha256_init ctx) cs = Ret y" "absorbed y p r" "p @ r = concat cs"
    using absorb_all [OF absorbed_init [OF assms(1)]] by fastforce
  then show ?thesis
    using final_absorbed [of y p r] by (auto simp: hash_reads_ok [OF assms(2)])
qed

lemma emit_file_ok:
  assumes w: "wk_inv md n st a w k q fs" and t: "tree_at sys p (File info cs)" and x: "length (sx_data (sy_ctx sys)) = 64"
    and l: "length fs < CAPACITY"
  shows "\<exists>v. emit_file wa sys p info w = Ret (False, v) \<and> wk_inv md n st a v k q (fs @ [(p, info, ref_sha256 (concat cs))])"
proof -
  let ?r = "file_result p info (ref_sha256 (concat cs))"
  obtain y where y: "c_bind (hash_reads (sha256_init (sy_ctx sys)) (map Some cs)) sha256_final = Ret (ref_sha256 (concat cs), y)"
    using digest_ok [OF x, of cs] t by auto
  obtain sd where "enqueue_result ?r (wk_sd w) = Ret (0, sd)" "results_inv sd (map found_result fs @ [?r])"
    "sd_jq sd = sd_jq (wk_sd w)" "sd_ws sd = sd_ws (wk_sd w)"
    "sd_hdr sd = (sd_hdr (wk_sd w))\<lparr>h_queued_results := h_queued_results (sd_hdr (wk_sd w)) + 1\<rparr>"
    using enqueue_result_room [of "wk_sd w" "map found_result fs" ?r] w l by (auto simp: wk_inv_def)
  then show ?thesis
    using w t y by (simp add: emit_file_def wk_inv_def jobs_inv_def found_result_def stats_of_def)
qed

lemma enqueue_folder_ok:
  assumes w: "wk_inv md n st a w k q fs" and t: "tree_at sys p (Folder info es)" and l: "length q < CAPACITY"
  shows "\<exists>sd. enqueue_job (sy_realpath sys) \<lparr>j_depth = d, j_name = p\<rparr> (wk_sd w) = Ret (0, sd) \<and>
    wk_inv md n st a (w\<lparr>wk_sd := sd\<rparr>) k (q @ [(d, p, es)]) fs"
proof -
  have "job_norm (sy_realpath sys) \<lparr>j_depth = d, j_name = p\<rparr> = Some (job_of (d, p, es))"
    using t by (simp add: job_norm_def job_of_def)
  then obtain sd where "enqueue_job (sy_realpath sys) \<lparr>j_depth = d, j_name = p\<rparr> (wk_sd w) = Ret (0, sd)"
    "jobs_inv sd (map job_of q @ [job_of (d, p, es)])" "sd_rc sd = sd_rc (wk_sd w)" "sd_ws sd = sd_ws (wk_sd w)"
    "sd_hdr sd = (sd_hdr (wk_sd w))\<lparr>h_queued_jobs := h_queued_jobs (sd_hdr (wk_sd w)) + 1\<rparr>"
    using enqueue_job_room [of "wk_sd w" "map job_of q" _ _ "job_of (d, p, es)"] w l unfolding wk_inv_def by fastforce
  then show ?thesis
    using w by (simp add: wk_inv_def results_inv_def)
qed

section \<open>A directory\<close>

lemma process_entry_ok:
  assumes w: "wk_inv md n st a w k q fs" and x: "length (sx_data (sy_ctx sys)) = 64"
    and t: "tree_at sys (sub_path p name) t" "length (sub_path p name) < INV_PATH_MAX" "\<not> dots name"
    and l: "length q + length (todos_of md (d, p, [(name, t)])) \<le> CAPACITY"
      "length fs + length (files_of md (d, p, [(name, t)])) \<le> CAPACITY"
  shows "\<exists>v. process_entry wa sys \<lparr>j_depth = d, j_name = p\<rparr> name w = Ret (False, v) \<and>
    wk_inv md n st a v k (q @ todos_of md (d, p, [(name, t)])) (fs @ files_of md (d, p, [(name, t)]))"
proof -
  have "take 4095 (p @ bytes_of ''/'' @ name) = sub_path p name"
    using t(2) by (simp add: sub_path_def)
  then have p: "process_entry wa sys \<lparr>j_depth = d, j_name = p\<rparr> name w =
    (case sy_lstat sys (sub_path p name) of None \<Rightarrow> fail_at wa sys ''lstat'' w
     | Some st \<Rightarrow>
       if wt_kind st = Directory \<and> d < md then
         c_bind (enqueue_job (sy_realpath sys) \<lparr>j_depth = d + 1, j_name = sub_path p name\<rparr> (wk_sd w)) (\<lambda>(r, sd).
         if r = -1 then fail_at wa sys ''enqueue_job'' (w\<lparr>wk_sd := sd\<rparr>) else Ret (False, w\<lparr>wk_sd := sd\<rparr>))
       else if wt_kind st = Regular \<and> d < md then emit_file wa sys (sub_path p name) st w else Ret (False, w))"
    using t(3) w unfolding process_entry_def dots_def by (simp add: wk_inv_def Let_def del: take_append cong: option.case_cong if_cong)
  show ?thesis
  proof (cases t)
    case (File s cs)
    then have "length fs < CAPACITY" if "d < md"
      using l(2) that by (simp add: files_of_def)
    then show ?thesis
      using emit_file_ok [OF w t(1) [unfolded File] x, of wa] t File w
      by (cases "d < md") (auto simp: p files_of_def todos_of_def)
  next
    case (Special s)
    then show ?thesis
      using t w by (auto simp: p files_of_def todos_of_def)
  next
    case (Folder s es)
    then have "length q < CAPACITY" if "d < md"
      using l(1) that by (simp add: todos_of_def)
    then show ?thesis
      using enqueue_folder_ok [OF w t(1) [unfolded Folder], of "d + 1"] t Folder w
      by (cases "d < md") (auto simp: p files_of_def todos_of_def)
  qed
qed

lemma files_of_Cons: "files_of md (d, p, e # es) = files_of md (d, p, [e]) @ files_of md (d, p, es)"
proof -
  obtain n t where "e = (n, t)"
    by (cases e)
  then show ?thesis
    by (cases t) (simp_all add: files_of_def)
qed

lemma todos_of_Cons: "todos_of md (d, p, e # es) = todos_of md (d, p, [e]) @ todos_of md (d, p, es)"
proof -
  obtain n t where "e = (n, t)"
    by (cases e)
  then show ?thesis
    by (cases t) (simp_all add: todos_of_def)
qed

lemma process_entries_ok:
  assumes "wk_inv md n st a w k q fs" and x: "length (sx_data (sy_ctx sys)) = 64"
    and "filter (\<lambda>n. \<not> dots n) names = map fst es"
    and "\<forall>(n, t) \<in> set es. length (sub_path p n) < INV_PATH_MAX \<and> tree_at sys (sub_path p n) t"
    and "length q + length (todos_of md (d, p, es)) \<le> CAPACITY" "length fs + length (files_of md (d, p, es)) \<le> CAPACITY"
  shows "\<exists>v. process_entries wa sys \<lparr>j_depth = d, j_name = p\<rparr> names w = Ret (False, v) \<and>
    wk_inv md n st a v k (q @ todos_of md (d, p, es)) (fs @ files_of md (d, p, es))"
  using assms(1,3-6)
proof (induction names arbitrary: w q fs es)
  case Nil
  then show ?case
    by (auto simp: files_of_def todos_of_def)
next
  case (Cons name names)
  show ?case
  proof (cases "dots name")
    case True
    then show ?thesis
      using Cons by (auto simp: process_entry_def dots_def)
  next
    case False
    then obtain t es' where es: "es = (name, t) # es'" "filter (\<lambda>n. \<not> dots n) names = map fst es'"
      using Cons.prems(2) by (cases es) auto
    note c = files_of_Cons [of md d p "(name, t)" es'] todos_of_Cons [of md d p "(name, t)" es']
    obtain v where v: "process_entry wa sys \<lparr>j_depth = d, j_name = p\<rparr> name w = Ret (False, v)"
      "wk_inv md n st a v k (q @ todos_of md (d, p, [(name, t)])) (fs @ files_of md (d, p, [(name, t)]))"
      using process_entry_ok [OF Cons.prems(1) x, of p name t d wa] Cons.prems(3-5) False by (auto simp: es(1) c)
    show ?thesis
      using Cons.IH [OF v(2) es(2)] Cons.prems(3-5) v(1) by (auto simp: es(1) c)
  qed
qed

section \<open>A job and the loop\<close>

lemma posts_full: "(post_full ^^ k) ch = ch\<lparr>ch_full := ch_full ch + k\<rparr>"
  by (induction k) (simp_all add: post_full_def)

lemma wk_inv_mutex: "wk_inv md n st a w k q fs \<Longrightarrow> ch_mutex (sd_jq (wk_sd w)) = 1"
  by (simp add: wk_inv_def jobs_inv_def ch_idle_def)

lemma wk_inv_send [simp]: "wk_inv md n st a (send_msg fd m w) k q fs = wk_inv md n st a w k q fs"
  by (simp add: wk_inv_def send_msg_def)

lemma enter_job:
  assumes w: "wk_inv md n st a w k q fs"
  shows "\<exists>v. in_mutex (add_active 1) w = Ret v \<and> wk_inv md n st (a + 1) v k q fs"
  using w wk_inv_mutex [OF w]
  by (simp add: in_mutex_def wait_mutex_def post_mutex_def add_active_def wk_inv_def jobs_inv_def results_inv_def ch_idle_def)

lemma leave_more:
  assumes w: "wk_inv md n st 1 w k q fs" and q: "q \<noteq> []"
  shows "\<exists>v. in_mutex leave_job w = Ret v \<and> wk_inv md n st 0 v k q fs"
  using assms wk_inv_mutex [OF w]
  by (simp add: in_mutex_def wait_mutex_def post_mutex_def leave_job_def add_active_def wk_inv_def jobs_inv_def results_inv_def
      ch_idle_def Let_def)

text \<open>The state after the end: the other workers find \<open>active\<close> set to \<open>'E'\<close>.\<close>

definition wk_ended :: "worker_stack \<Rightarrow> wstate \<Rightarrow> nat \<Rightarrow> found list \<Rightarrow> bool" where
  "wk_ended st w k fs \<longleftrightarrow>
     h_active (sd_hdr (wk_sd w)) = ENDED \<and> h_active_jobs (sd_hdr (wk_sd w)) = 0 \<and> h_queued_jobs (sd_hdr (wk_sd w)) = 0 \<and>
     0 < ch_full (sd_jq (wk_sd w)) \<and> ch_holds (sd_rc (wk_sd w)) (map found_result fs) \<and> sd_ws (wk_sd w) = st \<and>
     stats_of (wk_stats w) k fs"

lemma wk_ended_send [simp]: "wk_ended st (send_msg fd m w) k fs = wk_ended st w k fs"
  by (simp add: wk_ended_def send_msg_def)

lemma leave_last:
  assumes w: "wk_inv md n st 1 w k [] fs" and n: "1 \<le> n"
  shows "\<exists>v. in_mutex leave_job w = Ret v \<and> wk_ended st v k fs"
  using assms wk_inv_mutex [OF w]
  by (simp add: in_mutex_def wait_mutex_def post_mutex_def post_full_def leave_job_def announce_end_def add_active_def wk_inv_def
      jobs_inv_def results_inv_def ch_idle_def wk_ended_def posts_full Let_def)

lemma process_job_steps:
  assumes w: "wk_inv md n st 0 w k q fs" and x: "length (sx_data (sy_ctx sys)) = 64" and t: "todo_at sys t"
    and l: "length q + length (todos_of md t) \<le> CAPACITY" "length fs + length (files_of md t) \<le> CAPACITY"
  shows "\<exists>v. process_job wa sys (job_of t) w = c_bind (in_mutex leave_job v) (\<lambda>w. Ret (False, w)) \<and>
    wk_inv md n st 1 v (Suc k) (q @ todos_of md t) (fs @ files_of md t)"
proof -
  obtain d p es where t': "t = (d, p, es)"
    by (cases t)
  obtain names where names: "sy_opendir sys p = Some names" "filter (\<lambda>n. \<not> dots n) names = map fst es"
    "\<forall>(n, t) \<in> set es. length (sub_path p n) < INV_PATH_MAX \<and> tree_at sys (sub_path p n) t"
    using t by (auto simp: todo_at_def t')
  obtain u where u: "in_mutex (add_active 1) w = Ret u" "wk_inv md n st 1 u k q fs"
    using enter_job [OF w] by auto
  obtain v where v: "process_entries wa sys \<lparr>j_depth = d, j_name = p\<rparr> names u = Ret (False, v)"
    "wk_inv md n st 1 v k (q @ todos_of md t) (fs @ files_of md t)"
    using process_entries_ok [OF u(2) x names(2,3)] l unfolding t' by blast
  have "wk_inv md n st 1 (v\<lparr>wk_stats := (wk_stats v)\<lparr>w_jobs_processed := w_jobs_processed (wk_stats v) + 1\<rparr>\<rparr>)
      (Suc k) (q @ todos_of md t) (fs @ files_of md t)"
    using v(2) by (simp add: wk_inv_def stats_of_def)
  then show ?thesis
    using u(1) v(1) names(1)
    by (intro exI [of _ "send_msg (wa_control_fd wa) _ _"]) (simp add: process_job_def job_of_def t' Let_def)
qed

lemma dequeue_ended:
  assumes "wk_ended st w k fs"
  shows "\<exists>sd. dequeue_job job (wk_sd w) = Ret (1, job, sd) \<and> wk_ended st (w\<lparr>wk_sd := sd\<rparr>) k fs"
  using assms by (auto simp: dequeue_job_def wait_full_def post_full_def wk_ended_def)

lemma bfs_length: "length (bfs md (t # q)) = length (files_of md t) + length (bfs md (q @ todos_of md t))"
  by simp

lemma todos_le_size: "length q \<le> sum_list (map todo_size q)"
  by (induction q) (auto simp: todo_size_def)

lemma worker_loop_ok:
  assumes "wk_inv md n st 0 w k q fs" and x: "length (sx_data (sy_ctx sys)) = 64" and s: "\<forall>i. \<not> sy_sigterm sys i" and n: "1 \<le> n"
    and "list_all (todo_at sys) q" "q \<noteq> []" "sum_list (map todo_size q) \<le> CAPACITY"
    and "length fs + length (bfs md q) \<le> CAPACITY"
  shows "\<exists>v. worker_loop wa sys i job w = Some (Ret (False, True, v)) \<and> wk_ended st v (k + visited md q) (fs @ bfs md q)"
  using assms(1,5-)
proof (induction md q arbitrary: w k fs i job rule: bfs.induct)
  case (2 md t q)
  obtain sd where sd: "dequeue_job job (wk_sd w) = Ret (0, job_of t, sd)" "wk_inv md n st 0 (w\<lparr>wk_sd := sd\<rparr>) k q fs"
    using dequeue_job_first [of "wk_sd w" "job_of t" "map job_of q" job] "2.prems"(1)
    by (auto simp: wk_inv_def results_inv_def)
  let ?q = "q @ todos_of md t" and ?fs = "fs @ files_of md t"
  have l: "sum_list (map todo_size ?q) \<le> CAPACITY"
    using "2.prems"(4) todos_of_size [of md t] by simp
  have c: "length q + length (todos_of md t) \<le> CAPACITY" "length fs + length (files_of md t) \<le> CAPACITY"
    using l todos_le_size [of ?q] "2.prems"(5) by simp_all
  have t: "todo_at sys t" "list_all (todo_at sys) ?q"
    using "2.prems"(2) todos_of_at [of sys t md] by simp_all
  obtain v where v: "process_job wa sys (job_of t) (w\<lparr>wk_sd := sd\<rparr>) = c_bind (in_mutex leave_job v) (\<lambda>w. Ret (False, w))"
    "wk_inv md n st 1 v (Suc k) ?q ?fs"
    using process_job_steps [OF sd(2) x t(1) c] by blast
  have step: "worker_loop wa sys i job w = worker_loop wa sys (i + 1) (job_of t) u" if "in_mutex leave_job v = Ret u" for u
    using s sd(1) v(1) that by (subst worker_loop.simps) simp
  show ?case
  proof (cases "?q = []")
    case True
    have "wk_inv md n st 1 v (Suc k) [] ?fs"
      using v(2) unfolding True .
    from leave_last [OF this n]
    obtain u where u: "in_mutex leave_job v = Ret u" "wk_ended st u (Suc k) ?fs"
      by blast
    obtain sd' where "dequeue_job (job_of t) (wk_sd u) = Ret (1, job_of t, sd')" "wk_ended st (u\<lparr>wk_sd := sd'\<rparr>) (Suc k) ?fs"
      using dequeue_ended [OF u(2)] by blast
    then show ?thesis
      using s step [OF u(1)] True by (subst (asm) (2) worker_loop.simps) simp
  next
    case False
    obtain u where u: "in_mutex leave_job v = Ret u" "wk_inv md n st 0 u (Suc k) ?q ?fs"
      using leave_more [OF v(2) False] by auto
    show ?thesis
      using "2.IH" [OF u(2) t(2) False l, of "i + 1" "job_of t"] "2.prems"(5) step [OF u(1)] by (simp add: append_assoc)
  qed
qed simp

section \<open>\<open>main\<close>\<close>

text \<open>The shared memory when the first worker starts: one job, the root, and nothing else.\<close>

definition ipc_ready :: "shared_data \<Rightarrow> int \<Rightarrow> byte list \<Rightarrow> worker_stats list \<Rightarrow> bool" where
  "ipc_ready sd md p ss \<longleftrightarrow>
     get_mapped_data (Some sd) = Ret (0, Mapped sd) \<and> jobs_inv sd [\<lparr>j_depth = 0, j_name = p\<rparr>] \<and> results_inv sd [] \<and>
     stats_hold sd ss \<and> length ss < CAPACITY \<and> h_active_jobs (sd_hdr sd) = 0 \<and> h_max_depth (sd_hdr sd) = md \<and>
     1 \<le> h_workers (sd_hdr sd)"

lemma map_magic: "h_magic (sd_hdr sd) = bytes_of ''IPC4'' @ [0] \<Longrightarrow> get_mapped_data (Some sd) = Ret (0, Mapped sd)"
  by (simp add: get_mapped_data_def strcmp_eq_def has_nul_def)

lemma start_ipc_magic:
  "start_ipc True True True (\<lambda>_. True) workers max_depth capacity ms = (0, Some sd) \<Longrightarrow>
    h_magic (sd_hdr sd) = bytes_of ''IPC4'' @ [0]"
  unfolding start_ipc_ok by auto

text \<open>The root in the queue of the memory that \<open>start_ipc\<close> has made.\<close>

lemma start_jobs_ready:
  assumes s: "start_ipc True True True (\<lambda>_. True) workers md capacity ms = (0, Some sd0)" "1 \<le> workers"
    and e: "enqueue_job realpath \<lparr>j_depth = 0, j_name = root\<rparr> sd0 = Ret (0, sd)" "realpath root = Some p"
  shows "ipc_ready sd md p []"
proof -
  have "jobs_inv sd [\<lparr>j_depth = 0, j_name = p\<rparr>]" "sd_rc sd = sd_rc sd0" "sd_ws sd = sd_ws sd0"
    "sd_hdr sd = (sd_hdr sd0)\<lparr>h_queued_jobs := h_queued_jobs (sd_hdr sd0) + 1\<rparr>"
    using enqueue_job_room [OF start_ipc_inv(1) [OF s(1)], of realpath "\<lparr>j_depth = 0, j_name = root\<rparr>"] e
    by (auto simp: job_norm_def)
  then show ?thesis
    using start_ipc_inv(2-6) [OF s(1)] s(2) map_magic [of sd] start_ipc_magic [OF s(1)]
    by (simp add: ipc_ready_def results_inv_def stats_hold_def)
qed

text \<open>The memory after the end of the inventory, with the files \<open>fs\<close> in the channel.\<close>

definition ipc_done :: "shared_data \<Rightarrow> found list \<Rightarrow> worker_stats list \<Rightarrow> bool" where
  "ipc_done sd fs ss \<longleftrightarrow>
     h_active (sd_hdr sd) = ENDED \<and> h_active_jobs (sd_hdr sd) = 0 \<and> h_queued_jobs (sd_hdr sd) = 0 \<and>
     ch_holds (sd_rc sd) (map found_result fs) \<and> stats_hold sd ss"

lemma worker_cleanup_ok:
  assumes w: "wk_ended st w k fs" and s: "stats_hold (wk_sd w) ss" "length ss < CAPACITY"
  shows "\<exists>v ws. worker_cleanup wa sys False True w = Ret (0, v) \<and> ipc_done (wk_sd v) fs (ss @ [ws]) \<and> stats_of ws k fs"
proof -
  let ?ws = "(wk_stats w)\<lparr>w_wall_time_ms := c_u64 (diff_ms (fst (sy_wall sys)) (snd (sy_wall sys))),
    w_user_cpu_us := c_u64 (timeval_to_us (snd (sy_user sys)) - timeval_to_us (fst (sy_user sys))),
    w_sys_cpu_us := c_u64 (timeval_to_us (snd (sy_sys sys)) - timeval_to_us (fst (sy_sys sys)))\<rparr>"
  obtain sd where sd: "push_worker_stats ?ws (wk_sd w) = Ret (0, sd)" "stats_hold sd (ss @ [?ws])"
    "sd = (wk_sd w)\<lparr>sd_ws := sd_ws sd\<rparr>"
    using push_stats_ok [OF s] by blast
  have "sd_hdr sd = sd_hdr (wk_sd w)" "sd_rc sd = sd_rc (wk_sd w)"
    using arg_cong [OF sd(3), of sd_hdr] arg_cong [OF sd(3), of sd_rc] by simp_all
  then show ?thesis
    using sd(1,2) w by (auto simp: worker_cleanup_def ipc_done_def wk_ended_def stats_of_def Let_def)
qed

lemma worker_main_ok:
  assumes a: "worker_parse_args opts \<lparr>wa_worker_id = -1, wa_ipc_path = None, wa_control_fd = -1\<rparr> = (0, wa)"
      "worker_validate_args wa = 0"
    and i: "ipc_ready sd md p ss" and t: "tree_at sys p (Folder info es)"
    and x: "length (sx_data (sy_ctx sys)) = 64" "\<forall>i. \<not> sy_sigterm sys i"
    and l: "folders (Folder info es) \<le> CAPACITY" "length (tree_files md 0 p (Folder info es)) \<le> CAPACITY"
  shows "\<exists>v sent fs ws. worker_main opts sys (Some sd) = Ret (0, Some v, sent) \<and> ipc_done v fs (ss @ [ws]) \<and>
    mset fs = mset (tree_files md 0 p (Folder info es)) \<and> stats_of ws (visited md [(0, p, es)]) fs"
proof -
  let ?t = "(0 :: int, p, es)"
  let ?w = "\<lparr>wk_sd = sd, wk_stats = zero_stats\<lparr>w_worker_id := c_u32 (wa_worker_id wa), w_pid := sy_pid sys\<rparr>, wk_sent = []\<rparr>"
  have w: "wk_inv md (h_workers (sd_hdr sd)) (sd_ws sd) 0 ?w 0 [?t] []"
    using i by (simp add: ipc_ready_def wk_inv_def job_of_def stats_of_def zero_stats_def)
  have f: "mset (bfs md [?t]) = mset (tree_files md 0 p (Folder info es))"
    using bfs_files [of md "[?t]"] by (simp add: todo_files_def del: bfs.simps)
  have len: "length (bfs md [?t]) \<le> CAPACITY"
    using l(2) arg_cong [OF f, of size] by (simp del: bfs.simps)
  obtain u where u: "worker_loop wa sys 0 zero_job ?w = Some (Ret (False, True, u))"
    "wk_ended (sd_ws sd) u (visited md [?t]) (bfs md [?t])"
    using worker_loop_ok [OF w x(1) x(2), of wa 0 zero_job] i t l(1) len
    by (auto simp: ipc_ready_def todo_at_def todo_size_def simp del: bfs.simps visited.simps)
  have "stats_hold (wk_sd u) ss" "length ss < CAPACITY"
    using i u(2) by (simp_all add: ipc_ready_def wk_ended_def stats_hold_def)
  from worker_cleanup_ok [OF u(2) this]
  obtain v ws where v: "worker_cleanup wa sys False True u = Ret (0, v)" "ipc_done (wk_sd v) (bfs md [?t]) (ss @ [ws])"
    "stats_of ws (visited md [?t]) (bfs md [?t])"
    by blast
  have "worker_main opts sys (Some sd) = Ret (0, Some (wk_sd v), wk_sent v)"
    using a i u(1) v(1) by (simp add: worker_main_def ipc_ready_def)
  then show ?thesis
    using v(2,3) f by blast
qed

section \<open>A tree\<close>

text \<open>A directory with one file and one empty directory, for the closed examples.\<close>

definition demo_stat :: "file_kind \<Rightarrow> wstat" where
  "demo_stat k = \<lparr>wt_kind = k, wt_size = 3, wt_mtime = 7, wt_mode = 33188, wt_uid = 0, wt_gid = 0\<rparr>"

definition demo_entries :: "(byte list \<times> wnode) list" where
  "demo_entries = [(bytes_of ''a'', File (demo_stat Regular) [bytes_of ''abc'']), (bytes_of ''d'', Folder (demo_stat Directory) [])]"

definition demo_sys :: worker_sys where
  "demo_sys =
     \<lparr>sy_opendir = (\<lambda>p. if p = bytes_of ''/r'' then Some [bytes_of ''.'', bytes_of ''a'', bytes_of ''..'', bytes_of ''d'']
        else if p = bytes_of ''/r/d'' then Some [bytes_of ''..'', bytes_of ''.''] else None),
      sy_lstat = (\<lambda>p. if p = bytes_of ''/r/a'' then Some (demo_stat Regular)
        else if p = bytes_of ''/r'' \<or> p = bytes_of ''/r/d'' then Some (demo_stat Directory) else None),
      sy_open = (\<lambda>p. if p = bytes_of ''/r/a'' then Some [Some (bytes_of ''abc'')] else None),
      sy_realpath = Some, sy_errno = 0, sy_sigterm = (\<lambda>_. False),
      sy_wall = (\<lparr>tv_sec = 0, tv_nsec = 0\<rparr>, \<lparr>tv_sec = 0, tv_nsec = 0\<rparr>),
      sy_user = (\<lparr>tm_sec = 0, tm_usec = 0\<rparr>, \<lparr>tm_sec = 0, tm_usec = 0\<rparr>),
      sy_sys = (\<lparr>tm_sec = 0, tm_usec = 0\<rparr>, \<lparr>tm_sec = 0, tm_usec = 0\<rparr>), sy_pid = 100, sy_ctx = sha_start\<rparr>"

definition demo_worker_opts :: "(char \<times> byte list) list" where
  "demo_worker_opts = [(CHR ''w'', bytes_of ''0''), (CHR ''i'', bytes_of ''m'')]"

lemma demo_tree: "tree_at demo_sys (bytes_of ''/r'') (Folder (demo_stat Directory) demo_entries)"
  by (simp add: demo_entries_def demo_sys_def demo_stat_def sub_path_def dots_def bytes_of_def)

lemma demo_worker_args:
  "worker_parse_args demo_worker_opts \<lparr>wa_worker_id = -1, wa_ipc_path = None, wa_control_fd = -1\<rparr> =
    (0, \<lparr>wa_worker_id = 0, wa_ipc_path = Some (bytes_of ''m''), wa_control_fd = -1\<rparr>)"
proof -
  have "atoi (bytes_of ''0'') = 0"
    by code_simp
  then show ?thesis
    by (simp add: demo_worker_opts_def)
qed

lemma demo_files: "tree_files 1024 0 (bytes_of ''/r'') (Folder (demo_stat Directory) demo_entries) =
  [(bytes_of ''/r/a'', demo_stat Regular, ref_sha256 (bytes_of ''abc''))]"
  by (simp add: demo_entries_def sub_path_def bytes_of_def)

lemma demo_ready:
  obtains sd where "ipc_ready sd 1024 (bytes_of ''/r'') []"
proof -
  obtain sd0 where s: "start_ipc True True True (\<lambda>_. True) 2 1024 2048 0 = (0, Some sd0)"
    using start_ipc_demo by blast
  obtain sd where "enqueue_job Some \<lparr>j_depth = 0, j_name = bytes_of ''/r''\<rparr> sd0 = Ret (0, sd)"
    using enqueue_job_room [OF start_ipc_inv(1) [OF s], of Some "\<lparr>j_depth = 0, j_name = bytes_of ''/r''\<rparr>"]
    by (auto simp: job_norm_def)
  then show thesis
    using that start_jobs_ready [OF s, of Some "bytes_of ''/r''" sd "bytes_of ''/r''"] by simp
qed

section \<open>Properties\<close>

text \<open>
  C8. One worker on a directory tree: when the queue holds the root, \<open>main\<close> returns 0, and
  the channel then holds a result for every regular file above the depth limit, each exactly
  once and with the SHA-256 digest of its content; no job is queued or active, \<open>active\<close> is
  \<open>'E'\<close>, and the statistics that were pushed count the directories and the files. The tree
  has at most 2048 directories and 2048 files, as nobody empties the queues meanwhile.
\<close>

theorem worker_correct:
  assumes "worker_parse_args opts \<lparr>wa_worker_id = -1, wa_ipc_path = None, wa_control_fd = -1\<rparr> = (0, wa)"
    and "worker_validate_args wa = 0" "ipc_ready sd md p ss" "tree_at sys p (Folder info es)"
    and "length (sx_data (sy_ctx sys)) = 64" "\<forall>i. \<not> sy_sigterm sys i"
    and "folders (Folder info es) \<le> CAPACITY" "length (tree_files md 0 p (Folder info es)) \<le> CAPACITY"
  shows "\<exists>v sent fs ws. worker_main opts sys (Some sd) = Ret (0, Some v, sent) \<and> ipc_done v fs (ss @ [ws]) \<and>
    mset fs = mset (tree_files md 0 p (Folder info es)) \<and> stats_of ws (visited md [(0, p, es)]) fs"
  by (rule worker_main_ok [OF assms])

theorem worker_correct_witness:
  "\<exists>sd v sent ws. ipc_ready sd 1024 (bytes_of ''/r'') [] \<and>
    worker_main demo_worker_opts demo_sys (Some sd) = Ret (0, Some v, sent) \<and>
    ipc_done v [(bytes_of ''/r/a'', demo_stat Regular, ref_sha256 (bytes_of ''abc''))] [ws] \<and> w_jobs_processed ws = 2"
proof -
  obtain sd where sd: "ipc_ready sd 1024 (bytes_of ''/r'') []"
    using demo_ready .
  have v: "visited 1024 [(0, bytes_of ''/r'', demo_entries)] = 2"
    by (simp add: demo_entries_def todos_of_def)
  have "worker_validate_args \<lparr>wa_worker_id = 0, wa_ipc_path = Some (bytes_of ''m''), wa_control_fd = -1\<rparr> = 0"
    "length (sx_data (sy_ctx demo_sys)) = 64" "\<forall>i. \<not> sy_sigterm demo_sys i"
    "folders (Folder (demo_stat Directory) demo_entries) \<le> CAPACITY"
    "length (tree_files 1024 0 (bytes_of ''/r'') (Folder (demo_stat Directory) demo_entries)) \<le> CAPACITY"
    unfolding demo_files by (simp_all add: worker_validate_args_def demo_sys_def sha_start_def demo_entries_def)
  from worker_correct [OF demo_worker_args this(1) sd demo_tree this(2-5)] sd show ?thesis
    unfolding demo_files v by (auto simp: stats_of_def)
qed

text \<open>
  C36. \<open>diff_ms\<close> is the elapsed time up to less than a millisecond, and not negative for a
  clock that does not go back.
\<close>

theorem diff_ms_close:
  assumes "a = tv_sec s * 1000000000 + tv_nsec s" "b = tv_sec e * 1000000000 + tv_nsec e"
    and "0 \<le> tv_nsec s" "tv_nsec s < 1000000000" "0 \<le> tv_nsec e" "tv_nsec e < 1000000000" "a \<le> b"
  shows "\<bar>diff_ms s e * 1000000 - (b - a)\<bar> < 1000000 \<and> 0 \<le> diff_ms s e"
proof -
  define d where "d = tv_nsec e - tv_nsec s"
  define q where "q = tv_sec e - tv_sec s"
  have b: "b - a = q * 1000000000 + d"
    using assms(1,2) by (simp add: d_def q_def algebra_simps)
  have "diff_ms s e = q * 1000 + (if d < 0 then - (- d div 1000000) else d div 1000000)"
    by (simp add: diff_ms_def Let_def d_def q_def)
  moreover have "- 1000000000 < d" "d < 1000000000" "0 \<le> q * 1000000000 + d"
    using assms b by (simp_all add: d_def)
  ultimately show ?thesis
    unfolding b by (cases "d < 0") (simp_all, linarith+)
qed

theorem diff_ms_close_witness: "\<bar>diff_ms \<lparr>tv_sec = 1, tv_nsec = 999999999\<rparr> \<lparr>tv_sec = 2, tv_nsec = 1\<rparr> * 1000000 - 2\<bar> < 1000000"
  using diff_ms_close [of 1999999999 "\<lparr>tv_sec = 1, tv_nsec = 999999999\<rparr>" 2000000001 "\<lparr>tv_sec = 2, tv_nsec = 1\<rparr>"] by simp

text \<open>
  C34. A failing \<open>read\<close> on a file is not noticed: the result is kept in a \<open>size_t\<close>, where -1
  is greater than 0, and \<open>sha256_update\<close> is called with the length \<open>2 ^ 64 - 1\<close>.
\<close>

theorem read_error_undefined:
  assumes "sy_open sys p = Some (map Some cs @ None # rs)" "\<forall>c \<in> set cs. c \<noteq> [] \<and> length c \<le> 4096"
    and "length (sx_data (sy_ctx sys)) = 64"
  shows "emit_file wa sys p info w = UB"
proof -
  have e: "hash_reads x (map Some cs @ None # rs) = c_bind (hash_reads x (map Some cs)) (\<lambda>_. UB)" for x
    using assms(2) by (induction cs arbitrary: x) (auto simp: sha256_update_def c_bind_assoc)
  have "\<exists>y. hash_reads (sha256_init (sy_ctx sys)) (map Some cs) = Ret y"
    using digest_ok [OF assms(3,2)] by (auto simp: c_bind_Ret_iff)
  then show ?thesis
    using assms(1) e by (auto simp: emit_file_def)
qed

theorem read_error_undefined_witness:
  "emit_file \<lparr>wa_worker_id = 0, wa_ipc_path = None, wa_control_fd = -1\<rparr> (demo_sys\<lparr>sy_open := (\<lambda>_. Some [None])\<rparr>)
     (bytes_of ''/r/a'') (demo_stat Regular) \<lparr>wk_sd = zero_shared, wk_stats = zero_stats, wk_sent = []\<rparr> = UB"
  by (rule read_error_undefined [where cs = "[]" and rs = "[]"]) (simp_all add: demo_sys_def sha_start_def)

end
