(* ===== verification/Spec2Isabelle.thy ===== *)
theory Spec2Isabelle
  imports Db_Diff Indexer Proc_Snapshot Sha256 Inv_Sched Inv_Protocol Inv_Manager_Correct Inv_Worker_Correct
begin

text \<open>
  A verification library for a collection of C programs that record the state of a Linux
  machine in binary files.

  \<^bold>\<open>The programs.\<close> \<open>fileops_indexer\<close> (\<open>src/main_fileops_indexer.c\<close>) walks a directory tree and
  appends an entry per file to a snapshot database; \<open>proc_snapshot\<close>
  (\<open>src/main_proc_snapshot.c\<close>) does the same for the running processes; \<open>db_diff\<close>
  (\<open>src/main_db_diff.c\<close>) prints the difference of two snapshots. The three share the
  snapshot format (\<open>src/db_utils.c\<close>, \<open>src/db_fileops_utils.c\<close>, \<open>src/db_proc_utils.c\<close>,
  \<open>include/db_types.h\<close>): a header of fixed fields, 256 buckets, and entries chained from
  the buckets by the offset of the next one. Several processes may write to one snapshot;
  the header counts them, and the last one to close it seals and renames it. The inventory
  is a second system: \<open>fileops_manager\<close> (\<open>src/main_fileops_manager.c\<close>) starts a number of
  \<open>fileops_worker\<close> processes (\<open>src/main_fileops_worker.c\<close>) and shares a mapped file with
  them (\<open>src/inv_ipc.c\<close>, \<open>include/inv_ipc.h\<close>), which holds a queue of directories still to
  be read, a channel of results, and a stack of statistics. The workers read directories,
  digest files with SHA-256 (\<open>src/sha256.c\<close>) and send messages through a pipe; the manager
  stores the results in a database of its own format.

  \<^bold>\<open>How the code is modelled.\<close> A function of C is a HOL function from its arguments and the
  state it changes to an \<open>outcome\<close> (\<open>Prelude\<close>): \<open>Ret\<close> with the result and the new state,
  \<open>UB\<close> where the code runs into undefined behaviour, \<open>Diverge\<close> where it does not return. The
  codes -1, 0, 1 of the source are kept. A file is a list of bytes behind a descriptor
  (\<open>Posix_File\<close>), integers in files are little-endian words of their width, and machine
  arithmetic is on words or goes through \<open>c_int\<close>. What the system answers (\<open>lstat\<close>, \<open>readdir\<close>,
  the files under \<open>/proc\<close>, \<open>fork\<close>, the signals) is an argument.

  \<^bold>\<open>The theories\<close>, in the order of the code:
  \<^item> \<open>Prelude\<close>, \<open>Posix_File\<close>, \<open>Db_Types\<close>: outcomes, slices, encodings, C strings; descriptors;
    the layout of \<open>include/db_types.h\<close>.
  \<^item> \<open>Db_Header\<close>: \<open>get_header_field\<close>, \<open>set_header_field\<close>, \<open>initialize_snapshot\<close>. Setting and
    getting a field, and the frame; the bytes of a fresh snapshot.
  \<^item> \<open>Db_Store\<close>, \<open>Db_Entry\<close>: \<open>next_entry\<close>, \<open>write_to_db\<close> and the append both kinds of entries
    share, under the locale of an entry format. The invariant \<open>layout\<close> relates the bytes to the
    list of records; an append implements insertion into it.
  \<^item> \<open>Fileops\<close>, \<open>Proc\<close>: the entries for files and processes, how they are built, compared and
    appended; each interprets the locale.
  \<^item> \<open>Db_Open\<close>: \<open>open_database\<close> and \<open>close_database\<close> as critical sections, and several processes
    on one path as a transition system with the invariant that the writers are counted. The
    properties without this invariant show the two races of the code.
  \<^item> \<open>Db_Count\<close>, \<open>Indexer\<close>, \<open>Proc_Snapshot\<close>: the two programs that write, from their arguments
    to the sealed file.
  \<^item> \<open>Db_Diff\<close>: the comparison of two snapshots, related to the difference of two lists.
  \<^item> \<open>Sha256\<close>: \<open>src/sha256.c\<close>, related to a recursive definition of FIPS 180-4.
  \<^item> \<open>Inv_Types\<close>, \<open>Inv_Queue\<close>: the shared memory and its initialisation, the functions on the
    two queues and on the stack; both queues are interpretations of the locale of a bounded
    FIFO queue.
  \<^item> \<open>Inv_Sched\<close>: the queues under every schedule, one semaphore operation at a time: they
    stay FIFO queues, with mutual exclusion, but for the end of the inventory, where the
    manager can take a result nobody emitted.
  \<^item> \<open>Inv_Protocol\<close>: the end of the inventory under every schedule of the workers, with workers
    that fail or are told to stop and the shutdown by the manager. Without failure and
    shutdown it is right when no worker finishes while another has a job it has not counted,
    and too early otherwise; it wakes every waiting worker; and it may never come, when all
    workers wait for room in the queue that they alone empty.
  \<^item> \<open>Inv_Db\<close>: the database of the inventory, \<open>--verify\<close> and \<open>--dump\<close>.
  \<^item> \<open>Inv_Manager\<close>, \<open>Inv_Manager_Correct\<close>: the manager, and what it stores and prints.
  \<^item> \<open>Inv_Worker\<close>, \<open>Inv_Worker_Correct\<close>: the worker, and what it emits for a directory tree.
  \<^item> This theory: the manager and the worker together, from the arguments to the records of
    the database.

  \<^bold>\<open>Bounds.\<close> Most loops of the code are structural or have a measure. The loops that follow
  offsets read from a file (\<open>dup_scan\<close>, \<open>lookup_scan\<close>, \<open>report_loop\<close>) need not end on an
  arbitrary file; they are partial functions, and the properties show that they return on
  well-formed files. \<open>verify_walk\<close> counts the records in an \<open>int\<close>, so that on a cycle it ends
  with the overflow of the counter, which is undefined. \<open>worker_loop\<close> ends when the queue is empty, which the property of
  the worker proves for every finite tree. The main loop of the manager runs over the list
  of rounds it is given. The two queues hold 2048 elements, paths have at most 4095 bytes;
  where a property needs more room than the code checks for (the size limit of the file,
  offsets below \<open>2 ^ 31\<close>), it says so in its hypotheses.

  \<^bold>\<open>Not modelled.\<close> The text of diagnostics on stderr; \<open>usleep\<close>; semaphore calls that fail
  with something other than \<open>EINTR\<close>; signals that arrive in the middle of a round of the
  manager; the copy of the manager that goes on in a child whose \<open>execvp\<close> failed; a process
  that ends without \<open>close_database\<close> while it is counted as a writer; the range of \<open>time_t\<close> in
  the worker's clock; the
  interference of other processes within one function of the worker, which \<open>Inv_Sched\<close> and
  \<open>Inv_Protocol\<close> treat at the level of the queues and of the main loop instead. The scripts
  under \<open>tests\<close> and \<open>tools\<close> run the programs and hold no logic of their own.

  \<^bold>\<open>The documents.\<close> Where a document and the code differ the definitions follow the code. The
  mark of a complete inventory is 2 (\<open>DB_FULL_COMPLETE\<close>), as \<open>doc/T5_CONTROL_PLANE.md\<close> has it;
  \<open>doc/T4_DB_FORMAT.md\<close> still has 1. The hash of a symlink is that of the link's own path,
  and the stored path is that path, an arrow and the text of the link (\<open>doc/FORMAT.md\<close>: the
  hash of the stored path, which ends in an absolute target).
\<close>

section \<open>The whole inventory\<close>

lemma room_for_mset:
  assumes "mset xs = mset ys"
  shows "room_for L xs = room_for L ys" "records_end xs = records_end ys"
proof -
  have l: "length (concat (map res_bytes zs)) = sum_mset (image_mset (\<lambda>z. length (res_bytes z)) (mset zs))" for zs
    by (induction zs) simp_all
  have s: "set xs = set ys"
    by (rule mset_eq_setD [OF assms])
  show e: "records_end xs = records_end ys"
    by (simp only: records_end_def l assms)
  show "room_for L xs = room_for L ys"
    unfolding room_for_def e list_all_iff s ..
qed

text \<open>
  The worker runs between the start of the inventory and the first round of the manager:
  \<open>runs_first\<close> says that the only round sees the memory the worker left.
\<close>

definition runs_first :: "m_env \<Rightarrow> (char \<times> byte list) list \<Rightarrow> worker_sys \<Rightarrow> bool" where
  "runs_first e wopts sys \<longleftrightarrow>
     (\<forall>sd code v sent. worker_main wopts sys (Some sd) = Ret (code, Some v, sent) \<longrightarrow>
        (\<exists>r. e_rounds e sd = [r] \<and> rn_sd r = v \<and> quiet r)) \<and>
     e_last_sd e = (\<lambda>sd. sd) \<and> e_realpath e = sy_realpath sys"

lemma start_jobs_exist:
  assumes "realpath root = Some p" "1 \<le> ma_workers ma"
  shows "\<exists>sd. start_jobs realpath ma root sd \<and> ipc_ready sd (ma_max_depth ma) p []"
proof -
  obtain sd0 where s: "start_ipc True True True (\<lambda>_. True) (ma_workers ma) (ma_max_depth ma) (int CAPACITY)
      (ma_simulate_work_ms ma) = (0, Some sd0)"
    unfolding start_ipc_ok by simp
  obtain sd where e: "enqueue_job realpath \<lparr>j_depth = 0, j_name = root\<rparr> sd0 = Ret (0, sd)"
    using enqueue_job_room [OF start_ipc_inv(1) [OF s], of realpath "\<lparr>j_depth = 0, j_name = root\<rparr>"] assms(1)
    by (auto simp: job_norm_def)
  then show ?thesis
    using s start_jobs_ready [OF s assms(2) e assms(1)] unfolding start_jobs_def by blast
qed

text \<open>
  C2. The manager and a worker on a directory tree: \<open>main\<close> of the manager exits with 0 and
  leaves a database that \<open>--verify\<close> accepts, that is marked complete, and whose records are
  the regular files of the tree above the depth limit, each once, with their metadata and the
  SHA-256 digest of their content.
\<close>

theorem inventory_correct:
  assumes "manager_parse_args opts default_args = (0, ma)" "manager_validate_args ma = 0" "ma_root ma = Some root"
    and "env_ok e ma f" "length root < INV_PATH_MAX" "runs_first e wopts sys"
    and "worker_parse_args wopts \<lparr>wa_worker_id = -1, wa_ipc_path = None, wa_control_fd = -1\<rparr> = (0, wa)"
      "worker_validate_args wa = 0"
    and "sy_realpath sys root = Some p" "tree_at sys p (Folder info es)" "length (sx_data (sy_ctx sys)) = 64"
      "\<forall>i. \<not> sy_sigterm sys i"
    and "files = tree_files (ma_max_depth ma) 0 p (Folder info es)"
    and "folders (Folder info es) \<le> CAPACITY" "length files < CAPACITY"
    and "room_for (file_limit f) (map found_result files)" "records_end (map found_result files) + 56 \<le> file_limit f"
  shows "\<exists>outs g rs. manager_main opts e = Ret (0, outs, Some g) \<and> verify (Some g) True True = Ret 0 \<and>
    hd_get HDB_COMPLETE (bytes g) = 2 \<and>
    decode_results (nat (hd_get HDB_RECORD_COUNT (bytes g))) (drop HDB_SIZE (bytes g)) = rs \<and>
    mset rs = mset (map found_result files)"
proof -
  have w: "1 \<le> ma_workers ma"
    by (rule manager_main_inventory(2) [OF assms(1-4)])
  obtain sd where sd: "start_jobs (e_realpath e) ma root sd" "ipc_ready sd (ma_max_depth ma) p []"
    using start_jobs_exist [of "e_realpath e" root p ma] assms(6,9) w by (auto simp: runs_first_def)
  have l: "length (tree_files (ma_max_depth ma) 0 p (Folder info es)) \<le> CAPACITY"
    using assms(13,15) by simp
  obtain v sent fs ws where v: "worker_main wopts sys (Some sd) = Ret (0, Some v, sent)" "ipc_done v fs [ws]"
    "mset fs = mset files"
    using worker_main_ok [OF assms(7,8) sd(2) assms(10-12,14) l] assms(13) by auto
  obtain r where r: "e_rounds e sd = [] @ [r]" "rn_sd r = v" "quiet r"
    using assms(6) v(1) unfolding runs_first_def append_Nil by blast
  have e: "ends r" "delivers [] []"
    using r v(2) by (simp_all add: ends_def ipc_done_def)
  let ?u = "v\<lparr>sd_rc := post_full (sd_rc v)\<rparr>" and ?xs = "map found_result fs"
  have u: "e_last_sd e ((rn_sd r)\<lparr>sd_rc := post_full (sd_rc (rn_sd r))\<rparr>) = ?u" "ch_holds (sd_rc ?u) ?xs" "stats_hold ?u [ws]"
    using assms(6) r(2) v(2) by (simp_all add: runs_first_def ipc_done_def post_full_def stats_hold_def)
  have m: "mset ?xs = mset (map found_result files)"
    using v(3) by simp
  have x: "length ?xs < CAPACITY" "room_for (file_limit f) ([] @ ?xs)" "records_end ([] @ ?xs) + 56 * length [ws] \<le> file_limit f"
    using assms(15-17) room_for_mset [OF m] arg_cong [OF v(3), of size] by simp_all
  show ?thesis
    using manager_main_ok [OF assms(1-5) sd(1) r(1) e(2,1) u(1,2) x(1) u(3) x(2,3)] m
    by (auto simp: complete_db_def)
qed

definition demo_first :: m_env where
  "demo_first = demo_env\<lparr>e_rounds := (\<lambda>sd. case worker_main demo_worker_opts demo_sys (Some sd) of
     Ret (_, Some v, _) \<Rightarrow> [demo_round v] | _ \<Rightarrow> [])\<rparr>"

theorem inventory_correct_witness:
  "\<exists>outs g. manager_main demo_opts demo_first = Ret (0, outs, Some g) \<and> verify (Some g) True True = Ret 0 \<and>
    decode_results (nat (hd_get HDB_RECORD_COUNT (bytes g))) (drop HDB_SIZE (bytes g)) =
      [file_result (bytes_of ''/r/a'') (demo_stat Regular) (ref_sha256 (bytes_of ''abc''))]"
proof -
  let ?p = "bytes_of ''/r''" and ?f = "(bytes_of ''/r/a'', demo_stat Regular, ref_sha256 (bytes_of ''abc''))"
  let ?ma = "default_args\<lparr>ma_root := Some ?p, ma_db_mode := 0, ma_workers := 1\<rparr>"
  have e: "env_ok demo_first ?ma (demo_fd [])" "runs_first demo_first demo_worker_opts demo_sys"
    by (simp_all add: env_ok_def demo_first_def demo_env_def default_args_def runs_first_def demo_round_def quiet_def demo_sys_def)
  have t: "[?f] = tree_files (ma_max_depth ?ma) 0 ?p (Folder (demo_stat Directory) demo_entries)"
    using demo_files by (simp add: default_args_def)
  have l: "length (r_abs_path (found_result ?f)) = 4" "length (r_sha (found_result ?f)) = 32" "0 \<notin> set (r_abs_path (found_result ?f))"
    by (simp_all add: found_result_def file_result_def bytes_of_def ref_sha256_def regs_bytes_def split: prod.split)
  then have r: "room_for 1000000 (map found_result [?f])" "records_end (map found_result [?f]) = 97"
    by (simp_all add: room_for_def records_end_def res_ok_def length_res_bytes)
  have w: "worker_validate_args \<lparr>wa_worker_id = 0, wa_ipc_path = Some (bytes_of ''m''), wa_control_fd = -1\<rparr> = 0"
    "sy_realpath demo_sys ?p = Some ?p" "length (sx_data (sy_ctx demo_sys)) = 64" "\<forall>i. \<not> sy_sigterm demo_sys i"
    "folders (Folder (demo_stat Directory) demo_entries) \<le> CAPACITY" "length ?p < INV_PATH_MAX"
    by (simp_all add: worker_validate_args_def demo_sys_def sha_start_def demo_entries_def bytes_of_def)
  show ?thesis
    using inventory_correct [OF demo_args demo_valid _ e(1) w(6) e(2) demo_worker_args w(1,2) demo_tree w(3,4) t w(5)] r
    by (auto simp: found_result_def)
qed

end
